(* ===== verification/Prelude.thy ===== *)
theory Prelude
  imports Complex_Main "HOL-Library.Word" "HOL-Library.Sublist"
begin

text \<open>
  The vocabulary every component shares: JavaScript strings and numbers, points in time,
  results that are either an error or a value, runs of an event-driven component, and the
  generic lemmas on lists and maps the component proofs rest on.

  \<^item> A JavaScript string is a sequence of UTF-16 code units, so \<open>jstring\<close> is a list of
    16-bit words and \<open>length\<close> counts what \<open>String.length\<close> counts; \<open>js\<close> embeds an ASCII
    literal of the source.
  \<^item> A JavaScript number is \<open>number\<close> where the code inspects it for NaN or infinity (option
    validation), an \<open>int\<close> where the code only counts with it, and a \<open>rat\<close> where it is a
    time in milliseconds or a rate. Arithmetic is exact: the rounding of IEEE doubles and
    the loss of unit steps beyond 2 to the 53 are not modelled.
\<close>

section \<open>Strings\<close>

type_synonym code_unit = "16 word"
type_synonym jstring = "code_unit list"

definition unit_of_char :: "char \<Rightarrow> code_unit" where
  "unit_of_char c = of_nat (of_char c)"

definition js :: "string \<Rightarrow> jstring" where
  "js s = map unit_of_char s"

text \<open>\<open>String(n)\<close> of an integer, for the magnitudes that print without an exponent.\<close>

fun string_of_nat :: "nat \<Rightarrow> string" where
  "string_of_nat n =
     (if n < 10 then [char_of (48 + n)]
      else string_of_nat (n div 10) @ [char_of (48 + n mod 10)])"

declare string_of_nat.simps [simp del]

definition string_of_int :: "int \<Rightarrow> jstring" where
  "string_of_int i =
     js (if i < 0 then CHR ''-'' # string_of_nat (nat (- i)) else string_of_nat (nat i))"

text \<open>
  The white space of \<open>\s\<close> and \<open>String.trim\<close>: the ECMAScript white space and line
  terminators.
\<close>

definition is_js_space :: "code_unit \<Rightarrow> bool" where
  "is_js_space u \<longleftrightarrow>
     u \<in> set [0x9, 0xA, 0xB, 0xC, 0xD, 0x20, 0xA0, 0x1680, 0x2000, 0x2001, 0x2002, 0x2003,
       0x2004, 0x2005, 0x2006, 0x2007, 0x2008, 0x2009, 0x200A, 0x2028, 0x2029, 0x202F, 0x205F,
       0x3000, 0xFEFF]"

definition js_trim :: "jstring \<Rightarrow> jstring" where
  "js_trim s = rev (dropWhile is_js_space (rev (dropWhile is_js_space s)))"

text \<open>ASCII lower case, as a case-insensitive pattern over ASCII letters compares.\<close>

definition ascii_lower :: "code_unit \<Rightarrow> code_unit" where
  "ascii_lower u = (if 0x41 \<le> u \<and> u \<le> 0x5A then u + 0x20 else u)"

section \<open>Numbers\<close>

datatype number = Num rat | NaN | PosInfinity | NegInfinity

definition is_int_rat :: "rat \<Rightarrow> bool" where
  "is_int_rat q \<longleftrightarrow> of_int \<lfloor>q\<rfloor> = q"

fun number_isInteger :: "number \<Rightarrow> bool" where
  "number_isInteger (Num q) = is_int_rat q"
| "number_isInteger _ = False"

fun number_isSafeInteger :: "number \<Rightarrow> bool" where
  "number_isSafeInteger (Num q) = (is_int_rat q \<and> \<bar>q\<bar> \<le> 2 ^ 53 - 1)"
| "number_isSafeInteger _ = False"

fun number_isFinite :: "number \<Rightarrow> bool" where
  "number_isFinite (Num q) = True"
| "number_isFinite _ = False"

text \<open>The comparison operators: every comparison with NaN is false.\<close>

fun number_less :: "number \<Rightarrow> number \<Rightarrow> bool" where
  "number_less (Num a) (Num b) = (a < b)"
| "number_less (Num a) PosInfinity = True"
| "number_less NegInfinity (Num b) = True"
| "number_less NegInfinity PosInfinity = True"
| "number_less _ _ = False"

fun number_le :: "number \<Rightarrow> number \<Rightarrow> bool" where
  "number_le (Num a) (Num b) = (a \<le> b)"
| "number_le (Num a) PosInfinity = True"
| "number_le NegInfinity b = (b \<noteq> NaN)"
| "number_le PosInfinity PosInfinity = True"
| "number_le _ _ = False"

fun rat_of_number :: "number \<Rightarrow> rat" where
  "rat_of_number (Num q) = q"
| "rat_of_number _ = 0"

definition int_of_number :: "number \<Rightarrow> int" where
  "int_of_number n = \<lfloor>rat_of_number n\<rfloor>"

text \<open>A point in time, or a duration, in milliseconds.\<close>

type_synonym time = rat

section \<open>Steps that may fail\<close>

definition bind_sum :: "'e + 'a \<Rightarrow> ('a \<Rightarrow> 'e + 'b) \<Rightarrow> 'e + 'b" where
  "bind_sum m f = (case m of Inl e \<Rightarrow> Inl e | Inr a \<Rightarrow> f a)"

section \<open>Runs of an event-driven component\<close>

text \<open>
  A component whose synchronous segments are the transitions of a function
  \<open>step :: 's \<Rightarrow> 'e \<Rightarrow> 's\<close> runs a list of events from left to right.
\<close>

fun run :: "('s \<Rightarrow> 'e \<Rightarrow> 's) \<Rightarrow> 's \<Rightarrow> 'e list \<Rightarrow> 's" where
  "run step s [] = s"
| "run step s (e # es) = run step (step s e) es"

section \<open>Collections of facts\<close>

named_theorems model_simps
  \<open>unfolding equations of the operations of the model\<close>
named_theorems inv_intros
  \<open>one preservation lemma per operation and invariant\<close>

section \<open>Lemmas on strings and numbers\<close>

lemma of_char_less: "(of_char c :: nat) < 256"
proof -
  have "(of_char c :: nat) mod 256 = of_char c"
    using of_char_of [of "of_char c :: nat"] by simp
  then show ?thesis by (metis mod_less_divisor zero_less_numeral)
qed

lemma unat_unit_of_char: "unat (unit_of_char c) = of_char c"
proof -
  have "(of_char c :: nat) < 65536" using of_char_less [of c] by linarith
  then show ?thesis by (simp add: unit_of_char_def unat_of_nat)
qed

lemma unit_of_char_eq [simp]: "unit_of_char a = unit_of_char b \<longleftrightarrow> a = b"
  by (metis of_char_eq_iff unat_unit_of_char)

lemma js_eq [simp]: "js a = js b \<longleftrightarrow> a = b"
proof -
  have "inj unit_of_char" by (simp add: inj_def)
  then show ?thesis by (simp add: js_def inj_map_eq_map)
qed

lemma js_Nil [simp]: "js [] = []"
  by (simp add: js_def)

lemma js_eq_Nil [simp]: "js a = [] \<longleftrightarrow> a = []" "[] = js a \<longleftrightarrow> a = []"
  by (auto simp: js_def)

lemma length_js [simp]: "length (js s) = length s"
  by (simp add: js_def)

lemma js_append: "js (a @ b) = js a @ js b"
  by (simp add: js_def)

lemma string_of_nat_neq_Nil [simp]: "string_of_nat n \<noteq> []"
  by (subst string_of_nat.simps) simp

lemma is_int_rat_of_int [simp]: "is_int_rat (of_int i)"
  by (simp add: is_int_rat_def)

lemma is_int_rat_numeral [simp]:
  "is_int_rat (numeral k)" "is_int_rat (- numeral k)" "is_int_rat 0" "is_int_rat 1"
  by (simp_all add: is_int_rat_def)

lemma is_int_ratE:
  assumes "is_int_rat q"
  obtains i where "q = of_int i"
  using assms by (metis is_int_rat_def)

lemma number_isSafeIntegerE:
  assumes "number_isSafeInteger n"
  obtains i where "n = Num (of_int i)" and "\<bar>i\<bar> \<le> 2 ^ 53 - 1"
proof (cases n)
  case (Num q)
  with assms obtain i where i: "q = of_int i" by (auto elim: is_int_ratE)
  with Num assms have "\<bar>of_int i :: rat\<bar> \<le> of_int (2 ^ 53 - 1)" by simp
  then have "\<bar>i\<bar> \<le> 2 ^ 53 - 1" by linarith
  with Num i that show ?thesis by simp
qed (use assms in auto)

lemma int_of_number_of_int [simp]: "int_of_number (Num (of_int i)) = i"
  by (simp add: int_of_number_def)

lemma bind_sum_simps [simp]: "bind_sum (Inl e) f = Inl e" "bind_sum (Inr a) f = f a"
  by (simp_all add: bind_sum_def)

lemma bind_sum_Inr: "bind_sum m f = Inr b \<longleftrightarrow> (\<exists>a. m = Inr a \<and> f a = Inr b)"
  by (cases m) auto

section \<open>Lemmas on lists\<close>

lemma run_append: "run step s (es @ fs) = run step (run step s es) fs"
  by (induction es arbitrary: s) simp_all

lemma subseq_append_snoc:
  "subseq xs ys \<Longrightarrow> subseq (xs @ [a]) (ys @ [a])"
  by (simp add: list_emb_append_mono)

lemma subseq_snoc_right: "subseq xs ys \<Longrightarrow> subseq xs (ys @ [a])"
  by (rule subseq_rev_drop_many)

lemma distinct_map_filter [simp]: "distinct (map f xs) \<Longrightarrow> distinct (map f (filter P xs))"
  by (induction xs) auto

section \<open>The contract of a run: an invariant that every step keeps\<close>

text \<open>
  An event-driven component that starts well-formed and whose every step keeps its
  invariant satisfies it after any sequence of events.
\<close>

locale stepwise_invariant =
  fixes step :: "'s \<Rightarrow> 'e \<Rightarrow> 's"
    and inv :: "'s \<Rightarrow> bool"
    and ok :: "'s \<Rightarrow> 'e \<Rightarrow> bool"
  assumes step_inv: "inv s \<Longrightarrow> ok s e \<Longrightarrow> inv (step s e)"
begin

lemma run_inv:
  assumes "inv s" and "\<And>pre e post. es = pre @ e # post \<Longrightarrow> ok (run step s pre) e"
  shows "inv (run step s es)"
  using assms
proof (induction es arbitrary: s)
  case Nil
  then show ?case by simp
next
  case (Cons e es)
  have "ok s e" using Cons.prems(2) [of "[]" e es] by simp
  with Cons.prems(1) have "inv (step s e)" by (rule step_inv)
  moreover have "ok (run step (step s e) pre) f" if "es = pre @ f # post" for pre f post
    using Cons.prems(2) [of "e # pre" f post] that by simp
  ultimately show ?case using Cons.IH by simp
qed

end

text \<open>
  The same for a step relation: every state reachable from an initial one satisfies the
  invariant.
\<close>

locale safe_transition_system =
  fixes init :: "'s \<Rightarrow> bool"
    and step :: "'s \<Rightarrow> 's \<Rightarrow> bool"
    and inv :: "'s \<Rightarrow> bool"
  assumes init_inv: "init s \<Longrightarrow> inv s"
    and step_inv: "inv s \<Longrightarrow> step s t \<Longrightarrow> inv t"
begin

lemma reachable_inv:
  assumes "init s" and "step\<^sup>*\<^sup>* s t"
  shows "inv t"
  using assms(2,1) by (induction rule: rtranclp_induct) (auto intro: init_inv step_inv)

end

end
