(* ===== verification/App_Errors.thy ===== *)
theory App_Errors
  imports Prelude
begin

text \<open>
  The errors of \<open>src/errors.ts\<close> with their status, code, message and headers, the internal
  errors that never reach a client as themselves (\<open>RequestAbortedError\<close> of
  \<open>src/cancellation.ts\<close>, \<open>CircuitOpenError\<close> of \<open>src/providers/circuit-breaker.ts\<close>,
  \<open>StreamConsumerError\<close> of \<open>src/providers/router.ts\<close>, \<open>JobProcessingError\<close> of
  \<open>src/queue/job-error.ts\<close>), the retry policy of \<open>src/providers/failure-policy.ts\<close> and
  the HTTP error handler of \<open>src/app.ts\<close>. The \<open>cause\<close> of an error is only logged and is
  left out.
\<close>

section \<open>Definitions\<close>

subsection \<open>Error values\<close>

datatype AppError =
    ProviderHttpError (provider: jstring) (upstreamStatus: int) (upstreamDetail: "jstring option")
  | ProviderConnectionError (provider: jstring)
  | ProviderResponseError (provider: jstring)
  | ProviderTimeoutError (provider: jstring) (timeoutMs: time)
  | ProviderCircuitOpenError (provider: jstring) (circuitRetryAfterMs: time)
  | ProviderStreamingUnsupportedError
  | AuthenticationError
  | ApiKeyStoreUnavailableError
  | RateLimitExceededError (retryAfterSeconds: int)
  | RateLimiterUnavailableError
  | ConcurrencyQueueFullError (fullMaxConcurrent: int) (fullMaxQueueSize: int)
  | ConcurrencyWaitTimeoutError (waitedTimeoutMs: int)
  | JobQueueUnavailableError
  | JobNotFoundError
  | IdempotencyConflictError

datatype JobErrorCode =
    PROVIDER_UNAVAILABLE | PROVIDER_TIMEOUT | PROVIDER_CIRCUIT_OPEN | PROVIDER_ERROR
  | INVALID_PROVIDER_RESPONSE | JOB_FAILED

text \<open>Everything the code throws: an \<open>AppError\<close>, or another subclass of \<open>Error\<close>.\<close>

datatype error =
    App AppError
  | RequestAbortedError
  | CircuitOpenError (openRetryAfterMs: time)
  | StreamConsumerError
  | JobProcessingError (jobErrorCode: JobErrorCode) (retryable: bool) (jobRetryAfterMs: time)
  | OtherError (otherMessage: jstring)

fun statusCode :: "AppError \<Rightarrow> int" where
  "statusCode (ProviderHttpError _ _ _) = 502"
| "statusCode (ProviderConnectionError _) = 503"
| "statusCode (ProviderResponseError _) = 502"
| "statusCode (ProviderTimeoutError _ _) = 504"
| "statusCode (ProviderCircuitOpenError _ _) = 503"
| "statusCode ProviderStreamingUnsupportedError = 501"
| "statusCode AuthenticationError = 401"
| "statusCode ApiKeyStoreUnavailableError = 503"
| "statusCode (RateLimitExceededError _) = 429"
| "statusCode RateLimiterUnavailableError = 503"
| "statusCode (ConcurrencyQueueFullError _ _) = 503"
| "statusCode (ConcurrencyWaitTimeoutError _) = 503"
| "statusCode JobQueueUnavailableError = 503"
| "statusCode JobNotFoundError = 404"
| "statusCode IdempotencyConflictError = 409"

fun code :: "AppError \<Rightarrow> string" where
  "code (ProviderHttpError _ _ _) = ''PROVIDER_ERROR''"
| "code (ProviderConnectionError _) = ''PROVIDER_UNAVAILABLE''"
| "code (ProviderResponseError _) = ''INVALID_PROVIDER_RESPONSE''"
| "code (ProviderTimeoutError _ _) = ''PROVIDER_TIMEOUT''"
| "code (ProviderCircuitOpenError _ _) = ''PROVIDER_CIRCUIT_OPEN''"
| "code ProviderStreamingUnsupportedError = ''STREAMING_UNSUPPORTED''"
| "code AuthenticationError = ''INVALID_API_KEY''"
| "code ApiKeyStoreUnavailableError = ''API_KEY_STORE_UNAVAILABLE''"
| "code (RateLimitExceededError _) = ''RATE_LIMIT_EXCEEDED''"
| "code RateLimiterUnavailableError = ''RATE_LIMITER_UNAVAILABLE''"
| "code (ConcurrencyQueueFullError _ _) = ''CONCURRENCY_QUEUE_FULL''"
| "code (ConcurrencyWaitTimeoutError _) = ''CONCURRENCY_WAIT_TIMEOUT''"
| "code JobQueueUnavailableError = ''JOB_QUEUE_UNAVAILABLE''"
| "code JobNotFoundError = ''JOB_NOT_FOUND''"
| "code IdempotencyConflictError = ''IDEMPOTENCY_CONFLICT''"

fun message :: "AppError \<Rightarrow> jstring" where
  "message (ProviderHttpError p _ _) = p @ js '' request failed''"
| "message (ProviderConnectionError p) = js ''Unable to connect to '' @ p"
| "message (ProviderResponseError p) = p @ js '' returned an invalid response''"
| "message (ProviderTimeoutError p _) = p @ js '' request timed out''"
| "message (ProviderCircuitOpenError p _) = p @ js '' circuit is temporarily open''"
| "message ProviderStreamingUnsupportedError =
     js ''The configured provider does not support streaming''"
| "message AuthenticationError = js ''Missing or invalid API key''"
| "message ApiKeyStoreUnavailableError = js ''API key service is unavailable''"
| "message (RateLimitExceededError _) = js ''Rate limit exceeded''"
| "message RateLimiterUnavailableError = js ''Rate limiter is unavailable''"
| "message (ConcurrencyQueueFullError _ _) = js ''Provider execution queue is full''"
| "message (ConcurrencyWaitTimeoutError _) = js ''Timed out waiting for provider capacity''"
| "message JobQueueUnavailableError = js ''Inference job queue is unavailable''"
| "message JobNotFoundError = js ''Job not found''"
| "message IdempotencyConflictError =
     js ''Idempotency key has already been used with a different request''"

text \<open>\<open>Math.max(1, Math.ceil(retryAfterMs / 1_000))\<close>\<close>

definition retry_after_header :: "time \<Rightarrow> int" where
  "retry_after_header ms = max 1 \<lceil>ms / 1000\<rceil>"

fun headers :: "AppError \<Rightarrow> (string \<times> jstring) list" where
  "headers (ProviderCircuitOpenError _ ms) =
     [(''retry-after'', string_of_int (retry_after_header ms))]"
| "headers AuthenticationError = [(''www-authenticate'', js ''Bearer realm=\"modelmux\"'')]"
| "headers (RateLimitExceededError s) = [(''retry-after'', string_of_int s)]"
| "headers (ConcurrencyQueueFullError _ _) = [(''retry-after'', js ''1'')]"
| "headers (ConcurrencyWaitTimeoutError _) = [(''retry-after'', js ''1'')]"
| "headers JobQueueUnavailableError = [(''retry-after'', js ''1'')]"
| "headers _ = []"

subsection \<open>Failure policy\<close>

fun isRetryableProviderError :: "error \<Rightarrow> bool" where
  "isRetryableProviderError (App (ProviderCircuitOpenError _ _)) = True"
| "isRetryableProviderError (App (ProviderConnectionError _)) = True"
| "isRetryableProviderError (App (ProviderTimeoutError _ _)) = True"
| "isRetryableProviderError (App (ProviderHttpError _ st _)) = (st = 429 \<or> st \<ge> 500)"
| "isRetryableProviderError _ = False"

subsection \<open>Cancellation\<close>

definition throwIfCancelled :: "bool \<Rightarrow> error + unit" where
  "throwIfCancelled aborted = (if aborted then Inl RequestAbortedError else Inr ())"

subsection \<open>The HTTP error handler\<close>

text \<open>
  What Fastify hands to the handler: a schema validation failure, an error thrown by the
  application, or an error of the framework with an optional status and code.
\<close>

datatype handled_error =
    ValidationError (validationContext: "jstring option")
      (validation: "(jstring \<times> jstring option) list")
  | Thrown error
  | FrameworkError (fwStatus: "int option") (fwCode: "jstring option") (fwMessage: jstring)

record error_reply =
  reply_status :: int
  reply_headers :: "(string \<times> jstring) list"
  reply_code :: jstring
  reply_message :: jstring
  reply_details :: "(jstring \<times> jstring) list option"
  reply_requestId :: jstring

definition internal_error_reply :: "jstring \<Rightarrow> error_reply" where
  "internal_error_reply rid =
     \<lparr>reply_status = 500, reply_headers = [], reply_code = js ''INTERNAL_SERVER_ERROR'',
      reply_message = js ''Internal server error'', reply_details = None,
      reply_requestId = rid\<rparr>"

definition validation_details :: "(jstring \<times> jstring option) list \<Rightarrow> (jstring \<times> jstring) list" where
  "validation_details vs =
     map (\<lambda>(path, msg).
       (if path = [] then js ''/'' else path,
        case msg of None \<Rightarrow> js ''is invalid'' | Some m \<Rightarrow> m)) vs"

fun errorHandler :: "handled_error \<Rightarrow> jstring \<Rightarrow> error_reply" where
  "errorHandler (ValidationError ctx vs) rid =
     \<lparr>reply_status = 400, reply_headers = [], reply_code = js ''VALIDATION_ERROR'',
      reply_message = js ''Invalid request '' @ (case ctx of None \<Rightarrow> js ''body'' | Some c \<Rightarrow> c),
      reply_details = Some (validation_details vs), reply_requestId = rid\<rparr>"
| "errorHandler (Thrown (App e)) rid =
     \<lparr>reply_status = statusCode e, reply_headers = headers e, reply_code = js (code e),
      reply_message = message e, reply_details = None, reply_requestId = rid\<rparr>"
| "errorHandler (FrameworkError (Some st) c msg) rid =
     (if st \<ge> 400 \<and> st < 500 then
        \<lparr>reply_status = st, reply_headers = [],
         reply_code = (case c of Some (u # us) \<Rightarrow> u # us | _ \<Rightarrow> js ''BAD_REQUEST''),
         reply_message = msg, reply_details = None, reply_requestId = rid\<rparr>
      else internal_error_reply rid)"
| "errorHandler _ rid = internal_error_reply rid"

section \<open>Lemmas\<close>

lemma retry_after_header_ge_1: "1 \<le> retry_after_header ms"
  by (simp add: retry_after_header_def)

lemma retry_after_header_covers:
  "ms \<le> 1000 * of_int (retry_after_header ms)"
proof -
  have "ms / 1000 \<le> of_int \<lceil>ms / 1000\<rceil>" by (rule le_of_int_ceiling)
  also have "\<dots> \<le> of_int (retry_after_header ms)" by (simp add: retry_after_header_def)
  finally show ?thesis by simp
qed

lemma statusCode_range: "401 \<le> statusCode e \<and> statusCode e \<le> 504"
  by (cases e) simp_all

text \<open>Only the errors of a provider call are retryable, so none of the internal ones is.\<close>

lemma retryable_cases:
  assumes "isRetryableProviderError e"
  obtains (circuit) p ms where "e = App (ProviderCircuitOpenError p ms)"
  | (connection) p where "e = App (ProviderConnectionError p)"
  | (timeout) p ms where "e = App (ProviderTimeoutError p ms)"
  | (http) p st d where "e = App (ProviderHttpError p st d)" and "st = 429 \<or> st \<ge> 500"
  using assms by (cases e rule: isRetryableProviderError.cases) auto

lemma not_retryable [simp]:
  "\<not> isRetryableProviderError RequestAbortedError"
  "\<not> isRetryableProviderError StreamConsumerError"
  "\<not> isRetryableProviderError (CircuitOpenError ms)"
  "\<not> isRetryableProviderError (OtherError m)"
  "\<not> isRetryableProviderError (JobProcessingError c r t)"
  by simp_all

end
