(* ===== verification/Circuit_Breaker.thy ===== *)
theory Circuit_Breaker
  imports App_Errors
begin

text \<open>
  The circuit breaker of \<open>src/providers/circuit-breaker.ts\<close>. A call of \<open>execute\<close> is two
  synchronous segments around the awaited operation: \<open>execute_begin\<close> (up to the call of
  \<open>operation\<close>: the rejection, or the admission with the generation it captured) and
  \<open>execute_end\<close> (from the settlement of the operation to the end). Between the two any
  number of other calls may begin and end; \<open>breaker_step\<close> is that interleaving, with the
  calls in flight as part of the state. The clock is a parameter of each segment, as it is
  an option of the constructor, and is not assumed to be monotone.
\<close>

section \<open>Definitions\<close>

datatype CircuitState = Closed | Open | HalfOpen

record breaker =
  circuitState :: CircuitState
  consecutiveFailures :: int
  openedAt :: time
  generation :: int
  failureThreshold :: int
  resetTimeoutMs :: int

record CircuitSnapshot =
  snapState :: CircuitState
  snapFailures :: int
  retryAfterMs :: time

text \<open>The constructor: both options must be positive safe integers.\<close>

definition newCircuitBreaker :: "number \<Rightarrow> number \<Rightarrow> error + breaker" where
  "newCircuitBreaker threshold reset =
     (if \<not> number_isSafeInteger threshold \<or> number_less threshold (Num 1) then
        Inl (OtherError (js ''failureThreshold must be a positive safe integer''))
      else if \<not> number_isSafeInteger reset \<or> number_less reset (Num 1) then
        Inl (OtherError (js ''resetTimeoutMs must be a positive safe integer''))
      else Inr \<lparr>circuitState = Closed, consecutiveFailures = 0, openedAt = 0, generation = 0,
                failureThreshold = int_of_number threshold,
                resetTimeoutMs = int_of_number reset\<rparr>)"

definition snapshot :: "time \<Rightarrow> breaker \<Rightarrow> CircuitSnapshot" where
  "snapshot now b =
     \<lparr>snapState = circuitState b,
      snapFailures = consecutiveFailures b,
      retryAfterMs =
        (if circuitState b = Open then max 0 (of_int (resetTimeoutMs b) - (now - openedAt b))
         else if circuitState b = HalfOpen then of_int (resetTimeoutMs b) else 0)\<rparr>"

definition recordHealthy :: "breaker \<Rightarrow> breaker" where
  "recordHealthy b =
     (let b1 = (if circuitState b = HalfOpen then b\<lparr>generation := generation b + 1\<rparr> else b)
      in b1\<lparr>circuitState := Closed, consecutiveFailures := 0\<rparr>)"

definition recordFailure :: "time \<Rightarrow> breaker \<Rightarrow> breaker" where
  "recordFailure now b =
     (let b1 = b\<lparr>consecutiveFailures := consecutiveFailures b + 1\<rparr>
      in if circuitState b1 = HalfOpen \<or> consecutiveFailures b1 \<ge> failureThreshold b1
         then b1\<lparr>circuitState := Open, openedAt := now, generation := generation b1 + 1\<rparr>
         else b1)"

text \<open>An ignored outcome releases an abandoned probe and changes nothing else.\<close>

definition recordIgnored :: "time \<Rightarrow> breaker \<Rightarrow> breaker" where
  "recordIgnored now b =
     (if circuitState b = HalfOpen
      then b\<lparr>circuitState := Open, openedAt := now - of_int (resetTimeoutMs b),
             generation := generation b + 1\<rparr>
      else b)"

definition execute_begin :: "time \<Rightarrow> breaker \<Rightarrow> error + (int \<times> breaker)" where
  "execute_begin now b =
     (let s = snapshot now b in
      if snapState s = HalfOpen \<or> retryAfterMs s > 0 then Inl (CircuitOpenError (retryAfterMs s))
      else
        let b1 = (if circuitState b = Open then b\<lparr>circuitState := HalfOpen\<rparr> else b)
        in Inr (generation b1, b1))"

fun execute_end ::
  "(error \<Rightarrow> bool) \<Rightarrow> (error \<Rightarrow> bool) \<Rightarrow> time \<Rightarrow> int \<Rightarrow> error + 'a \<Rightarrow> breaker \<Rightarrow> breaker" where
  "execute_end isFailure isIgnored now gen (Inr result) b =
     (if gen = generation b then recordHealthy b else b)"
| "execute_end isFailure isIgnored now gen (Inl e) b =
     (if gen = generation b then
        if isIgnored e then recordIgnored now b
        else if isFailure e then recordFailure now b
        else recordHealthy b
      else b)"

text \<open>
  A whole call: \<open>others\<close> is what the other calls do to the breaker while the operation is
  awaited, and \<open>r\<close> is how the operation settles.
\<close>

definition execute ::
  "(error \<Rightarrow> bool) \<Rightarrow> (error \<Rightarrow> bool) \<Rightarrow> time \<Rightarrow> time \<Rightarrow> (breaker \<Rightarrow> breaker) \<Rightarrow> error + 'a \<Rightarrow>
   breaker \<Rightarrow> (error + 'a) \<times> breaker" where
  "execute isFailure isIgnored started settled others r b =
     (case execute_begin started b of
        Inl e \<Rightarrow> (Inl e, b)
      | Inr (gen, b1) \<Rightarrow> (r, execute_end isFailure isIgnored settled gen r (others b1)))"

subsection \<open>Concurrent calls\<close>

text \<open>
  The breaker together with the calls in flight, each with the generation it captured.
\<close>

record 'c breaker_system =
  sys_breaker :: breaker
  sys_calls :: "'c \<rightharpoonup> int"

definition breaker_init :: "'c breaker_system \<Rightarrow> bool" where
  "breaker_init s \<longleftrightarrow>
     (\<exists>threshold reset. newCircuitBreaker threshold reset = Inr (sys_breaker s)) \<and>
     sys_calls s = Map.empty"

inductive breaker_step ::
  "(error \<Rightarrow> bool) \<Rightarrow> (error \<Rightarrow> bool) \<Rightarrow> 'c breaker_system \<Rightarrow> 'c breaker_system \<Rightarrow> bool"
  for isFailure isIgnored where
  admit: "execute_begin now (sys_breaker s) = Inr (g, b) \<Longrightarrow> sys_calls s c = None \<Longrightarrow>
    breaker_step isFailure isIgnored s \<lparr>sys_breaker = b, sys_calls = (sys_calls s)(c \<mapsto> g)\<rparr>"
| settle: "sys_calls s c = Some g \<Longrightarrow>
    breaker_step isFailure isIgnored s
      \<lparr>sys_breaker = execute_end isFailure isIgnored now g (r :: error + unit) (sys_breaker s),
       sys_calls = (sys_calls s)(c := None)\<rparr>"

text \<open>A call in flight is live when its outcome would still be recorded.\<close>

definition live_calls :: "'c breaker_system \<Rightarrow> 'c set" where
  "live_calls s = {c. sys_calls s c = Some (generation (sys_breaker s))}"

subsection \<open>Specification: a breaker without generations\<close>

text \<open>
  What the breaker promises: the calls whose outcome counts are a set; opening or closing
  the circuit forgets them, and the outcome of a forgotten call changes nothing.
\<close>

datatype abs_state = AClosed int | AOpen int time | AHalf int

type_synonym 'c abs_breaker = "abs_state \<times> 'c set"

fun spec_admit :: "int \<Rightarrow> time \<Rightarrow> 'c \<Rightarrow> 'c abs_breaker \<Rightarrow> 'c abs_breaker option" where
  "spec_admit reset now c (AClosed n, L) = Some (AClosed n, insert c L)"
| "spec_admit reset now c (AOpen n t, L) =
     (if now - t \<ge> of_int reset then Some (AHalf n, {c}) else None)"
| "spec_admit reset now c (AHalf n, L) = None"

datatype verdict = Healthy | Failing | Ignored

fun spec_settle :: "int \<Rightarrow> int \<Rightarrow> time \<Rightarrow> 'c \<Rightarrow> verdict \<Rightarrow> 'c abs_breaker \<Rightarrow> 'c abs_breaker" where
  "spec_settle threshold reset now c v (st, L) =
     (if c \<notin> L then (st, L)
      else case (st, v) of
        (AClosed n, Healthy) \<Rightarrow> (AClosed 0, L - {c})
      | (AClosed n, Failing) \<Rightarrow>
          if n + 1 \<ge> threshold then (AOpen (n + 1) now, {}) else (AClosed (n + 1), L - {c})
      | (AClosed n, Ignored) \<Rightarrow> (AClosed n, L - {c})
      | (AHalf n, Healthy) \<Rightarrow> (AClosed 0, {})
      | (AHalf n, Failing) \<Rightarrow> (AOpen (n + 1) now, {})
      | (AHalf n, Ignored) \<Rightarrow> (AOpen n (now - of_int reset), {})
      | (AOpen n t, _) \<Rightarrow> (AOpen n t, L - {c}))"

definition abs_breaker :: "'c breaker_system \<Rightarrow> 'c abs_breaker" where
  "abs_breaker s =
     (case circuitState (sys_breaker s) of
        Closed \<Rightarrow> AClosed (consecutiveFailures (sys_breaker s))
      | Open \<Rightarrow> AOpen (consecutiveFailures (sys_breaker s)) (openedAt (sys_breaker s))
      | HalfOpen \<Rightarrow> AHalf (consecutiveFailures (sys_breaker s)),
      live_calls s)"

fun verdict_of :: "(error \<Rightarrow> bool) \<Rightarrow> (error \<Rightarrow> bool) \<Rightarrow> error + 'a \<Rightarrow> verdict" where
  "verdict_of isFailure isIgnored (Inr _) = Healthy"
| "verdict_of isFailure isIgnored (Inl e) =
     (if isIgnored e then Ignored else if isFailure e then Failing else Healthy)"

subsection \<open>Invariants\<close>

definition breaker_wf :: "breaker \<Rightarrow> bool" where
  "breaker_wf b \<longleftrightarrow>
     failureThreshold b \<ge> 1 \<and> resetTimeoutMs b \<ge> 1 \<and> consecutiveFailures b \<ge> 0 \<and>
     (circuitState b = Closed \<longrightarrow> consecutiveFailures b < failureThreshold b)"

definition breaker_inv :: "'c breaker_system \<Rightarrow> bool" where
  "breaker_inv s \<longleftrightarrow>
     breaker_wf (sys_breaker s) \<and>
     (\<forall>c g. sys_calls s c = Some g \<longrightarrow> g \<le> generation (sys_breaker s)) \<and>
     (circuitState (sys_breaker s) = Open \<longrightarrow> live_calls s = {}) \<and>
     (circuitState (sys_breaker s) = HalfOpen \<longrightarrow> (\<exists>c. live_calls s = {c}))"

section \<open>Lemmas\<close>

lemmas breaker_defs [model_simps] =
  snapshot_def recordHealthy_def recordFailure_def recordIgnored_def execute_begin_def Let_def

subsection \<open>Single operations\<close>

lemma newCircuitBreaker_wf:
  assumes "newCircuitBreaker threshold reset = Inr b"
  shows "breaker_wf b" and "circuitState b = Closed" and "generation b = 0"
proof -
  from assms obtain i j where "threshold = Num (of_int i)" "reset = Num (of_int j)"
    by (auto simp: newCircuitBreaker_def split: if_splits elim!: number_isSafeIntegerE)
  with assms show "breaker_wf b" and "circuitState b = Closed" and "generation b = 0"
    by (auto simp: newCircuitBreaker_def breaker_wf_def split: if_splits)
qed

text \<open>The outcome of an attempt, state by state.\<close>

lemma execute_begin_Closed:
  "circuitState b = Closed \<Longrightarrow> execute_begin now b = Inr (generation b, b)"
  by (simp add: breaker_defs)

lemma execute_begin_HalfOpen:
  "circuitState b = HalfOpen \<Longrightarrow>
     execute_begin now b = Inl (CircuitOpenError (of_int (resetTimeoutMs b)))"
  by (simp add: breaker_defs)

lemma execute_begin_Open:
  "circuitState b = Open \<Longrightarrow>
     execute_begin now b =
       (if now - openedAt b \<ge> of_int (resetTimeoutMs b)
        then Inr (generation b, b\<lparr>circuitState := HalfOpen\<rparr>)
        else Inl (CircuitOpenError (of_int (resetTimeoutMs b) - (now - openedAt b))))"
  by (auto simp: breaker_defs max_def)

lemmas execute_begin_state_simps =
  execute_begin_Closed execute_begin_HalfOpen execute_begin_Open

lemma execute_begin_InrE:
  assumes "execute_begin now b = Inr (g, b')"
  obtains (closed) "circuitState b = Closed" "g = generation b" "b' = b"
  | (probe) "circuitState b = Open" "now - openedAt b \<ge> of_int (resetTimeoutMs b)"
      "g = generation b" "b' = b\<lparr>circuitState := HalfOpen\<rparr>"
proof (cases "circuitState b")
  case Closed
  with assms show ?thesis by (intro closed) (auto simp: execute_begin_Closed)
next
  case Open
  with assms show ?thesis
    by (intro probe) (auto simp: execute_begin_Open split: if_splits)
next
  case HalfOpen
  with assms show ?thesis by (simp add: execute_begin_HalfOpen)
qed

lemma execute_begin_wf [inv_intros]:
  assumes "breaker_wf b" and "execute_begin now b = Inr (g, b')"
  shows "breaker_wf b'"
  using assms(2,1) by (elim execute_begin_InrE) (auto simp: breaker_wf_def)

lemma execute_end_wf [inv_intros]:
  assumes "breaker_wf b"
  shows "breaker_wf (execute_end isFailure isIgnored now g r b)"
  using assms
  by (cases r) (auto simp: breaker_wf_def recordHealthy_def recordFailure_def recordIgnored_def Let_def)

lemma execute_end_stale [simp]:
  "g \<noteq> generation b \<Longrightarrow> execute_end isFailure isIgnored now g r b = b"
  by (cases r) simp_all

text \<open>
  What an outcome does to the circuit: the transition function of the specification, with
  every change of state counted by the generation.
\<close>

definition outcome_transition :: "verdict \<Rightarrow> time \<Rightarrow> breaker \<Rightarrow> breaker" where
  "outcome_transition v now b =
     (case v of Healthy \<Rightarrow> recordHealthy b | Failing \<Rightarrow> recordFailure now b
      | Ignored \<Rightarrow> recordIgnored now b)"

lemma execute_end_verdict:
  "execute_end isFailure isIgnored now g r b =
     (if g = generation b then outcome_transition (verdict_of isFailure isIgnored r) now b else b)"
  by (cases r) (auto simp: outcome_transition_def)


lemma outcome_transition_generation:
  "generation (outcome_transition v now b) = generation b \<or>
   generation (outcome_transition v now b) = generation b + 1"
  by (cases v)
    (auto simp: outcome_transition_def recordHealthy_def recordFailure_def recordIgnored_def Let_def)

lemma outcome_transition_frame [simp]:
  "failureThreshold (outcome_transition v now b) = failureThreshold b"
  "resetTimeoutMs (outcome_transition v now b) = resetTimeoutMs b"
  by (cases v;
      auto simp: outcome_transition_def recordHealthy_def recordFailure_def recordIgnored_def Let_def)+

subsection \<open>Refinement\<close>

lemma breaker_invD:
  assumes "breaker_inv s"
  shows "breaker_wf (sys_breaker s)"
    and "sys_calls s c = Some g \<Longrightarrow> g \<le> generation (sys_breaker s)"
    and "circuitState (sys_breaker s) = Open \<Longrightarrow> live_calls s = {}"
    and "circuitState (sys_breaker s) = HalfOpen \<Longrightarrow> \<exists>c. live_calls s = {c}"
  using assms by (simp_all add: breaker_inv_def)

lemma live_calls_admit:
  "generation b = generation (sys_breaker s) \<Longrightarrow>
   live_calls \<lparr>sys_breaker = b, sys_calls = (sys_calls s)(c \<mapsto> generation (sys_breaker s))\<rparr>
     = insert c (live_calls s)"
  by (auto simp: live_calls_def)

lemma live_calls_settle:
  assumes "breaker_inv s"
    and "generation b = generation (sys_breaker s) \<or> generation b = generation (sys_breaker s) + 1"
  shows "live_calls \<lparr>sys_breaker = b, sys_calls = (sys_calls s)(c := None)\<rparr>
    = (if generation b = generation (sys_breaker s) then live_calls s - {c} else {})"
proof -
  have "sys_calls s d \<noteq> Some (generation (sys_breaker s) + 1)" for d
    using breaker_invD(2) [OF assms(1), of d "generation (sys_breaker s) + 1"] by auto
  with assms(2) show ?thesis by (auto simp: live_calls_def)
qed

text \<open>
  The breaker refines the specification: an admission is a \<open>spec_admit\<close>, a rejection is a
  \<open>spec_admit\<close> that is refused, a settlement is a \<open>spec_settle\<close>.
\<close>

lemma abs_breaker_admit:
  assumes "breaker_inv s" and "execute_begin now (sys_breaker s) = Inr (g, b)"
  shows "spec_admit (resetTimeoutMs (sys_breaker s)) now c (abs_breaker s)
    = Some (abs_breaker \<lparr>sys_breaker = b, sys_calls = (sys_calls s)(c \<mapsto> g)\<rparr>)"
  using assms(2)
proof (cases rule: execute_begin_InrE)
  case closed
  then show ?thesis by (simp add: abs_breaker_def live_calls_admit)
next
  case probe
  with breaker_invD(3) [OF assms(1)] show ?thesis
    by (simp add: abs_breaker_def live_calls_admit)
qed

lemma abs_breaker_reject:
  assumes "execute_begin now (sys_breaker s) = Inl e"
  shows "spec_admit (resetTimeoutMs (sys_breaker s)) now c (abs_breaker s) = None"
  using assms
  by (cases "circuitState (sys_breaker s)")
    (auto simp: abs_breaker_def execute_begin_state_simps split: if_splits)

lemma abs_breaker_settle:
  assumes "breaker_inv s" and "sys_calls s c = Some g"
  shows "abs_breaker
      \<lparr>sys_breaker = execute_end isFailure isIgnored now g r (sys_breaker s),
       sys_calls = (sys_calls s)(c := None)\<rparr>
    = spec_settle (failureThreshold (sys_breaker s)) (resetTimeoutMs (sys_breaker s)) now c
        (verdict_of isFailure isIgnored r) (abs_breaker s)"
proof (cases "g = generation (sys_breaker s)")
  case False
  with assms show ?thesis
    by (simp add: abs_breaker_def live_calls_settle split: CircuitState.split)
      (simp add: live_calls_def)
next
  case True
  let ?b = "sys_breaker s" and ?v = "verdict_of isFailure isIgnored r"
  let ?b' = "outcome_transition ?v now ?b"
  have live: "c \<in> live_calls s" using True assms(2) by (simp add: live_calls_def)
  have "live_calls \<lparr>sys_breaker = ?b', sys_calls = (sys_calls s)(c := None)\<rparr>
      = (if generation ?b' = generation ?b then live_calls s - {c} else {})"
    using assms(1) outcome_transition_generation by (rule live_calls_settle)
  with True live breaker_invD(3) [OF assms(1)] show ?thesis
    by (cases "circuitState ?b"; cases ?v)
      (auto simp: abs_breaker_def execute_end_verdict outcome_transition_def
        recordHealthy_def recordFailure_def recordIgnored_def Let_def)
qed

subsection \<open>Every reachable state satisfies the invariant\<close>

lemma breaker_init_inv: "breaker_init s \<Longrightarrow> breaker_inv s"
  by (auto simp: breaker_init_def breaker_inv_def live_calls_def dest: newCircuitBreaker_wf)

text \<open>The part of the invariant on live calls is a property of the specification's state.\<close>

fun spec_inv :: "'c abs_breaker \<Rightarrow> bool" where
  "spec_inv (AClosed n, L) = True"
| "spec_inv (AOpen n t, L) = (L = {})"
| "spec_inv (AHalf n, L) = (\<exists>c. L = {c})"

lemma spec_admit_inv [inv_intros]: "spec_inv a \<Longrightarrow> spec_admit reset now c a = Some a' \<Longrightarrow> spec_inv a'"
  by (cases "(reset, now, c, a)" rule: spec_admit.cases) (auto split: if_splits)

lemma spec_settle_inv [inv_intros]: "spec_inv a \<Longrightarrow> spec_inv (spec_settle threshold reset now c v a)"
  by (cases a; cases "fst a"; cases v) auto

lemma breaker_inv_alt:
  "breaker_inv s \<longleftrightarrow>
     breaker_wf (sys_breaker s) \<and>
     (\<forall>c g. sys_calls s c = Some g \<longrightarrow> g \<le> generation (sys_breaker s)) \<and>
     spec_inv (abs_breaker s)"
  by (cases "circuitState (sys_breaker s)") (auto simp: breaker_inv_def abs_breaker_def)

lemma breaker_step_inv:
  assumes inv: "breaker_inv s" and "breaker_step isFailure isIgnored s t"
  shows "breaker_inv t"
  using assms(2)
proof cases
  case (admit now g b c)
  have "g = generation (sys_breaker s)" "generation b = generation (sys_breaker s)"
    using admit(2) by (auto elim: execute_begin_InrE)
  moreover have "spec_inv (abs_breaker t)"
    unfolding admit(1)
    by (rule spec_admit_inv [OF _ abs_breaker_admit [OF inv admit(2)]])
      (use inv in \<open>simp add: breaker_inv_alt\<close>)
  ultimately show ?thesis
    using inv admit by (auto simp: breaker_inv_alt intro: inv_intros)
next
  case (settle c g now r)
  let ?b = "sys_breaker s"
  have "generation ?b \<le> generation (execute_end isFailure isIgnored now g r ?b)"
    using outcome_transition_generation [of "verdict_of isFailure isIgnored r" now ?b]
    by (auto simp: execute_end_verdict)
  moreover have "spec_inv (abs_breaker t)"
    unfolding settle(1) abs_breaker_settle [OF inv settle(2)]
    by (rule spec_settle_inv) (use inv in \<open>simp add: breaker_inv_alt\<close>)
  ultimately show ?thesis
    using inv settle by (fastforce simp: breaker_inv_alt intro: inv_intros split: if_splits)
qed

interpretation breaker_sys: safe_transition_system
  breaker_init "breaker_step isFailure isIgnored" breaker_inv
  for isFailure isIgnored
  by unfold_locales (fact breaker_init_inv, fact breaker_step_inv)

subsection \<open>A run that opens the circuit and starts a probe\<close>

text \<open>One failing call opens a circuit of threshold 1; the next one after the cooldown probes.\<close>

definition demo_breaker :: breaker where
  "demo_breaker = \<lparr>circuitState = Closed, consecutiveFailures = 0, openedAt = 0, generation = 0,
     failureThreshold = 1, resetTimeoutMs = 1000\<rparr>"

definition demo_error :: error where
  "demo_error = App (ProviderConnectionError (js ''Ollama''))"

definition demo_closed :: "nat breaker_system" where
  "demo_closed = \<lparr>sys_breaker = demo_breaker, sys_calls = Map.empty\<rparr>"

definition demo_busy :: "nat breaker_system" where
  "demo_busy = \<lparr>sys_breaker = demo_breaker, sys_calls = [0 \<mapsto> 0, 1 \<mapsto> 0]\<rparr>"

definition demo_open :: "nat breaker_system" where
  "demo_open = \<lparr>sys_breaker = demo_breaker\<lparr>circuitState := Open, consecutiveFailures := 1,
       openedAt := 5, generation := 1\<rparr>, sys_calls = [0 \<mapsto> 0]\<rparr>"

definition demo_half :: "nat breaker_system" where
  "demo_half = \<lparr>sys_breaker = demo_breaker\<lparr>circuitState := HalfOpen, consecutiveFailures := 1,
       openedAt := 5, generation := 1\<rparr>, sys_calls = [0 \<mapsto> 0, 2 \<mapsto> 1]\<rparr>"

abbreviation demo_step :: "nat breaker_system \<Rightarrow> nat breaker_system \<Rightarrow> bool" where
  "demo_step \<equiv> breaker_step isRetryableProviderError (\<lambda>e. e = RequestAbortedError)"

lemmas demo_defs = demo_breaker_def demo_error_def demo_closed_def demo_busy_def demo_open_def
  demo_half_def

lemma demo_init: "breaker_init demo_closed"
proof -
  have "newCircuitBreaker (Num 1) (Num 1000) = Inr demo_breaker"
    by (simp add: newCircuitBreaker_def demo_breaker_def int_of_number_def)
  then show ?thesis by (auto simp: breaker_init_def demo_closed_def)
qed

lemma demo_reach_busy: "demo_step\<^sup>*\<^sup>* demo_closed demo_busy"
proof -
  have "demo_step demo_closed (demo_closed\<lparr>sys_calls := [0 \<mapsto> 0]\<rparr>)"
    using breaker_step.admit [of 0 demo_closed 0 demo_breaker 0]
    by (simp add: demo_defs breaker_defs)
  moreover have "demo_step (demo_closed\<lparr>sys_calls := [0 \<mapsto> 0]\<rparr>) demo_busy"
    using breaker_step.admit [of 0 "demo_closed\<lparr>sys_calls := [0 \<mapsto> 0]\<rparr>" 0 demo_breaker 1]
    by (simp add: demo_defs breaker_defs)
  ultimately show ?thesis by auto
qed

lemma demo_reach_open: "demo_step\<^sup>*\<^sup>* demo_closed demo_open"
proof -
  have "demo_step demo_busy demo_open"
    using breaker_step.settle [of demo_busy 1 0 isRetryableProviderError
        "\<lambda>e. e = RequestAbortedError" 5 "Inl demo_error"]
    by (simp add: demo_defs breaker_defs fun_upd_twist)
  with demo_reach_busy show ?thesis by (rule rtranclp.rtrancl_into_rtrancl)
qed

lemma demo_reach_half: "demo_step\<^sup>*\<^sup>* demo_closed demo_half"
proof -
  have "demo_step demo_open demo_half"
    using breaker_step.admit [of 1005 demo_open 1 "sys_breaker demo_half" 2]
    by (simp add: demo_defs breaker_defs)
  with demo_reach_open show ?thesis by (rule rtranclp.rtrancl_into_rtrancl)
qed

subsection \<open>Consecutive calls\<close>

text \<open>Calls made one after the other that all fail with the same error.\<close>

definition failing_call ::
  "(error \<Rightarrow> bool) \<Rightarrow> (error \<Rightarrow> bool) \<Rightarrow> error \<Rightarrow> breaker \<Rightarrow> time \<Rightarrow> breaker" where
  "failing_call isFailure isIgnored e b t =
     snd (execute isFailure isIgnored t t id (Inl e :: error + unit) b)"

lemma failing_call_Closed:
  assumes "circuitState b = Closed" and "isFailure e" and "\<not> isIgnored e"
  shows "failing_call isFailure isIgnored e b t = recordFailure t b"
  using assms by (simp add: failing_call_def execute_def execute_begin_Closed)

lemma failing_calls_below_threshold:
  assumes "isFailure e" and "\<not> isIgnored e" and "circuitState b = Closed"
    and "consecutiveFailures b + int (length ts) < failureThreshold b"
  shows "run (failing_call isFailure isIgnored e) b ts =
    b\<lparr>consecutiveFailures := consecutiveFailures b + int (length ts)\<rparr>"
  using assms(3,4)
proof (induction ts arbitrary: b)
  case Nil
  then show ?case by simp
next
  case (Cons t ts)
  let ?b = "b\<lparr>consecutiveFailures := consecutiveFailures b + 1\<rparr>"
  have "failing_call isFailure isIgnored e b t = ?b"
    using Cons.prems assms(1,2) by (simp add: failing_call_Closed recordFailure_def Let_def)
  moreover have "run (failing_call isFailure isIgnored e) ?b ts =
      ?b\<lparr>consecutiveFailures := consecutiveFailures ?b + int (length ts)\<rparr>"
    using Cons.prems by (intro Cons.IH) simp_all
  ultimately show ?case by (simp add: algebra_simps)
qed

section \<open>Properties\<close>

text \<open>
  C3: the breaker implements the specification without generations. In every state reachable
  by interleaved calls, an admission is the specification's admission, a rejection happens
  exactly when the specification refuses, and a settled call moves the circuit as the
  specification says for that outcome, ignoring the calls that are no longer live.
\<close>

theorem breaker_refines_spec:
  assumes "breaker_init s0" and "(breaker_step isFailure isIgnored)\<^sup>*\<^sup>* s0 s"
  shows "(\<forall>now c g b. execute_begin now (sys_breaker s) = Inr (g, b) \<longrightarrow>
           spec_admit (resetTimeoutMs (sys_breaker s)) now c (abs_breaker s)
             = Some (abs_breaker \<lparr>sys_breaker = b, sys_calls = (sys_calls s)(c \<mapsto> g)\<rparr>)) \<and>
         (\<forall>now c e. execute_begin now (sys_breaker s) = Inl e \<longrightarrow>
           spec_admit (resetTimeoutMs (sys_breaker s)) now c (abs_breaker s) = None) \<and>
         (\<forall>now c g (r :: error + unit). sys_calls s c = Some g \<longrightarrow>
           abs_breaker
             \<lparr>sys_breaker = execute_end isFailure isIgnored now g r (sys_breaker s),
              sys_calls = (sys_calls s)(c := None)\<rparr>
           = spec_settle (failureThreshold (sys_breaker s)) (resetTimeoutMs (sys_breaker s)) now c
               (verdict_of isFailure isIgnored r) (abs_breaker s))"
  using breaker_sys.reachable_inv [OF assms]
  by (blast intro: abs_breaker_admit abs_breaker_reject abs_breaker_settle)

theorem breaker_refines_spec_witness:
  "abs_breaker
     \<lparr>sys_breaker = execute_end isRetryableProviderError (\<lambda>e. e = RequestAbortedError) 2000 1
        (Inl demo_error :: error + unit) (sys_breaker demo_half),
      sys_calls = (sys_calls demo_half)(2 := None)\<rparr> =
   spec_settle 1 1000 2000 2 Failing (abs_breaker demo_half)"
  using breaker_refines_spec [OF demo_init demo_reach_half, THEN conjunct2, THEN conjunct2,
      rule_format, of 2 1 2000 "Inl demo_error"]
  by (simp add: demo_defs)

text \<open>
  C12: recovery uses one request as a probe. In every reachable state of concurrent calls, a
  half-open circuit has exactly one call in flight whose outcome counts and rejects every
  other call with the cooldown as the hint, and no call of an open circuit counts.
\<close>

theorem breaker_single_probe:
  assumes "breaker_init s0" and "(breaker_step isFailure isIgnored)\<^sup>*\<^sup>* s0 s"
  shows "(circuitState (sys_breaker s) = HalfOpen \<longrightarrow>
           (\<exists>!c. sys_calls s c = Some (generation (sys_breaker s))) \<and>
           (\<forall>now. execute_begin now (sys_breaker s)
              = Inl (CircuitOpenError (of_int (resetTimeoutMs (sys_breaker s)))))) \<and>
         (circuitState (sys_breaker s) = Open \<longrightarrow>
           (\<forall>c. sys_calls s c \<noteq> Some (generation (sys_breaker s))))"
proof -
  have inv: "breaker_inv s" using assms by (rule breaker_sys.reachable_inv)
  have "\<exists>!c. sys_calls s c = Some (generation (sys_breaker s))"
    if "circuitState (sys_breaker s) = HalfOpen"
    using breaker_invD(4) [OF inv that] by (simp add: live_calls_def set_eq_iff) metis
  moreover have "sys_calls s c \<noteq> Some (generation (sys_breaker s))"
    if "circuitState (sys_breaker s) = Open" for c
    using breaker_invD(3) [OF inv that] by (auto simp: live_calls_def)
  ultimately show ?thesis by (simp add: execute_begin_HalfOpen)
qed

theorem breaker_single_probe_witness:
  "(\<exists>!c. sys_calls demo_half c = Some 1) \<and>
   execute_begin 7000 (sys_breaker demo_half) = Inl (CircuitOpenError 1000)"
  using breaker_single_probe [OF demo_init demo_reach_half] by (simp add: demo_defs)

text \<open>
  calls admitted before the circuit opened cannot change it. In every reachable state
  with an open circuit, however a call in flight settles, the breaker is left as it is.
\<close>

theorem breaker_late_outcomes_ignored:
  assumes "breaker_init s0" and "(breaker_step isFailure isIgnored)\<^sup>*\<^sup>* s0 s"
    and "circuitState (sys_breaker s) = Open" and "sys_calls s c = Some g"
  shows "execute_end isFailure isIgnored now g r (sys_breaker s) = sys_breaker s"
proof -
  have "breaker_inv s" using assms(1,2) by (rule breaker_sys.reachable_inv)
  then have "live_calls s = {}" using assms(3) by (rule breaker_invD)
  with assms(4) have "g \<noteq> generation (sys_breaker s)" by (auto simp: live_calls_def)
  then show ?thesis by simp
qed

theorem breaker_late_outcomes_ignored_witness:
  "execute_end isRetryableProviderError (\<lambda>e. e = RequestAbortedError) 9 0 (Inr ())
     (sys_breaker demo_open) = sys_breaker demo_open"
  by (rule breaker_late_outcomes_ignored [OF demo_init demo_reach_open, of 0])
    (simp_all add: demo_defs)

text \<open>
  a closed circuit opens after exactly \<open>failureThreshold\<close> consecutive transient
  failures. From a new breaker, fewer failing calls leave it closed with their count, and
  the call that reaches the threshold opens it at that moment and starts a new generation.
\<close>

theorem breaker_opens_at_threshold:
  assumes "newCircuitBreaker threshold reset = Inr b"
    and "isFailure e" and "\<not> isIgnored e"
    and "int (length ts) + 1 = failureThreshold b"
  shows "(\<forall>k \<le> length ts. run (failing_call isFailure isIgnored e) b (take k ts)
            = b\<lparr>consecutiveFailures := int k\<rparr>) \<and>
         run (failing_call isFailure isIgnored e) b (ts @ [t])
            = b\<lparr>circuitState := Open, consecutiveFailures := failureThreshold b,
                openedAt := t, generation := 1\<rparr>"
proof -
  have b: "circuitState b = Closed" "consecutiveFailures b = 0" "generation b = 0"
    using newCircuitBreaker_wf [OF assms(1)] assms(1)
    by (auto simp: newCircuitBreaker_def split: if_splits)
  have upto: "run (failing_call isFailure isIgnored e) b (take k ts) = b\<lparr>consecutiveFailures := int k\<rparr>"
    if "k \<le> length ts" for k
    using failing_calls_below_threshold [of isFailure e isIgnored b "take k ts"] that assms(2-4) b
    by simp
  have "run (failing_call isFailure isIgnored e) b (ts @ [t])
      = failing_call isFailure isIgnored e (b\<lparr>consecutiveFailures := int (length ts)\<rparr>) t"
    using upto [of "length ts"] by (simp add: run_append)
  also have "\<dots> = recordFailure t (b\<lparr>consecutiveFailures := int (length ts)\<rparr>)"
    using b(1) assms(2,3) by (simp add: failing_call_Closed)
  also have "\<dots> = b\<lparr>circuitState := Open, consecutiveFailures := failureThreshold b,
                openedAt := t, generation := 1\<rparr>"
    using assms(4) b(3) by (simp add: recordFailure_def Let_def)
  finally show ?thesis using upto by simp
qed

theorem breaker_opens_at_threshold_witness:
  "run (failing_call isRetryableProviderError (\<lambda>e. False) demo_error) demo_breaker [7]
     = demo_breaker\<lparr>circuitState := Open, consecutiveFailures := 1, openedAt := 7, generation := 1\<rparr>"
proof -
  have "newCircuitBreaker (Num 1) (Num 1000) = Inr demo_breaker"
    by (simp add: newCircuitBreaker_def demo_breaker_def int_of_number_def)
  from breaker_opens_at_threshold [OF this, of isRetryableProviderError demo_error "\<lambda>e. False" "[]" 7]
  show ?thesis by (simp add: demo_defs)
qed

text \<open>
  an open circuit skips calls for the whole cooldown and for no longer. A call is
  admitted, as the probe, exactly when \<open>resetTimeoutMs\<close> have passed since the circuit
  opened; before that it is rejected with the positive time that remains, which is what the
  snapshot reports.
\<close>

theorem breaker_cooldown:
  assumes "circuitState b = Open"
  shows "(of_int (resetTimeoutMs b) \<le> now - openedAt b \<longrightarrow>
            execute_begin now b = Inr (generation b, b\<lparr>circuitState := HalfOpen\<rparr>) \<and>
            retryAfterMs (snapshot now b) = 0) \<and>
         (now - openedAt b < of_int (resetTimeoutMs b) \<longrightarrow>
            (\<exists>left > 0. now + left = openedAt b + of_int (resetTimeoutMs b) \<and>
               execute_begin now b = Inl (CircuitOpenError left) \<and>
               retryAfterMs (snapshot now b) = left))"
  using assms by (auto simp: execute_begin_Open snapshot_def max_def)

theorem breaker_cooldown_witness:
  "execute_begin 500 (sys_breaker demo_open) = Inl (CircuitOpenError 505)"
  using breaker_cooldown [of "sys_breaker demo_open" 500] by (auto simp: demo_defs)

text \<open>
  a recovery probe always ends. However the probe settles, the circuit leaves the
  half-open state: a success or a permanent error closes it with no failures counted, a
  transient failure starts a fresh cooldown, and an ignored outcome lets the very next call
  probe again without resetting the failure count.
\<close>

theorem probe_resolves:
  assumes "circuitState b = HalfOpen" and "gen = generation b"
  shows "let b' = execute_end isFailure isIgnored now gen r b in
    (case verdict_of isFailure isIgnored r of
       Healthy \<Rightarrow> circuitState b' = Closed \<and> consecutiveFailures b' = 0
     | Failing \<Rightarrow> circuitState b' = Open \<and> openedAt b' = now \<and>
                  consecutiveFailures b' = consecutiveFailures b + 1
     | Ignored \<Rightarrow> circuitState b' = Open \<and> consecutiveFailures b' = consecutiveFailures b \<and>
                  (\<forall>later \<ge> now. \<exists>b''. execute_begin later b' = Inr (generation b', b'') \<and>
                     circuitState b'' = HalfOpen))"
  using assms
  by (cases r)
    (auto simp: recordHealthy_def recordFailure_def recordIgnored_def execute_begin_Open Let_def)

theorem probe_resolves_witness:
  "circuitState (execute_end isRetryableProviderError (\<lambda>e. e = RequestAbortedError) 1500 1
      (Inl RequestAbortedError :: error + unit) (sys_breaker demo_half)) = Open"
  using probe_resolves [of "sys_breaker demo_half" 1 isRetryableProviderError
      "\<lambda>e. e = RequestAbortedError" 1500 "Inl RequestAbortedError :: error + unit"]
  by (simp add: demo_defs Let_def)

end
