(* ===== verification/Chat_Types.thy ===== *)
theory Chat_Types
  imports Prelude
begin

text \<open>
  The chat data of \<open>src/types/chat.ts\<close> that the router, the adapters, the cache and the jobs
  exchange. An answer always has the role \<open>assistant\<close>, so it is just its content.
\<close>

datatype ChatRole = SystemRole | UserRole | AssistantRole

record ChatMessage =
  role :: ChatRole
  content :: jstring

record ChatRequest =
  model :: jstring
  messages :: "ChatMessage list"

record ChatResponse =
  answer :: jstring

end
