(* ===== verification/Telemetry.thy ===== *)
theory Telemetry
  imports Prelude
begin

text \<open>
  The metric events of \<open>src/observability/telemetry.ts\<close> and the best-effort recorder
  \<open>recordMetric\<close>. The other components return the events they emit, in order, beside
  their state and result; no component reads a metric back.
\<close>

section \<open>Definitions\<close>

datatype CacheStatus = HIT | MISS | BYPASS

datatype ProviderOutcome =
  ProviderSuccess | TransientError | PermanentError | ProviderCancelled | ConsumerError

datatype JobOutcome = JobSuccess | JobRetrying | JobFailed | JobObsolete | InfrastructureError

datatype StreamOutcome = StreamCompleted | StreamFailed | StreamCancelled

datatype AdmissionOutcome = Admitted | QueueFull | AdmissionTimeout | AdmissionCancelled

datatype HttpOutcome = HttpCompleted | HttpAborted

datatype CallMode = ModeChat | ModeStream

datatype MetricEvent =
    HttpStart
  | HttpEnd (httpMethod: jstring) (httpRoute: jstring) (httpStatus: "int option")
      (httpOutcome: HttpOutcome) (httpDurationMs: time)
  | RateLimitRejection
  | CacheLookup CacheStatus
  | StreamEnd StreamOutcome
  | Admission AdmissionOutcome time
  | ProviderStart jstring CallMode
  | ProviderEnd jstring CallMode ProviderOutcome time
  | CircuitRejection jstring CallMode
  | Fallback (fallbackFrom: jstring) (fallbackTo: jstring)
  | JobStart (jobRetry: bool) (jobQueueWaitTimeMs: "time option")
  | JobEnd JobOutcome time

text \<open>
  A sink is a state and a \<open>record\<close> method that may change the state and may throw (the
  flag). The recorder drops a missing sink and swallows the exception: it has no result of
  its own, so no caller can depend on it.
\<close>

type_synonym 'm metric_sink = "'m \<Rightarrow> MetricEvent \<Rightarrow> 'm \<times> bool"

definition recordMetric :: "'m metric_sink option \<Rightarrow> 'm \<Rightarrow> MetricEvent \<Rightarrow> 'm" where
  "recordMetric sink m e = (case sink of None \<Rightarrow> m | Some rec \<Rightarrow> fst (rec m e))"

end
