(* ===== verification/Provider_Router.thy ===== *)
theory Provider_Router
  imports Circuit_Breaker Chat_Types Telemetry
begin

text \<open>
  The provider router of \<open>src/providers/router.ts\<close>: a routing pass calls the primary target
  behind its circuit and, under the fallback policy, the fallback target behind its own. A
  pass is a sequence of synchronous segments, one per event: its start (\<open>route\<close> up to the
  call of the primary), a delta the provider hands to the stream consumer, the settlement of
  the provider call (the end of \<open>call\<close>), and the resumption of \<open>route\<close> after a failed primary
  call. Any number of passes interleave over the two circuits. Providers, the consumer, the
  abort signal and the clock are the environment: their outcomes are the arguments of the
  events. Within one segment the abort signal and the clock have one value, so the check at
  the start of the guarded operation repeats the one of \<open>route\<close> in the same segment. Logging
  is left out.
\<close>

section \<open>Definitions\<close>

subsection \<open>Targets and routing passes\<close>

datatype target = Primary | Secondary

record ProviderTarget =
  targetName :: jstring
  hasStream :: bool

record FallbackTarget = ProviderTarget +
  modelMap :: "jstring \<rightharpoonup> jstring"

record ProviderRouter =
  primaryTarget :: ProviderTarget
  fallbackTarget :: "FallbackTarget option"

text \<open>A provider call resolves to an answer, or to nothing when it streamed.\<close>

type_synonym call_result = "error + ChatResponse option"

datatype pass_state =
    Calling target int time \<comment> \<open>awaiting the provider: the circuit's generation, the start\<close>
  | PrimaryFailed error \<comment> \<open>the call of the primary has thrown; \<open>route\<close> is about to catch\<close>
  | Returned call_result

text \<open>
  A routing pass. \<open>invoked\<close> records the calls of a provider's own method with the request it
  was given, \<open>written\<close> the deltas handed to the caller's consumer with their origin.
\<close>

record pass =
  passRequest :: ChatRequest
  passMode :: CallMode
  emitted :: bool
  passState :: pass_state
  invoked :: "(target \<times> ChatRequest) list"
  written :: "(target \<times> jstring) list"

record router_state =
  circuits :: "target \<Rightarrow> breaker"
  passes :: "nat \<rightharpoonup> pass"
  routerMetrics :: "MetricEvent list"

subsection \<open>Operations\<close>

fun name_of :: "ProviderRouter \<Rightarrow> target \<Rightarrow> jstring" where
  "name_of r Primary = targetName (primaryTarget r)"
| "name_of r Secondary = (case fallbackTarget r of None \<Rightarrow> [] | Some f \<Rightarrow> targetName f)"

fun streams :: "ProviderRouter \<Rightarrow> target \<Rightarrow> bool" where
  "streams r Primary = hasStream (primaryTarget r)"
| "streams r Secondary = (case fallbackTarget r of None \<Rightarrow> False | Some f \<Rightarrow> hasStream f)"

definition routerSnapshot ::
  "ProviderRouter \<Rightarrow> time \<Rightarrow> router_state \<Rightarrow> (jstring \<times> CircuitSnapshot) list" where
  "routerSnapshot r now s =
     map (\<lambda>t. (name_of r t, snapshot now (circuits s t)))
       (if fallbackTarget r = None then [Primary] else [Primary, Secondary])"

definition isIgnoredError :: "error \<Rightarrow> bool" where
  "isIgnoredError e \<longleftrightarrow> e = RequestAbortedError \<or> e = StreamConsumerError"

text \<open>\<open>invoke\<close>: the method of the provider that is called, if it has one for the mode.\<close>

definition invoke :: "ProviderRouter \<Rightarrow> target \<Rightarrow> CallMode \<Rightarrow> ChatRequest \<Rightarrow> error + (target \<times> ChatRequest)" where
  "invoke r t md request =
     (if md = ModeStream \<and> \<not> streams r t then Inl (App ProviderStreamingUnsupportedError)
      else Inr (t, request))"

text \<open>The translation of what a call throws.\<close>

fun call_error :: "jstring \<Rightarrow> error \<Rightarrow> error" where
  "call_error nm (CircuitOpenError ms) = App (ProviderCircuitOpenError nm ms)"
| "call_error nm e = e"

definition provider_outcome :: "error + 'a \<Rightarrow> ProviderOutcome" where
  "provider_outcome res =
     (case res of
        Inr _ \<Rightarrow> ProviderSuccess
      | Inl e \<Rightarrow>
          if e = RequestAbortedError then ProviderCancelled
          else if e = StreamConsumerError then ConsumerError
          else if isRetryableProviderError e then TransientError else PermanentError)"

text \<open>
  \<open>call\<close> up to the provider: the circuit rejects it, or it is counted as started and the
  provider's method is invoked with the request.
\<close>

definition call_begin ::
  "ProviderRouter \<Rightarrow> target \<Rightarrow> time \<Rightarrow> ChatRequest \<Rightarrow> pass \<Rightarrow> router_state \<Rightarrow>
   (error + pass) \<times> router_state" where
  "call_begin r t now request p s =
     (case execute_begin now (circuits s t) of
        Inl e \<Rightarrow>
          (Inl (call_error (name_of r t) e),
           s\<lparr>routerMetrics := routerMetrics s @ [CircuitRejection (name_of r t) (passMode p)]\<rparr>)
      | Inr (gen, b) \<Rightarrow>
          (Inr (p\<lparr>passState := Calling t gen now,
                  invoked := invoked p @
                    (case invoke r t (passMode p) request of Inl _ \<Rightarrow> [] | Inr c \<Rightarrow> [c])\<rparr>),
           s\<lparr>circuits := (circuits s)(t := b),
             routerMetrics := routerMetrics s @ [ProviderStart (name_of r t) (passMode p)]\<rparr>))"

text \<open>
  \<open>call\<close> from the settlement of the operation: cancellation overrides the outcome, the circuit
  records it, the metrics are emitted and the error is translated.
\<close>

definition call_end ::
  "ProviderRouter \<Rightarrow> target \<Rightarrow> CallMode \<Rightarrow> int \<Rightarrow> time \<Rightarrow> bool \<Rightarrow> time \<Rightarrow> call_result \<Rightarrow> router_state \<Rightarrow>
   call_result \<times> router_state" where
  "call_end r t md gen startedAt aborted now outcome s =
     (let res = (case throwIfCancelled aborted of Inl e \<Rightarrow> Inl e | Inr _ \<Rightarrow> outcome) in
      (map_sum (call_error (name_of r t)) id res,
       s\<lparr>circuits := (circuits s)(t := execute_end isRetryableProviderError isIgnoredError now gen
                                         res (circuits s t)),
         routerMetrics := routerMetrics s @
           (case res of Inl (CircuitOpenError _) \<Rightarrow> [CircuitRejection (name_of r t) md] | _ \<Rightarrow> []) @
           [ProviderEnd (name_of r t) md (provider_outcome res) (now - startedAt)]\<rparr>))"

text \<open>The start of \<open>route\<close>, for a fresh pass.\<close>

definition route_begin ::
  "ProviderRouter \<Rightarrow> CallMode \<Rightarrow> ChatRequest \<Rightarrow> bool \<Rightarrow> time \<Rightarrow> router_state \<Rightarrow> pass \<times> router_state" where
  "route_begin r md request aborted now s =
     (let p = \<lparr>passRequest = request, passMode = md, emitted = False,
               passState = Returned (Inl RequestAbortedError), invoked = [], written = []\<rparr>
      in case throwIfCancelled aborted of
           Inl e \<Rightarrow> (p\<lparr>passState := Returned (Inl e)\<rparr>, s)
         | Inr _ \<Rightarrow>
             (case call_begin r Primary now request p s of
                (Inl e, s') \<Rightarrow> (p\<lparr>passState := PrimaryFailed e\<rparr>, s')
              | (Inr p', s') \<Rightarrow> (p', s')))"

text \<open>
  The model the fallback is asked for: only an explicit, non-empty mapping of the model.
\<close>

definition fallback_model :: "ProviderRouter \<Rightarrow> jstring \<Rightarrow> jstring option" where
  "fallback_model r m =
     (case fallbackTarget r of
        None \<Rightarrow> None
      | Some f \<Rightarrow> (case modelMap f m of None \<Rightarrow> None | Some m' \<Rightarrow> if m' = [] then None else Some m'))"

definition canFallback :: "pass \<Rightarrow> bool" where
  "canFallback p \<longleftrightarrow> (case passMode p of ModeChat \<Rightarrow> True | ModeStream \<Rightarrow> \<not> emitted p)"

text \<open>The \<open>catch\<close> of \<open>route\<close>, after the primary has failed with \<open>e\<close>.\<close>

definition route_catch ::
  "ProviderRouter \<Rightarrow> error \<Rightarrow> bool \<Rightarrow> time \<Rightarrow> pass \<Rightarrow> router_state \<Rightarrow> pass \<times> router_state" where
  "route_catch r e aborted now p s =
     (case throwIfCancelled aborted of
        Inl c \<Rightarrow> (p\<lparr>passState := Returned (Inl c)\<rparr>, s)
      | Inr _ \<Rightarrow>
          if \<not> canFallback p \<or> \<not> isRetryableProviderError e
          then (p\<lparr>passState := Returned (Inl e)\<rparr>, s)
          else case fallback_model r (model (passRequest p)) of
            None \<Rightarrow> (p\<lparr>passState := Returned (Inl e)\<rparr>, s)
          | Some m \<Rightarrow>
              (let s1 = s\<lparr>routerMetrics := routerMetrics s @
                           [Fallback (name_of r Primary) (name_of r Secondary)]\<rparr>
               in case call_begin r Secondary now ((passRequest p)\<lparr>model := m\<rparr>) p s1 of
                    (Inl e', s') \<Rightarrow> (p\<lparr>passState := Returned (Inl e')\<rparr>, s')
                  | (Inr p', s') \<Rightarrow> (p', s')))"

text \<open>
  \<open>consume\<close>, the consumer \<open>stream\<close> hands to the provider: \<open>fails\<close> says whether the caller's
  consumer rejects, \<open>abortedAfter\<close> whether the signal is aborted by then. The second component
  is what the provider sees.
\<close>

definition consumeDelta ::
  "target \<Rightarrow> bool \<Rightarrow> jstring \<Rightarrow> bool \<Rightarrow> bool \<Rightarrow> pass \<Rightarrow> pass \<times> (error + unit)" where
  "consumeDelta t aborted delta fails abortedAfter p =
     (case throwIfCancelled aborted of
        Inl e \<Rightarrow> (p, Inl e)
      | Inr _ \<Rightarrow>
          if delta = [] then (p, Inr ())
          else (p\<lparr>emitted := True, written := written p @ [(t, delta)]\<rparr>,
                if fails then
                  (case throwIfCancelled abortedAfter of
                     Inl e \<Rightarrow> Inl e | Inr _ \<Rightarrow> Inl StreamConsumerError)
                else Inr ()))"

subsection \<open>Interleaved passes\<close>

datatype router_event =
    Route nat CallMode ChatRequest bool time
  | Delta nat bool jstring bool bool
  | Settle nat call_result bool time
  | Resume nat bool time

text \<open>
  One segment of one pass. An event that does not fit the state of its pass (a second start,
  a delta of a call that is not streaming, a settlement with no call) does not occur and
  changes nothing. A provider without a \<open>stream\<close> method settles with the error of \<open>invoke\<close>.
\<close>

fun router_step :: "ProviderRouter \<Rightarrow> router_state \<Rightarrow> router_event \<Rightarrow> router_state" where
  "router_step r s (Route i md request aborted now) =
     (if passes s i \<noteq> None then s
      else let (p, s') = route_begin r md request aborted now s
           in s'\<lparr>passes := (passes s')(i \<mapsto> p)\<rparr>)"
| "router_step r s (Delta i aborted delta fails abortedAfter) =
     (case passes s i of
        Some p \<Rightarrow>
          (case passState p of
             Calling t _ _ \<Rightarrow>
               if passMode p = ModeStream \<and> streams r t
               then s\<lparr>passes := (passes s)(i \<mapsto> fst (consumeDelta t aborted delta fails abortedAfter p))\<rparr>
               else s
           | _ \<Rightarrow> s)
      | None \<Rightarrow> s)"
| "router_step r s (Settle i outcome aborted now) =
     (case passes s i of
        Some p \<Rightarrow>
          (case passState p of
             Calling t gen startedAt \<Rightarrow>
               (let result = (case invoke r t (passMode p) (passRequest p) of
                                Inl e \<Rightarrow> Inl e | Inr _ \<Rightarrow> outcome);
                    (res, s') = call_end r t (passMode p) gen startedAt aborted now result s
                in s'\<lparr>passes := (passes s')(i \<mapsto> p\<lparr>passState :=
                     (case (t, res) of (Primary, Inl e) \<Rightarrow> PrimaryFailed e | _ \<Rightarrow> Returned res)\<rparr>)\<rparr>)
           | _ \<Rightarrow> s)
      | None \<Rightarrow> s)"
| "router_step r s (Resume i aborted now) =
     (case passes s i of
        Some p \<Rightarrow>
          (case passState p of
             PrimaryFailed e \<Rightarrow>
               (let (p', s') = route_catch r e aborted now p s
                in s'\<lparr>passes := (passes s')(i \<mapsto> p')\<rparr>)
           | _ \<Rightarrow> s)
      | None \<Rightarrow> s)"

definition new_router :: "(target \<Rightarrow> breaker) \<Rightarrow> router_state" where
  "new_router bs = \<lparr>circuits = bs, passes = Map.empty, routerMetrics = []\<rparr>"

subsection \<open>Calls in flight\<close>

text \<open>The call a pass awaits: its target, the generation it captured and its start.\<close>

definition in_flight :: "router_state \<Rightarrow> nat \<rightharpoonup> target \<times> int \<times> time" where
  "in_flight s i =
     (case passes s i of
        Some p \<Rightarrow> (case passState p of Calling t gen startedAt \<Rightarrow> Some (t, gen, startedAt) | _ \<Rightarrow> None)
      | None \<Rightarrow> None)"

text \<open>The circuit of one target with the calls in flight to it.\<close>

definition circuit_view :: "target \<Rightarrow> router_state \<Rightarrow> nat breaker_system" where
  "circuit_view t s =
     \<lparr>sys_breaker = circuits s t,
      sys_calls = (\<lambda>i. case in_flight s i of
                    Some (t', gen, _) \<Rightarrow> if t' = t then Some gen else None | None \<Rightarrow> None)\<rparr>"

text \<open>The mode of the call a pass awaits.\<close>

definition call_mode :: "router_state \<Rightarrow> nat \<rightharpoonup> CallMode" where
  "call_mode s i =
     (case passes s i of
        Some p \<Rightarrow> (case passState p of Calling _ _ _ \<Rightarrow> Some (passMode p) | _ \<Rightarrow> None)
      | None \<Rightarrow> None)"

text \<open>The start and end events of the calls of one class of providers and modes.\<close>

type_synonym call_class = "jstring \<Rightarrow> CallMode \<Rightarrow> bool"

fun starts_of :: "call_class \<Rightarrow> MetricEvent \<Rightarrow> bool" where
  "starts_of P (ProviderStart n md) = P n md"
| "starts_of P _ = False"

fun ends_of :: "call_class \<Rightarrow> MetricEvent \<Rightarrow> bool" where
  "ends_of P (ProviderEnd n md _ _) = P n md"
| "ends_of P _ = False"

section \<open>Lemmas\<close>

subsection \<open>One segment\<close>

lemma throwIfCancelled_simps [simp]:
  "throwIfCancelled True = Inl RequestAbortedError"
  "throwIfCancelled False = Inr ()"
  by (simp_all add: throwIfCancelled_def)

lemma fallback_model_Some:
  assumes "fallback_model r m = Some m'"
  obtains f where "fallbackTarget r = Some f" "modelMap f m = Some m'" "m' \<noteq> []"
  using assms by (auto simp: fallback_model_def split: option.splits if_splits)

definition silent :: "MetricEvent list \<Rightarrow> bool" where
  "silent ms \<longleftrightarrow> (\<forall>P. filter (starts_of P) ms = [] \<and> filter (ends_of P) ms = [])"

lemma silent_simps [simp]:
  "silent []" "silent (CircuitRejection n md # ms) = silent ms"
  "silent (Fallback a b # ms) = silent ms"
  by (auto simp: silent_def)

lemma call_begin_cases:
  assumes "call_begin r t now request p s = (out, s')"
  obtains (rejected) e where "execute_begin now (circuits s t) = Inl e"
      "out = Inl (call_error (name_of r t) e)"
      "s' = s\<lparr>routerMetrics := routerMetrics s @ [CircuitRejection (name_of r t) (passMode p)]\<rparr>"
  | (admitted) gen b where "execute_begin now (circuits s t) = Inr (gen, b)"
      "out = Inr (p\<lparr>passState := Calling t gen now, invoked := invoked p @
         (if passMode p = ModeStream \<and> \<not> streams r t then [] else [(t, request)])\<rparr>)"
      "s' = s\<lparr>circuits := (circuits s)(t := b),
              routerMetrics := routerMetrics s @ [ProviderStart (name_of r t) (passMode p)]\<rparr>"
  using assms
  by (auto simp: call_begin_def invoke_def split: sum.splits prod.splits if_splits)

text \<open>
  Every segment is, for the circuits and the metrics, an admission, a settlement, or nothing.
\<close>

definition quiet_step :: "router_state \<Rightarrow> router_state \<Rightarrow> bool" where
  "quiet_step s s' \<longleftrightarrow>
     circuits s' = circuits s \<and> in_flight s' = in_flight s \<and> call_mode s' = call_mode s \<and>
     (\<exists>ms. routerMetrics s' = routerMetrics s @ ms \<and> silent ms)"

definition admit_step :: "ProviderRouter \<Rightarrow> router_state \<Rightarrow> router_state \<Rightarrow> bool" where
  "admit_step r s s' \<longleftrightarrow>
     (\<exists>i t now gen b ms md. in_flight s i = None \<and> execute_begin now (circuits s t) = Inr (gen, b) \<and>
        circuits s' = (circuits s)(t := b) \<and> in_flight s' = (in_flight s)(i \<mapsto> (t, gen, now)) \<and>
        call_mode s' = (call_mode s)(i \<mapsto> md) \<and>
        routerMetrics s' = routerMetrics s @ ms @ [ProviderStart (name_of r t) md] \<and> silent ms)"

definition settle_step :: "ProviderRouter \<Rightarrow> router_state \<Rightarrow> router_state \<Rightarrow> bool" where
  "settle_step r s s' \<longleftrightarrow>
     (\<exists>i t now gen startedAt ms md oc d. \<exists>res :: call_result. in_flight s i = Some (t, gen, startedAt) \<and>
        circuits s' = (circuits s)(t :=
          execute_end isRetryableProviderError isIgnoredError now gen res (circuits s t)) \<and>
        in_flight s' = (in_flight s)(i := None) \<and>
        call_mode s i = Some md \<and> call_mode s' = (call_mode s)(i := None) \<and>
        routerMetrics s' = routerMetrics s @ ms @ [ProviderEnd (name_of r t) md oc d] \<and> silent ms)"

lemma in_flight_upd:
  "passes s' = (passes s)(i \<mapsto> p) \<Longrightarrow>
   in_flight s' = (in_flight s)(i :=
     (case passState p of Calling t gen startedAt \<Rightarrow> Some (t, gen, startedAt) | _ \<Rightarrow> None))"
  by (auto simp: in_flight_def split: pass_state.split)

lemma call_mode_upd:
  "passes s' = (passes s)(i \<mapsto> p) \<Longrightarrow>
   call_mode s' = (call_mode s)(i :=
     (case passState p of Calling _ _ _ \<Rightarrow> Some (passMode p) | _ \<Rightarrow> None))"
  by (auto simp: call_mode_def split: pass_state.split)

lemma call_mode_None: "call_mode s i = None \<longleftrightarrow> in_flight s i = None"
  by (simp add: call_mode_def in_flight_def split: option.split pass_state.split)

lemma call_begin_step:
  assumes "call_begin r t now request p s = (out, s1)" and "in_flight s0 i = None"
    and "circuits s = circuits s0" and "passes s = passes s0"
    and "routerMetrics s = routerMetrics s0 @ ms" and "silent ms"
    and "s' = s1\<lparr>passes := (passes s1)(i \<mapsto> q)\<rparr>"
    and "case out of Inr p' \<Rightarrow> q = p' | Inl e \<Rightarrow> \<forall>t g u. passState q \<noteq> Calling t g u"
  shows "quiet_step s0 s' \<or> admit_step r s0 s'"
  using assms(1)
proof (cases rule: call_begin_cases)
  case (rejected e)
  have "in_flight s' = (in_flight s0)(i := None)"
    "call_mode s' = (call_mode s0)(i := None)"
    using in_flight_upd [of s' s0 i q] call_mode_upd [of s' s0 i q] rejected assms(4,7,8)
    by (auto split: pass_state.split)
  then have "quiet_step s0 s'"
    using rejected assms(2-7) by (auto simp: quiet_step_def silent_def fun_upd_idem call_mode_None)
  then show ?thesis ..
next
  case (admitted gen b)
  have "in_flight s' = (in_flight s0)(i \<mapsto> (t, gen, now))"
    "call_mode s' = (call_mode s0)(i \<mapsto> passMode p)"
    using in_flight_upd [of s' s0 i q] call_mode_upd [of s' s0 i q] admitted assms(4,7,8) by auto
  then have "admit_step r s0 s'"
    unfolding admit_step_def using admitted assms(2-7)
    by (intro exI [of _ i] exI [of _ t] exI [of _ now] exI [of _ gen] exI [of _ b] exI [of _ ms]
        exI [of _ "passMode p"]) simp
  then show ?thesis ..
qed

lemma quiet_refl [simp]: "quiet_step s s"
  by (auto simp: quiet_step_def)

lemma Route_kind:
  "quiet_step s (router_step r s (Route i md request aborted now)) \<or>
   admit_step r s (router_step r s (Route i md request aborted now))"
proof (cases "passes s i = None \<and> \<not> aborted")
  case True
  then have "in_flight s i = None" by (simp add: in_flight_def)
  let ?p = "\<lparr>passRequest = request, passMode = md, emitted = False,
    passState = Returned (Inl RequestAbortedError), invoked = [], written = []\<rparr>"
  obtain out s1 where "call_begin r Primary now request ?p s = (out, s1)" by fastforce
  from call_begin_step [OF this \<open>in_flight s i = None\<close> refl refl _ _ refl,
      of "[]" "case out of Inl e \<Rightarrow> ?p\<lparr>passState := PrimaryFailed e\<rparr> | Inr p' \<Rightarrow> p'"] this True
  show ?thesis by (auto simp: route_begin_def split: sum.splits)
next
  case False
  then show ?thesis
    by (auto simp: route_begin_def quiet_step_def in_flight_def call_mode_def split: pass_state.split)
qed

definition fallback_allowed :: "ProviderRouter \<Rightarrow> error \<Rightarrow> bool \<Rightarrow> pass \<Rightarrow> bool" where
  "fallback_allowed r e aborted p \<longleftrightarrow>
     \<not> aborted \<and> isRetryableProviderError e \<and> canFallback p \<and>
     fallback_model r (model (passRequest p)) \<noteq> None"

lemma route_catch_cases:
  obtains (stop) "\<not> fallback_allowed r e aborted p"
      "route_catch r e aborted now p s =
         (p\<lparr>passState := Returned (Inl (if aborted then RequestAbortedError else e))\<rparr>, s)"
  | (switch) m out s' where "fallback_allowed r e aborted p"
      "fallback_model r (model (passRequest p)) = Some m"
      "call_begin r Secondary now ((passRequest p)\<lparr>model := m\<rparr>) p
         (s\<lparr>routerMetrics := routerMetrics s @ [Fallback (name_of r Primary) (name_of r Secondary)]\<rparr>)
       = (out, s')"
      "route_catch r e aborted now p s =
         (case out of Inl e' \<Rightarrow> p\<lparr>passState := Returned (Inl e')\<rparr> | Inr p' \<Rightarrow> p', s')"
proof (cases "fallback_allowed r e aborted p")
  case False
  then show ?thesis
    by (intro stop) (auto simp: fallback_allowed_def route_catch_def throwIfCancelled_def)
next
  case True
  then obtain m where m: "fallback_model r (model (passRequest p)) = Some m"
    by (auto simp: fallback_allowed_def)
  obtain out s' where "call_begin r Secondary now ((passRequest p)\<lparr>model := m\<rparr>) p
         (s\<lparr>routerMetrics := routerMetrics s @ [Fallback (name_of r Primary) (name_of r Secondary)]\<rparr>)
       = (out, s')" by fastforce
  with True m show ?thesis
    by (intro switch [of m out s']) (auto simp: fallback_allowed_def route_catch_def split: sum.split)
qed

lemma Resume_kind:
  "quiet_step s (router_step r s (Resume i aborted now)) \<or>
   admit_step r s (router_step r s (Resume i aborted now))"
proof (cases "\<exists>p e. passes s i = Some p \<and> passState p = PrimaryFailed e")
  case True
  then obtain p e where p: "passes s i = Some p" "passState p = PrimaryFailed e" by blast
  then have idle: "in_flight s i = None" by (simp add: in_flight_def)
  show ?thesis
  proof (cases rule: route_catch_cases [of r e aborted p now s])
    case stop
    with p idle have "quiet_step s (router_step r s (Resume i aborted now))"
      by (auto simp: quiet_step_def in_flight_upd [where s = s and i = i] call_mode_None
          call_mode_upd [where s = s and i = i] fun_upd_idem)
    then show ?thesis ..
  next
    case (switch m out s')
    from call_begin_step [OF switch(3) idle _ _ _ _ refl,
        of "[Fallback (name_of r Primary) (name_of r Secondary)]"
           "case out of Inl e \<Rightarrow> p\<lparr>passState := Returned (Inl e)\<rparr> | Inr p' \<Rightarrow> p'"] switch p
    show ?thesis by (auto split: sum.splits)
  qed
next
  case False
  then show ?thesis by (auto split: pass_state.splits option.splits)
qed

lemma Delta_kind: "quiet_step s (router_step r s (Delta i aborted delta fails abortedAfter))"
  by (auto simp: quiet_step_def in_flight_def call_mode_def consumeDelta_def throwIfCancelled_def fun_eq_iff
      split: option.split pass_state.split)

lemma Settle_kind:
  "quiet_step s (router_step r s (Settle i outcome aborted now)) \<or>
   settle_step r s (router_step r s (Settle i outcome aborted now))"
proof (cases "in_flight s i")
  case None
  then show ?thesis by (auto simp: in_flight_def split: option.splits pass_state.splits)
next
  case (Some c)
  then obtain p t gen u where p: "passes s i = Some p" "passState p = Calling t gen u" "c = (t, gen, u)"
    by (auto simp: in_flight_def split: option.splits pass_state.splits)
  let ?s' = "router_step r s (Settle i outcome aborted now)"
  define res where "res = (case throwIfCancelled aborted of Inl e \<Rightarrow> Inl e
    | Inr _ \<Rightarrow> (case invoke r t (passMode p) (passRequest p) of Inl e \<Rightarrow> Inl e | Inr _ \<Rightarrow> outcome))"
  define ms where "ms = (case res of Inl (CircuitOpenError _) \<Rightarrow> [CircuitRejection (name_of r t) (passMode p)]
    | _ \<Rightarrow> [])"
  have "silent ms" by (simp add: ms_def split: sum.split error.split)
  moreover have "in_flight ?s' = (in_flight s)(i := None)"
    using p by (auto simp: in_flight_def fun_eq_iff call_end_def Let_def split: sum.split target.split)
  moreover have "call_mode s i = Some (passMode p)" "call_mode ?s' = (call_mode s)(i := None)"
    using p by (auto simp: call_mode_def fun_eq_iff call_end_def Let_def split: sum.split target.split)
  moreover have "circuits ?s' = (circuits s)(t :=
      execute_end isRetryableProviderError isIgnoredError now gen res (circuits s t))"
    "routerMetrics ?s' = routerMetrics s @ ms @
      [ProviderEnd (name_of r t) (passMode p) (provider_outcome res) (now - u)]"
    using p by (simp_all add: call_end_def Let_def res_def ms_def)
  ultimately have "settle_step r s ?s'"
    unfolding settle_step_def using Some p(3) by blast
  then show ?thesis ..
qed

lemma router_step_kind:
  obtains "quiet_step s (router_step r s ev)" | "admit_step r s (router_step r s ev)"
  | "settle_step r s (router_step r s ev)"
  using Route_kind Delta_kind Settle_kind Resume_kind by (cases ev) metis+

subsection \<open>Each circuit under interleaved passes\<close>

abbreviation router_breaker_step :: "nat breaker_system \<Rightarrow> nat breaker_system \<Rightarrow> bool" where
  "router_breaker_step \<equiv> breaker_step isRetryableProviderError isIgnoredError"

lemma execute_end_result_irrelevant:
  "execute_end isFailure isIgnored now g (map_sum id (\<lambda>_. ()) res) b =
   execute_end isFailure isIgnored now g res b"
  by (cases res) simp_all

lemma circuit_view_step:
  "router_breaker_step\<^sup>=\<^sup>= (circuit_view t s) (circuit_view t (router_step r s ev))"
proof (cases rule: router_step_kind [of s r ev])
  case 1
  then show ?thesis by (simp add: quiet_step_def circuit_view_def)
next
  case 2
  then obtain i t' now gen b where a: "in_flight s i = None"
    "execute_begin now (circuits s t') = Inr (gen, b)"
    "circuits (router_step r s ev) = (circuits s)(t' := b)"
    "in_flight (router_step r s ev) = (in_flight s)(i \<mapsto> (t', gen, now))"
    by (auto simp: admit_step_def)
  show ?thesis
  proof (cases "t' = t")
    case True
    have "circuit_view t (router_step r s ev) =
      \<lparr>sys_breaker = b, sys_calls = (sys_calls (circuit_view t s))(i \<mapsto> gen)\<rparr>"
      using a True by (auto simp: circuit_view_def)
    moreover have "router_breaker_step (circuit_view t s) \<dots>"
      using a True by (intro breaker_step.admit [of now]) (simp_all add: circuit_view_def)
    ultimately show ?thesis by simp
  next
    case False
    then show ?thesis using a by (auto simp: circuit_view_def fun_eq_iff)
  qed
next
  case 3
  then obtain i t' now gen u and res :: call_result where
    c: "in_flight s i = Some (t', gen, u)"
    "circuits (router_step r s ev) = (circuits s)(t' :=
       execute_end isRetryableProviderError isIgnoredError now gen res (circuits s t'))"
    "in_flight (router_step r s ev) = (in_flight s)(i := None)"
    by (auto simp: settle_step_def)
  show ?thesis
  proof (cases "t' = t")
    case True
    have "circuit_view t (router_step r s ev) =
      \<lparr>sys_breaker = execute_end isRetryableProviderError isIgnoredError now gen
         (map_sum id (\<lambda>_. ()) res) (sys_breaker (circuit_view t s)),
       sys_calls = (sys_calls (circuit_view t s))(i := None)\<rparr>"
      using c True by (auto simp: circuit_view_def execute_end_result_irrelevant)
    moreover have "router_breaker_step (circuit_view t s) \<dots>"
      using c True by (intro breaker_step.settle) (simp add: circuit_view_def)
    ultimately show ?thesis by simp
  next
    case False
    then show ?thesis using c by (auto simp: circuit_view_def fun_eq_iff)
  qed
qed

lemma circuit_view_run:
  "router_breaker_step\<^sup>*\<^sup>* (circuit_view t s) (circuit_view t (run (router_step r) s evs))"
proof (induction evs arbitrary: s)
  case (Cons ev evs)
  have "router_breaker_step\<^sup>*\<^sup>* (circuit_view t s) (circuit_view t (router_step r s ev))"
    using circuit_view_step [of t s r ev] by auto
  with Cons [of "router_step r s ev"] show ?case by simp
qed simp

definition fresh_breakers :: "(target \<Rightarrow> breaker) \<Rightarrow> bool" where
  "fresh_breakers bs \<longleftrightarrow> (\<forall>t. \<exists>threshold reset. newCircuitBreaker threshold reset = Inr (bs t))"

lemma circuit_view_init: "fresh_breakers bs \<Longrightarrow> breaker_init (circuit_view t (new_router bs))"
  by (auto simp: fresh_breakers_def breaker_init_def circuit_view_def new_router_def in_flight_def)

subsection \<open>Metrics\<close>

definition in_flight_to :: "ProviderRouter \<Rightarrow> call_class \<Rightarrow> router_state \<Rightarrow> nat set" where
  "in_flight_to r P s =
     {i. \<exists>t gen u md. in_flight s i = Some (t, gen, u) \<and> call_mode s i = Some md \<and> P (name_of r t) md}"

definition metrics_balanced :: "ProviderRouter \<Rightarrow> router_state \<Rightarrow> bool" where
  "metrics_balanced r s \<longleftrightarrow>
     finite (dom (in_flight s)) \<and>
     (\<forall>P. length (filter (starts_of P) (routerMetrics s)) =
          length (filter (ends_of P) (routerMetrics s)) + card (in_flight_to r P s))"

lemma finite_in_flight_to: "finite (dom (in_flight s)) \<Longrightarrow> finite (in_flight_to r P s)"
  by (rule finite_subset [of _ "dom (in_flight s)"]) (auto simp: in_flight_to_def)

lemma in_flight_to_admit:
  assumes "in_flight s i = None" and "in_flight s' = (in_flight s)(i \<mapsto> (t, gen, u))"
    and "call_mode s' = (call_mode s)(i \<mapsto> md)"
  shows "in_flight_to r P s' =
      (if P (name_of r t) md then insert i (in_flight_to r P s) else in_flight_to r P s)"
    and "i \<notin> in_flight_to r P s"
  using assms by (auto simp: in_flight_to_def)

lemma in_flight_to_settle:
  assumes "in_flight s i = Some (t, gen, u)" and "in_flight s' = (in_flight s)(i := None)"
    and "call_mode s i = Some md" and "call_mode s' = (call_mode s)(i := None)"
  shows "in_flight_to r P s' = in_flight_to r P s - {i}"
    and "i \<in> in_flight_to r P s \<longleftrightarrow> P (name_of r t) md"
  using assms by (auto simp: in_flight_to_def)

lemma metrics_balanced_step:
  assumes bal: "metrics_balanced r s"
  shows "metrics_balanced r (router_step r s ev)" (is "metrics_balanced r ?s'")
proof (cases rule: router_step_kind [of s r ev])
  case 1
  then show ?thesis using bal
    by (auto simp: quiet_step_def metrics_balanced_def in_flight_to_def silent_def)
next
  case 2
  then obtain i t now gen ms md where a: "in_flight s i = None"
    "in_flight ?s' = (in_flight s)(i \<mapsto> (t, gen, now))" "call_mode ?s' = (call_mode s)(i \<mapsto> md)"
    "silent ms" "routerMetrics ?s' = routerMetrics s @ ms @ [ProviderStart (name_of r t) md]"
    by (auto simp: admit_step_def)
  have "finite (in_flight_to r P s)" for P
    using bal by (intro finite_in_flight_to) (simp add: metrics_balanced_def)
  with bal a(2,4,5) in_flight_to_admit [OF a(1-3)] show ?thesis
    by (simp add: metrics_balanced_def silent_def)
next
  case 3
  then obtain i t gen u ms md oc d where c: "in_flight s i = Some (t, gen, u)"
    "in_flight ?s' = (in_flight s)(i := None)" "call_mode s i = Some md"
    "call_mode ?s' = (call_mode s)(i := None)" "silent ms"
    "routerMetrics ?s' = routerMetrics s @ ms @ [ProviderEnd (name_of r t) md oc d]"
    by (auto simp: settle_step_def)
  have fin: "finite (in_flight_to r P s)" for P
    using bal by (intro finite_in_flight_to) (simp add: metrics_balanced_def)
  have "card (in_flight_to r P ?s') + (if P (name_of r t) md then 1 else 0) = card (in_flight_to r P s)" for P
    using in_flight_to_settle [OF c(1-4), of r P] card_Suc_Diff1 [OF fin, of i P] by auto
  then have "card (in_flight_to r P s) =
      card (in_flight_to r P ?s') + (if P (name_of r t) md then 1 else 0)" for P
    by (simp only:)
  moreover have "filter (starts_of P) (routerMetrics ?s') = filter (starts_of P) (routerMetrics s)"
    "length (filter (ends_of P) (routerMetrics ?s')) =
       length (filter (ends_of P) (routerMetrics s)) + (if P (name_of r t) md then 1 else 0)" for P
    using c(5,6) by (simp_all add: silent_def)
  moreover have "finite (dom (in_flight ?s'))" using bal c(2) by (simp add: metrics_balanced_def)
  ultimately show ?thesis using bal by (simp add: metrics_balanced_def)
qed

interpretation router_metrics: stepwise_invariant "router_step r" "metrics_balanced r" "\<lambda>_ _. True" for r
  by unfold_locales (rule metrics_balanced_step)

subsection \<open>One pass\<close>

text \<open>
  The shape of a pass: the primary is invoked at most once and first, with the request as it
  came; the fallback at most once, with the mapped model; every delta comes from the provider
  invoked last.
\<close>

definition primary_only :: "pass \<Rightarrow> bool" where
  "primary_only p \<longleftrightarrow> invoked p = [] \<or> invoked p = [(Primary, passRequest p)]"

definition invoked_ok :: "ProviderRouter \<Rightarrow> pass \<Rightarrow> bool" where
  "invoked_ok r p \<longleftrightarrow> primary_only p \<or>
     (\<exists>m. fallback_model r (model (passRequest p)) = Some m \<and>
        (invoked p = [(Secondary, (passRequest p)\<lparr>model := m\<rparr>)] \<or>
         invoked p = [(Primary, passRequest p), (Secondary, (passRequest p)\<lparr>model := m\<rparr>)]))"

definition written_ok :: "pass \<Rightarrow> bool" where
  "written_ok p \<longleftrightarrow>
     emitted p = (written p \<noteq> []) \<and> (passMode p = ModeChat \<longrightarrow> written p = []) \<and>
     (\<forall>x \<in> set (written p). invoked p \<noteq> [] \<and> fst (last (invoked p)) = fst x)"

definition phase_ok :: "ProviderRouter \<Rightarrow> pass \<Rightarrow> bool" where
  "phase_ok r p \<longleftrightarrow>
     (case passState p of
        Calling t _ _ \<Rightarrow>
          (passMode p = ModeStream \<and> \<not> streams r t \<or> invoked p \<noteq> [] \<and> fst (last (invoked p)) = t) \<and>
          (t = Primary \<longrightarrow> primary_only p)
      | PrimaryFailed _ \<Rightarrow> primary_only p
      | Returned _ \<Rightarrow> True)"

definition pass_ok :: "ProviderRouter \<Rightarrow> pass \<Rightarrow> bool" where
  "pass_ok r p \<longleftrightarrow> invoked_ok r p \<and> written_ok p \<and> phase_ok r p"

lemmas pass_ok_defs = pass_ok_def invoked_ok_def written_ok_def phase_ok_def primary_only_def

lemma route_begin_ok: "pass_ok r (fst (route_begin r md request aborted now s))"
  by (auto simp: pass_ok_defs route_begin_def Let_def throwIfCancelled_def
      split: prod.split sum.split if_splits elim!: call_begin_cases)

lemma consumeDelta_ok:
  assumes "pass_ok r p" and "passState p = Calling t gen u" and "passMode p = ModeStream" and "streams r t"
  shows "pass_ok r (fst (consumeDelta t aborted delta fails abortedAfter p))"
  using assms by (auto simp: pass_ok_defs consumeDelta_def throwIfCancelled_def)

lemma route_catch_ok:
  assumes "pass_ok r p" and "passState p = PrimaryFailed e"
  shows "pass_ok r (fst (route_catch r e aborted now p s))"
proof (cases rule: route_catch_cases [of r e aborted p now s])
  case stop
  then show ?thesis using assms by (auto simp: pass_ok_defs)
next
  case (switch m out s')
  have "primary_only p" using assms by (simp add: pass_ok_def phase_ok_def)
  moreover have "written p = []"
    using switch(1) assms(1)
    by (cases "passMode p") (auto simp: fallback_allowed_def canFallback_def pass_ok_def written_ok_def)
  ultimately show ?thesis
    using switch(2,4) assms(1) switch(3)
    by (elim call_begin_cases) (auto simp: pass_ok_defs)
qed

definition passes_ok :: "ProviderRouter \<Rightarrow> router_state \<Rightarrow> bool" where
  "passes_ok r s \<longleftrightarrow> (\<forall>i p. passes s i = Some p \<longrightarrow> pass_ok r p)"

lemma call_begin_passes [simp]: "passes (snd (call_begin r t now request p s)) = passes s"
  by (simp add: call_begin_def split: sum.split prod.split)

lemma route_begin_passes [simp]: "passes (snd (route_begin r md request aborted now s)) = passes s"
  using call_begin_passes [of r Primary now request _ s]
  by (auto simp: route_begin_def Let_def throwIfCancelled_def split: prod.split sum.split
      elim!: call_begin_cases)

lemma route_catch_passes [simp]: "passes (snd (route_catch r e aborted now p s)) = passes s"
  by (cases rule: route_catch_cases [of r e aborted p now s]) (auto elim!: call_begin_cases)

lemma call_end_passes [simp]:
  "passes (snd (call_end r t md gen u aborted now outcome s)) = passes s"
  by (simp add: call_end_def Let_def)

text \<open>What a segment does to the passes: it updates its own pass only.\<close>

lemma router_step_passes:
  "passes (router_step r s (Route i md request aborted now)) =
     (if passes s i \<noteq> None then passes s
      else (passes s)(i \<mapsto> fst (route_begin r md request aborted now s)))"
  "passes s i = Some p \<Longrightarrow> passState p = PrimaryFailed e \<Longrightarrow>
   passes (router_step r s (Resume i aborted now)) =
     (passes s)(i \<mapsto> fst (route_catch r e aborted now p s))"
  "passes s i = Some p \<Longrightarrow> passState p = Calling t gen u \<Longrightarrow>
   passes (router_step r s (Settle i outcome aborted now)) =
     (passes s)(i \<mapsto> p\<lparr>passState :=
        (let res = fst (call_end r t (passMode p) gen u aborted now
                     (case invoke r t (passMode p) (passRequest p) of Inl e \<Rightarrow> Inl e | Inr _ \<Rightarrow> outcome) s)
         in case (t, res) of (Primary, Inl e) \<Rightarrow> PrimaryFailed e | _ \<Rightarrow> Returned res)\<rparr>)"
  by (auto simp: split_beta Let_def)

lemma passes_ok_step:
  assumes "passes_ok r s"
  shows "passes_ok r (router_step r s ev)"
proof (cases ev)
  case (Route i md request aborted now)
  then show ?thesis using assms route_begin_ok
    by (auto simp: passes_ok_def router_step_passes simp del: router_step.simps)
next
  case (Delta i aborted delta fails abortedAfter)
  then show ?thesis using assms consumeDelta_ok
    by (auto simp: passes_ok_def split: option.splits pass_state.splits)
next
  case (Settle i outcome aborted now)
  have "pass_ok r (p\<lparr>passState := (case (t, res) of (Primary, Inl e) \<Rightarrow> PrimaryFailed e | _ \<Rightarrow> Returned res)\<rparr>)"
    if "pass_ok r p" "passState p = Calling t gen u" for p t gen u res
    using that by (auto simp: pass_ok_defs split: target.split sum.split)
  with Settle assms show ?thesis
    by (auto simp: passes_ok_def split_beta Let_def call_end_passes split: option.splits pass_state.splits)
next
  case (Resume i aborted now)
  then show ?thesis using assms route_catch_ok
    by (auto simp: passes_ok_def split_beta split: option.splits pass_state.splits)
qed

interpretation router_passes: stepwise_invariant "router_step r" "passes_ok r" "\<lambda>_ _. True" for r
  by unfold_locales (rule passes_ok_step)

lemma run_pass_ok:
  "passes (run (router_step r) (new_router bs) evs) i = Some p \<Longrightarrow> pass_ok r p"
  using router_passes.run_inv [of r "new_router bs" evs]
  by (simp add: passes_ok_def new_router_def)

subsection \<open>Progress of a pass\<close>

fun pass_rank :: "pass_state \<Rightarrow> nat" where
  "pass_rank (Calling Primary _ _) = 3"
| "pass_rank (PrimaryFailed _) = 2"
| "pass_rank (Calling Secondary _ _) = 1"
| "pass_rank (Returned _) = 0"

definition pass_within :: "nat \<Rightarrow> nat \<Rightarrow> ChatRequest \<Rightarrow> router_state \<Rightarrow> bool" where
  "pass_within i n request s \<longleftrightarrow>
     (\<exists>p. passes s i = Some p \<and> pass_rank (passState p) \<le> n \<and> passRequest p = request)"

lemma Route_rank:
  assumes "passes s i = None"
  shows "pass_within i 3 request (router_step r s (Route i md request aborted now))"
  using assms
  by (auto simp: pass_within_def route_begin_def Let_def throwIfCancelled_def router_step_passes
      simp del: router_step.simps split: prod.split sum.split elim!: call_begin_cases)

lemma Settle_rank:
  assumes "pass_within i (Suc n) request s" and "n = 0 \<or> n = 2"
  shows "pass_within i n request (router_step r s (Settle i outcome aborted now))"
proof -
  from assms(1) obtain p where p: "passes s i = Some p" "pass_rank (passState p) \<le> Suc n"
    "passRequest p = request" by (auto simp: pass_within_def)
  show ?thesis
  proof (cases "passState p")
    case (Calling t gen u)
    then show ?thesis using p assms(2)
      by (auto simp: pass_within_def router_step_passes Let_def simp del: router_step.simps
          split: target.splits sum.splits)
  qed (use p assms(2) in \<open>auto simp: pass_within_def\<close>)
qed

lemma Resume_rank:
  assumes "pass_within i 2 request s"
  shows "pass_within i 1 request (router_step r s (Resume i aborted now))"
proof -
  from assms obtain p where p: "passes s i = Some p" "pass_rank (passState p) \<le> 2"
    "passRequest p = request" by (auto simp: pass_within_def)
  show ?thesis
  proof (cases "passState p")
    case (PrimaryFailed e)
    show ?thesis
    proof (cases rule: route_catch_cases [of r e aborted p now s])
      case stop
      with p PrimaryFailed show ?thesis
        by (auto simp: pass_within_def router_step_passes simp del: router_step.simps)
    next
      case (switch m out s')
      from switch(3) have "pass_rank (passState (fst (route_catch r e aborted now p s))) \<le> 1 \<and>
          passRequest (fst (route_catch r e aborted now p s)) = request"
        using p switch(4) by (elim call_begin_cases) auto
      with p PrimaryFailed show ?thesis
        by (auto simp: pass_within_def router_step_passes simp del: router_step.simps)
    qed
  next
    case (Calling t gen u)
    then show ?thesis using p by (cases t) (auto simp: pass_within_def)
  qed (use p in \<open>auto simp: pass_within_def\<close>)
qed

subsection \<open>A concrete router\<close>

definition demo_router :: ProviderRouter where
  "demo_router = \<lparr>primaryTarget = \<lparr>targetName = js ''ollama'', hasStream = True\<rparr>,
     fallbackTarget = Some \<lparr>targetName = js ''openai'', hasStream = True,
                            modelMap = [js ''local'' \<mapsto> js ''hosted'']\<rparr>\<rparr>"

definition demo_request :: ChatRequest where
  "demo_request = \<lparr>model = js ''local'', messages = []\<rparr>"

definition demo_start :: router_state where
  "demo_start = new_router (\<lambda>_. demo_breaker)"

text \<open>A stream whose primary fails before it wrote anything, and whose fallback writes once.\<close>

definition demo_events :: "router_event list" where
  "demo_events =
     [Route 0 ModeStream demo_request False 1, Settle 0 (Inl demo_error) False 2,
      Resume 0 False 2, Delta 0 False (js ''hi'') False False]"

lemmas demo_router_defs =
  demo_router_def demo_request_def demo_start_def demo_events_def demo_breaker_def demo_error_def

lemma demo_fresh: "fresh_breakers (\<lambda>_. demo_breaker)"
proof -
  have "newCircuitBreaker (Num 1) (Num 1000) = Inr demo_breaker"
    by (simp add: newCircuitBreaker_def demo_breaker_def int_of_number_def)
  then show ?thesis by (auto simp: fresh_breakers_def)
qed

lemma demo_pass:
  "\<exists>p. passes (run (router_step demo_router) demo_start demo_events) 0 = Some p \<and>
     passState p = Calling Secondary 0 2 \<and> passRequest p = demo_request \<and>
     invoked p = [(Primary, demo_request), (Secondary, demo_request\<lparr>model := js ''hosted''\<rparr>)] \<and>
     written p = [(Secondary, js ''hi'')]"
  by (simp add: demo_router_defs new_router_def route_begin_def route_catch_def call_begin_def
      call_end_def invoke_def consumeDelta_def fallback_model_def canFallback_def breaker_defs
      isIgnoredError_def Let_def)

section \<open>Properties\<close>

text \<open>
  C16: however routing passes interleave, each target's circuit runs as the circuit breaker
  specifies. The circuit of a target with the calls in flight to it is always a state that
  the breaker's own step relation reaches from a new breaker; in particular a half-open
  circuit has exactly one pass whose call counts as the probe.
\<close>

theorem router_refines_breakers:
  assumes "fresh_breakers bs" and "s = run (router_step r) (new_router bs) evs"
  shows "breaker_init (circuit_view t (new_router bs)) \<and>
         (breaker_step isRetryableProviderError isIgnoredError)\<^sup>*\<^sup>*
           (circuit_view t (new_router bs)) (circuit_view t s) \<and>
         (circuitState (circuits s t) = HalfOpen \<longrightarrow>
            (\<exists>!i. \<exists>u. in_flight s i = Some (t, generation (circuits s t), u)))"
proof -
  have init: "breaker_init (circuit_view t (new_router bs))"
    using assms(1) by (rule circuit_view_init)
  have reach: "router_breaker_step\<^sup>*\<^sup>* (circuit_view t (new_router bs)) (circuit_view t s)"
    unfolding assms(2) by (rule circuit_view_run)
  have inv: "breaker_inv (circuit_view t s)" using init reach by (rule breaker_sys.reachable_inv)
  have "sys_calls (circuit_view t s) i = Some g \<longleftrightarrow> (\<exists>u. in_flight s i = Some (t, g, u))" for i g
    by (auto simp: circuit_view_def split: option.splits if_splits)
  moreover have "\<exists>!i. sys_calls (circuit_view t s) i = Some (generation (circuits s t))"
    if "circuitState (circuits s t) = HalfOpen"
    using breaker_invD(4) [OF inv] that
    by (simp add: live_calls_def set_eq_iff circuit_view_def) metis
  ultimately show ?thesis using init reach by simp
qed

theorem router_refines_breakers_witness:
  "breaker_init (circuit_view Primary demo_start) \<and>
   (breaker_step isRetryableProviderError isIgnoredError)\<^sup>*\<^sup>* (circuit_view Primary demo_start)
     (circuit_view Primary (run (router_step demo_router) demo_start demo_events))"
  using router_refines_breakers [OF demo_fresh refl, of Primary] by (simp add: demo_start_def)

text \<open>
  a routing pass calls each target at most once, the primary first and with the request
  as it was submitted, the fallback with only the model replaced by its explicit mapping. A
  target that is not configured, or a model that is not mapped, is never called.
\<close>

theorem router_calls_each_target_once:
  assumes "passes (run (router_step r) (new_router bs) evs) i = Some p"
  shows "distinct (map fst (invoked p)) \<and> sorted_wrt (\<lambda>a b. fst a = Primary) (invoked p) \<and>
         (\<forall>req. (Primary, req) \<in> set (invoked p) \<longrightarrow> req = passRequest p) \<and>
         (\<forall>req. (Secondary, req) \<in> set (invoked p) \<longrightarrow>
            (\<exists>f m. fallbackTarget r = Some f \<and> modelMap f (model (passRequest p)) = Some m \<and>
               m \<noteq> [] \<and> req = (passRequest p)\<lparr>model := m\<rparr>))"
proof -
  have "invoked_ok r p" using run_pass_ok [OF assms] by (simp add: pass_ok_def)
  then show ?thesis
    by (auto simp: invoked_ok_def primary_only_def elim!: fallback_model_Some)
qed

theorem router_calls_each_target_once_witness:
  "\<exists>p. passes (run (router_step demo_router) (new_router (\<lambda>_. demo_breaker)) demo_events) 0 = Some p \<and>
     distinct (map fst (invoked p)) \<and>
     (Secondary, demo_request\<lparr>model := js ''hosted''\<rparr>) \<in> set (invoked p)"
proof -
  from demo_pass obtain p where p:
    "passes (run (router_step demo_router) (new_router (\<lambda>_. demo_breaker)) demo_events) 0 = Some p"
    "(Secondary, demo_request\<lparr>model := js ''hosted''\<rparr>) \<in> set (invoked p)"
    by (auto simp: demo_start_def)
  with router_calls_each_target_once [OF p(1)] show ?thesis by blast
qed

text \<open>
  C2: the output of two providers is never mixed. Every delta the consumer of a pass was given
  comes from one and the same target, the one invoked last, so once a write has been attempted
  no other provider is called; a pass that is not a stream writes nothing.
\<close>

theorem router_never_mixes_output:
  assumes "passes (run (router_step r) (new_router bs) evs) i = Some p"
    and "(t, delta) \<in> set (written p)"
  shows "(\<forall>t' delta'. (t', delta') \<in> set (written p) \<longrightarrow> t' = t) \<and>
         (\<exists>req before. invoked p = before @ [(t, req)]) \<and> passMode p = ModeStream"
proof -
  have ok: "written_ok p" using run_pass_ok [OF assms(1)] by (simp add: pass_ok_def)
  then have "t' = fst (last (invoked p))" if "(t', d) \<in> set (written p)" for t' d
    using that by (auto simp: written_ok_def)
  moreover have "invoked p \<noteq> []" "passMode p = ModeStream"
    using ok assms(2) by (cases "passMode p"; auto simp: written_ok_def)+
  then have "\<exists>before. invoked p = before @ [(fst (last (invoked p)), snd (last (invoked p)))]"
    by (metis append_butlast_last_id prod.collapse)
  ultimately show ?thesis using assms(2) \<open>passMode p = ModeStream\<close> by metis
qed

theorem router_never_mixes_output_witness:
  "\<exists>p. passes (run (router_step demo_router) (new_router (\<lambda>_. demo_breaker)) demo_events) 0 = Some p \<and>
     (\<exists>req before. invoked p = before @ [(Secondary, req)]) \<and> passMode p = ModeStream"
proof -
  from demo_pass obtain p where p:
    "passes (run (router_step demo_router) (new_router (\<lambda>_. demo_breaker)) demo_events) 0 = Some p"
    "(Secondary, js ''hi'') \<in> set (written p)"
    by (auto simp: demo_start_def)
  from router_never_mixes_output [OF p] p(1) show ?thesis by blast
qed

text \<open>
  C24: the fallback policy. After the primary has failed the fallback is tried exactly when the
  request is not cancelled, the error is transient, a stream has written nothing, and the
  fallback maps the model to a non-empty name; otherwise the pass ends with the primary's
  error, or with the cancellation. When the fallback is tried, its own circuit admits the call
  or the pass ends with the fallback's circuit error.
\<close>

theorem router_fallback_policy:
  assumes "s = run (router_step r) (new_router bs) evs"
    and "passes s i = Some p" and "passState p = PrimaryFailed e"
    and "s' = router_step r s (Resume i aborted now)"
  shows "if \<not> aborted \<and> isRetryableProviderError e \<and> written p = [] \<and>
            fallback_model r (model (passRequest p)) \<noteq> None
         then (case execute_begin now (circuits s Secondary) of
                 Inr (gen, b) \<Rightarrow> circuits s' = (circuits s)(Secondary := b) \<and>
                   map_option passState (passes s' i) = Some (Calling Secondary gen now)
               | Inl (CircuitOpenError ms) \<Rightarrow> circuits s' = circuits s \<and>
                   map_option passState (passes s' i) = Some (Returned (Inl
                     (App (ProviderCircuitOpenError (name_of r Secondary) ms))))
               | Inl _ \<Rightarrow> False)
         else s' = s\<lparr>passes := (passes s)(i \<mapsto> p\<lparr>passState :=
                      Returned (Inl (if aborted then RequestAbortedError else e))\<rparr>)\<rparr>"
proof -
  have "written_ok p" using run_pass_ok [of r bs evs i p] assms(1,2) by (simp add: pass_ok_def)
  then have allowed: "fallback_allowed r e aborted p \<longleftrightarrow> \<not> aborted \<and> isRetryableProviderError e \<and>
      written p = [] \<and> fallback_model r (model (passRequest p)) \<noteq> None"
    by (cases "passMode p") (auto simp: fallback_allowed_def canFallback_def written_ok_def)
  show ?thesis
  proof (cases rule: route_catch_cases [of r e aborted p now s])
    case stop
    then show ?thesis using assms(2-4) allowed by auto
  next
    case (switch m out s1)
    have yes: "\<not> aborted \<and> isRetryableProviderError e \<and> written p = [] \<and>
        fallback_model r (model (passRequest p)) \<noteq> None" using switch(1) allowed by blast
    from switch(3) show ?thesis
    proof (cases rule: call_begin_cases)
      case (rejected e')
      then obtain ms where "e' = CircuitOpenError ms"
        by (auto simp: execute_begin_def Let_def split: if_splits)
      with rejected switch(4) assms(2-4) yes show ?thesis by simp
    next
      case (admitted gen b)
      with switch(4) assms(2-4) yes show ?thesis by simp
    qed
  qed
qed

theorem router_fallback_policy_witness:
  "\<exists>s'. s' = router_step demo_router
      (run (router_step demo_router) (new_router (\<lambda>_. demo_breaker)) (take 2 demo_events)) (Resume 0 False 2) \<and>
     map_option passState (passes s' 0) = Some (Calling Secondary 0 2)"
proof -
  let ?s = "run (router_step demo_router) (new_router (\<lambda>_. demo_breaker)) (take 2 demo_events)"
  have "\<exists>p. passes ?s 0 = Some p \<and> passState p = PrimaryFailed demo_error \<and> written p = [] \<and>
      model (passRequest p) = js ''local'' \<and>
      execute_begin 2 (circuits ?s Secondary) = Inr (0, demo_breaker)"
    by (simp add: demo_router_defs new_router_def route_begin_def call_begin_def call_end_def
        invoke_def breaker_defs isIgnoredError_def Let_def)
  then obtain p where "passes ?s 0 = Some p" "passState p = PrimaryFailed demo_error" "written p = []"
    "model (passRequest p) = js ''local''" "execute_begin 2 (circuits ?s Secondary) = Inr (0, demo_breaker)"
    by blast
  with router_fallback_policy [OF refl this(1,2) refl, of False 2] show ?thesis
    by (simp add: demo_error_def fallback_model_def demo_router_def)
qed

text \<open>
  every started provider call is accounted for. After any interleaving of passes, for each
  class of providers and modes the \<open>provider_start\<close> events are the \<open>provider_end\<close> events plus the
  calls still in flight, and a call rejected by its circuit is never counted as one.
\<close>

theorem router_metrics_balance:
  "length (filter (starts_of P) (routerMetrics (run (router_step r) (new_router bs) evs))) =
   length (filter (ends_of P) (routerMetrics (run (router_step r) (new_router bs) evs))) +
   card (in_flight_to r P (run (router_step r) (new_router bs) evs))"
proof -
  have "in_flight (new_router bs) = Map.empty" by (auto simp: in_flight_def new_router_def)
  then have "metrics_balanced r (new_router bs)"
    by (simp add: metrics_balanced_def in_flight_to_def) (simp add: new_router_def)
  from router_metrics.run_inv [OF this, of evs] show ?thesis
    by (simp add: metrics_balanced_def)
qed

text \<open>
  a cancelled request or a failed consumer says nothing about a provider's health. When a
  call settles under cancellation, or with the consumer's error, no circuit counts a failure,
  no circuit opens that was closed and none closes that was not, and the pass then ends with
  that error: it never falls back.
\<close>

theorem router_cancellation_harmless:
  assumes "passes s i = Some p" and "passState p = Calling t gen u"
    and "aborted \<or> outcome = Inl StreamConsumerError \<and> (passMode p = ModeChat \<or> streams r t)"
    and "s' = run (router_step r) s [Settle i outcome aborted now, Resume i aborted later]"
  shows "(\<forall>t'. consecutiveFailures (circuits s' t') = consecutiveFailures (circuits s t') \<and>
            (circuitState (circuits s' t') = Closed) = (circuitState (circuits s t') = Closed)) \<and>
         map_option passState (passes s' i) =
           Some (Returned (Inl (if aborted then RequestAbortedError else StreamConsumerError)))"
proof -
  let ?e = "if aborted then RequestAbortedError else StreamConsumerError"
  have "\<exists>s1. router_step r s (Settle i outcome aborted now) = s1 \<and>
      circuits s1 = (circuits s)(t :=
        execute_end isRetryableProviderError isIgnoredError now gen (Inl ?e :: call_result) (circuits s t)) \<and>
      passes s1 i = Some (p\<lparr>passState := (case t of Primary \<Rightarrow> PrimaryFailed ?e | Secondary \<Rightarrow> Returned (Inl ?e))\<rparr>)"
    using assms(1-3) by (cases t; cases aborted) (auto simp: call_end_def invoke_def Let_def)
  then obtain s1 where s1: "router_step r s (Settle i outcome aborted now) = s1"
    "circuits s1 = (circuits s)(t :=
        execute_end isRetryableProviderError isIgnoredError now gen (Inl ?e :: call_result) (circuits s t))"
    "passes s1 i = Some (p\<lparr>passState := (case t of Primary \<Rightarrow> PrimaryFailed ?e | Secondary \<Rightarrow> Returned (Inl ?e))\<rparr>)"
    by blast
  have s': "circuits s' = circuits s1" "map_option passState (passes s' i) = Some (Returned (Inl ?e))"
    using s1 assms(4) by (cases t; auto simp: route_catch_def throwIfCancelled_def)+
  have "consecutiveFailures (circuits s1 t') = consecutiveFailures (circuits s t') \<and>
      (circuitState (circuits s1 t') = Closed) = (circuitState (circuits s t') = Closed)" for t'
    using s1(2) by (auto simp: isIgnoredError_def recordIgnored_def)
  with s' show ?thesis by simp
qed

theorem router_cancellation_harmless_witness:
  "map_option passState (passes (run (router_step demo_router)
      (run (router_step demo_router) demo_start demo_events) [Settle 0 (Inr None) True 9, Resume 0 True 9]) 0)
   = Some (Returned (Inl RequestAbortedError))"
proof -
  from demo_pass obtain p where "passes (run (router_step demo_router) demo_start demo_events) 0 = Some p"
    "passState p = Calling Secondary 0 2" by blast
  from router_cancellation_harmless [OF this _ refl, of True "Inr None" demo_router 9 9] show ?thesis
    by simp
qed



end
