(* ===== verification/Concurrency_Limiter.thy ===== *)
theory Concurrency_Limiter
  imports App_Errors Telemetry
begin

text \<open>
  The process-local semaphore of \<open>src/concurrency/in-memory-concurrency-limiter.ts\<close>. An
  acquisition is named by \<open>'w\<close>: the name stands for the identity of its \<open>PendingAcquire\<close>
  object, of its promise and of its permit. The promise of an acquisition settles at once
  (\<open>acquire\<close> returns or throws), or later, when a permit is released to it, its timer
  fires or its signal aborts; each of those callbacks is one synchronous segment and one
  event of \<open>limiter_step\<close>, in any order. A permit carries its own \<open>released\<close> flag, as the
  closure in \<open>admit\<close> does.
\<close>

section \<open>Definitions\<close>

subsection \<open>State and operations\<close>

record ConcurrencyPermit =
  waitTimeMs :: time
  activeAtAdmission :: int
  queuedAtAdmission :: int

record 'w PendingAcquire =
  waiter :: 'w
  enqueuedAt :: time

record LimiterOptions =
  maxConcurrent :: int
  maxQueueSize :: int
  waitTimeoutMs :: int

record 'w limiter =
  options :: LimiterOptions
  active :: int
  queue :: "'w PendingAcquire list"
  admitted :: int
  rejected :: int
  timedOut :: int
  aborted :: int
  totalWaitTimeMs :: time
  maxWaitTimeMs :: time

record ConcurrencySnapshot =
  snap_active :: int
  snap_queued :: int
  snap_admitted :: int
  snap_rejected :: int
  snap_timedOut :: int
  snap_aborted :: int
  snap_totalWaitTimeMs :: time
  snap_maxWaitTimeMs :: time

definition validateOptions :: "number \<Rightarrow> number \<Rightarrow> number \<Rightarrow> error + LimiterOptions" where
  "validateOptions mc mq wt =
     (if \<not> number_isInteger mc \<or> number_less mc (Num 1) then
        Inl (OtherError (js ''maxConcurrent must be a positive integer''))
      else if \<not> number_isInteger mq \<or> number_less mq (Num 0) then
        Inl (OtherError (js ''maxQueueSize must be a non-negative integer''))
      else if \<not> number_isInteger wt \<or> number_less wt (Num 1) then
        Inl (OtherError (js ''waitTimeoutMs must be a positive integer''))
      else Inr \<lparr>maxConcurrent = int_of_number mc, maxQueueSize = int_of_number mq,
                waitTimeoutMs = int_of_number wt\<rparr>)"

definition newLimiter :: "LimiterOptions \<Rightarrow> 'w limiter" where
  "newLimiter opts =
     \<lparr>options = opts, active = 0, queue = [], admitted = 0, rejected = 0, timedOut = 0,
      aborted = 0, totalWaitTimeMs = 0, maxWaitTimeMs = 0\<rparr>"

definition limiterSnapshot :: "'w limiter \<Rightarrow> ConcurrencySnapshot" where
  "limiterSnapshot L =
     \<lparr>snap_active = active L, snap_queued = int (length (queue L)), snap_admitted = admitted L,
      snap_rejected = rejected L, snap_timedOut = timedOut L, snap_aborted = aborted L,
      snap_totalWaitTimeMs = totalWaitTimeMs L, snap_maxWaitTimeMs = maxWaitTimeMs L\<rparr>"

definition admit :: "time \<Rightarrow> 'w limiter \<Rightarrow> 'w limiter \<times> ConcurrencyPermit \<times> MetricEvent list" where
  "admit wait L =
     (let L1 = L\<lparr>admitted := admitted L + 1, totalWaitTimeMs := totalWaitTimeMs L + wait,
                 maxWaitTimeMs := max (maxWaitTimeMs L) wait\<rparr>
      in (L1,
          \<lparr>waitTimeMs = wait, activeAtAdmission = active L1,
           queuedAtAdmission = int (length (queue L1))\<rparr>,
          [Admission Admitted wait]))"

datatype acquisition = Granted ConcurrencyPermit | Refused error | Waiting

definition acquire ::
  "'w \<Rightarrow> bool \<Rightarrow> time \<Rightarrow> 'w limiter \<Rightarrow> 'w limiter \<times> acquisition \<times> MetricEvent list" where
  "acquire w signalAborted now L =
     (if signalAborted then
        (L\<lparr>aborted := aborted L + 1\<rparr>, Refused RequestAbortedError, [Admission AdmissionCancelled 0])
      else if active L < maxConcurrent (options L) then
        (let (L1, p, ev) = admit 0 (L\<lparr>active := active L + 1\<rparr>) in (L1, Granted p, ev))
      else if int (length (queue L)) \<ge> maxQueueSize (options L) then
        (L\<lparr>rejected := rejected L + 1\<rparr>,
         Refused (App (ConcurrencyQueueFullError (maxConcurrent (options L)) (maxQueueSize (options L)))),
         [Admission QueueFull 0])
      else
        (L\<lparr>queue := queue L @ [\<lparr>waiter = w, enqueuedAt = now\<rparr>]\<rparr>, Waiting, []))"

text \<open>\<open>remove\<close>: take the pending acquisition out of the queue, if it is still there.\<close>

definition removePending :: "'w \<Rightarrow> 'w limiter \<Rightarrow> ('w PendingAcquire \<times> 'w limiter) option" where
  "removePending w L =
     (case find (\<lambda>p. waiter p = w) (queue L) of
        None \<Rightarrow> None
      | Some p \<Rightarrow> Some (p, L\<lparr>queue := filter (\<lambda>q. waiter q \<noteq> w) (queue L)\<rparr>))"

definition onAbort ::
  "'w \<Rightarrow> time \<Rightarrow> 'w limiter \<Rightarrow> 'w limiter \<times> error option \<times> MetricEvent list" where
  "onAbort w now L =
     (case removePending w L of
        None \<Rightarrow> (L, None, [])
      | Some (p, L1) \<Rightarrow>
          (L1\<lparr>aborted := aborted L1 + 1\<rparr>, Some RequestAbortedError,
           [Admission AdmissionCancelled (now - enqueuedAt p)]))"

definition onTimeout ::
  "'w \<Rightarrow> time \<Rightarrow> 'w limiter \<Rightarrow> 'w limiter \<times> error option \<times> MetricEvent list" where
  "onTimeout w now L =
     (case removePending w L of
        None \<Rightarrow> (L, None, [])
      | Some (p, L1) \<Rightarrow>
          (L1\<lparr>timedOut := timedOut L1 + 1\<rparr>,
           Some (App (ConcurrencyWaitTimeoutError (waitTimeoutMs (options L1)))),
           [Admission AdmissionTimeout (now - enqueuedAt p)]))"

text \<open>\<open>release\<close> hands the slot to the oldest waiter, or gives it back.\<close>

definition releaseSlot ::
  "time \<Rightarrow> 'w limiter \<Rightarrow> 'w limiter \<times> ('w \<times> ConcurrencyPermit) option \<times> MetricEvent list" where
  "releaseSlot now L =
     (case queue L of
        [] \<Rightarrow> (L\<lparr>active := active L - 1\<rparr>, None, [])
      | next # rest \<Rightarrow>
          (let (L1, p, ev) = admit (now - enqueuedAt next) (L\<lparr>queue := rest\<rparr>)
           in (L1, Some (waiter next, p), ev)))"

subsection \<open>The limiter with its clients\<close>

text \<open>
  \<open>permits\<close> holds the \<open>released\<close> flag of every permit handed out and \<open>outcomes\<close> how each
  acquisition settled. \<open>arrivals\<close>, \<open>handed\<close>, \<open>requests\<close> and \<open>emitted\<close> record the history:
  the acquisitions that had to wait, in order; those a release admitted, in order; the
  number of calls of \<open>acquire\<close>; the metric events.
\<close>

record 'w limiter_system =
  core :: "'w limiter"
  permits :: "'w \<rightharpoonup> bool"
  outcomes :: "'w \<rightharpoonup> acquisition"
  arrivals :: "'w list"
  handed :: "'w list"
  requests :: int
  emitted :: "MetricEvent list"

datatype 'w limiter_event =
    Acquire 'w bool time
  | AbortSignal 'w time
  | TimerFired 'w time
  | Release 'w time

definition settleRefused ::
  "'w \<Rightarrow> 'w limiter \<times> error option \<times> MetricEvent list \<Rightarrow> 'w limiter_system \<Rightarrow> 'w limiter_system" where
  "settleRefused w r s =
     (case r of (L, res, ev) \<Rightarrow>
        (case res of
           None \<Rightarrow> s\<lparr>core := L, emitted := emitted s @ ev\<rparr>
         | Some e \<Rightarrow> s\<lparr>core := L, outcomes := (outcomes s)(w \<mapsto> Refused e),
                       emitted := emitted s @ ev\<rparr>))"

fun limiter_step :: "'w limiter_system \<Rightarrow> 'w limiter_event \<Rightarrow> 'w limiter_system" where
  "limiter_step s (Acquire w ab now) =
     (case acquire w ab now (core s) of (L, res, ev) \<Rightarrow>
        (case res of
           Granted p \<Rightarrow>
             s\<lparr>core := L, permits := (permits s)(w \<mapsto> False), outcomes := (outcomes s)(w \<mapsto> Granted p),
               requests := requests s + 1, emitted := emitted s @ ev\<rparr>
         | Refused e \<Rightarrow>
             s\<lparr>core := L, outcomes := (outcomes s)(w \<mapsto> Refused e), requests := requests s + 1,
               emitted := emitted s @ ev\<rparr>
         | Waiting \<Rightarrow>
             s\<lparr>core := L, arrivals := arrivals s @ [w], requests := requests s + 1,
               emitted := emitted s @ ev\<rparr>))"
| "limiter_step s (AbortSignal w now) = settleRefused w (onAbort w now (core s)) s"
| "limiter_step s (TimerFired w now) = settleRefused w (onTimeout w now (core s)) s"
| "limiter_step s (Release w now) =
     (if permits s w = Some False then
        (case releaseSlot now (core s) of (L, res, ev) \<Rightarrow>
           (case res of
              None \<Rightarrow> s\<lparr>core := L, permits := (permits s)(w \<mapsto> True), emitted := emitted s @ ev\<rparr>
            | Some (v, p) \<Rightarrow>
                s\<lparr>core := L, permits := (permits s)(w \<mapsto> True, v \<mapsto> False),
                  outcomes := (outcomes s)(v \<mapsto> Granted p), handed := handed s @ [v],
                  emitted := emitted s @ ev\<rparr>))
      else s)"

definition limiter_start :: "LimiterOptions \<Rightarrow> 'w limiter_system" where
  "limiter_start opts =
     \<lparr>core = newLimiter opts, permits = Map.empty, outcomes = Map.empty, arrivals = [],
      handed = [], requests = 0, emitted = []\<rparr>"

text \<open>Every call of \<open>acquire\<close> makes a new promise: its name has not been used.\<close>

definition fresh_acquisition :: "'w limiter_system \<Rightarrow> 'w limiter_event \<Rightarrow> bool" where
  "fresh_acquisition s e =
     (case e of
        Acquire w _ _ \<Rightarrow> outcomes s w = None \<and> w \<notin> waiter ` set (queue (core s))
      | _ \<Rightarrow> True)"

fun fresh_run :: "'w limiter_system \<Rightarrow> 'w limiter_event list \<Rightarrow> bool" where
  "fresh_run s [] = True"
| "fresh_run s (e # es) = (fresh_acquisition s e \<and> fresh_run (limiter_step s e) es)"

subsection \<open>Invariants\<close>

definition holders :: "'w limiter_system \<Rightarrow> 'w set" where
  "holders s = {w. permits s w = Some False}"

definition admission_count :: "AdmissionOutcome \<Rightarrow> MetricEvent list \<Rightarrow> int" where
  "admission_count oc es =
     int (length (filter (\<lambda>e. case e of Admission oc' _ \<Rightarrow> oc' = oc | _ \<Rightarrow> False) es))"

definition capacity_inv :: "'w limiter_system \<Rightarrow> bool" where
  "capacity_inv s \<longleftrightarrow>
     (let L = core s in
      finite (holders s) \<and> active L = int (card (holders s)) \<and>
      active L \<le> maxConcurrent (options L) \<and>
      int (length (queue L)) \<le> maxQueueSize (options L) \<and>
      (queue L \<noteq> [] \<longrightarrow> active L = maxConcurrent (options L)))"

definition waiting_inv :: "'w limiter_system \<Rightarrow> bool" where
  "waiting_inv s \<longleftrightarrow>
     distinct (map waiter (queue (core s))) \<and>
     (\<forall>w \<in> waiter ` set (queue (core s)). outcomes s w = None \<and> permits s w = None) \<and>
     (\<forall>w. permits s w \<noteq> None \<longrightarrow> outcomes s w \<noteq> None) \<and>
     subseq (handed s @ map waiter (queue (core s))) (arrivals s)"

definition accounting_inv :: "'w limiter_system \<Rightarrow> bool" where
  "accounting_inv s \<longleftrightarrow>
     (let L = core s in
      requests s = admitted L + rejected L + timedOut L + aborted L + int (length (queue L)) \<and>
      admitted L = admission_count Admitted (emitted s) \<and>
      rejected L = admission_count QueueFull (emitted s) \<and>
      timedOut L = admission_count AdmissionTimeout (emitted s) \<and>
      aborted L = admission_count AdmissionCancelled (emitted s))"

definition options_ok :: "LimiterOptions \<Rightarrow> bool" where
  "options_ok opts \<longleftrightarrow> maxConcurrent opts \<ge> 1 \<and> maxQueueSize opts \<ge> 0 \<and> waitTimeoutMs opts \<ge> 1"

definition limiter_inv :: "'w limiter_system \<Rightarrow> bool" where
  "limiter_inv s \<longleftrightarrow>
     options_ok (options (core s)) \<and> capacity_inv s \<and> waiting_inv s \<and> accounting_inv s"

section \<open>Lemmas\<close>

lemma length_filter_distinct_key:
  "distinct (map f xs) \<Longrightarrow> w \<in> f ` set xs \<Longrightarrow> length (filter (\<lambda>q. f q \<noteq> w) xs) + 1 = length xs"
proof (induction xs)
  case (Cons x xs)
  show ?case
  proof (cases "f x = w")
    case True
    with Cons.prems(1) have "filter (\<lambda>q. f q \<noteq> w) xs = xs"
      by (auto simp: filter_id_conv image_iff)
    with True show ?thesis by simp
  qed (use Cons in auto)
qed simp

lemma removePending_None: "removePending w L = None \<longleftrightarrow> w \<notin> waiter ` set (queue L)"
  by (auto simp: removePending_def find_None_iff find_Some_iff split: option.splits)

lemma removePending_Some:
  assumes "removePending w L = Some (p, L1)"
  shows "p \<in> set (queue L)" and "waiter p = w"
    and "L1 = L\<lparr>queue := filter (\<lambda>q. waiter q \<noteq> w) (queue L)\<rparr>"
  using assms by (auto simp: removePending_def find_Some_iff split: option.splits)

lemma admission_count_simps [simp]:
  "admission_count oc [] = 0"
  "admission_count oc (es @ fs) = admission_count oc es + admission_count oc fs"
  "admission_count oc [Admission oc' d] = (if oc' = oc then 1 else 0)"
  by (simp_all add: admission_count_def)

subsection \<open>The effect of each event\<close>

text \<open>The four ways an acquisition can go.\<close>

lemma acquire_step_cases:
  obtains
    (aborted) "ab" "limiter_step s (Acquire w ab now) =
        s\<lparr>core := (core s)\<lparr>aborted := aborted (core s) + 1\<rparr>,
          outcomes := (outcomes s)(w \<mapsto> Refused RequestAbortedError),
          requests := requests s + 1, emitted := emitted s @ [Admission AdmissionCancelled 0]\<rparr>"
  | (granted) p where "\<not> ab" "active (core s) < maxConcurrent (options (core s))"
      "limiter_step s (Acquire w ab now) =
        s\<lparr>core := (core s)\<lparr>active := active (core s) + 1, admitted := admitted (core s) + 1,
              totalWaitTimeMs := totalWaitTimeMs (core s) + 0,
              maxWaitTimeMs := max (maxWaitTimeMs (core s)) 0\<rparr>,
          permits := (permits s)(w \<mapsto> False), outcomes := (outcomes s)(w \<mapsto> Granted p),
          requests := requests s + 1, emitted := emitted s @ [Admission Admitted 0]\<rparr>"
  | (full) e where "\<not> ab" "\<not> active (core s) < maxConcurrent (options (core s))"
      "int (length (queue (core s))) \<ge> maxQueueSize (options (core s))"
      "limiter_step s (Acquire w ab now) =
        s\<lparr>core := (core s)\<lparr>rejected := rejected (core s) + 1\<rparr>,
          outcomes := (outcomes s)(w \<mapsto> Refused e),
          requests := requests s + 1, emitted := emitted s @ [Admission QueueFull 0]\<rparr>"
  | (waits) "\<not> ab" "\<not> active (core s) < maxConcurrent (options (core s))"
      "int (length (queue (core s))) < maxQueueSize (options (core s))"
      "limiter_step s (Acquire w ab now) =
        s\<lparr>core := (core s)\<lparr>queue := queue (core s) @ [\<lparr>waiter = w, enqueuedAt = now\<rparr>]\<rparr>,
          arrivals := arrivals s @ [w], requests := requests s + 1\<rparr>"
proof -
  consider "ab" | "\<not> ab" "active (core s) < maxConcurrent (options (core s))"
    | "\<not> ab" "\<not> active (core s) < maxConcurrent (options (core s))"
      "int (length (queue (core s))) \<ge> maxQueueSize (options (core s))"
    | "\<not> ab" "\<not> active (core s) < maxConcurrent (options (core s))"
      "int (length (queue (core s))) < maxQueueSize (options (core s))"
    by linarith
  then show thesis
  proof cases
    case 1
    then show ?thesis by (intro aborted) (simp_all add: acquire_def)
  next
    case 2
    then show ?thesis
      by (intro granted) (simp_all add: acquire_def admit_def Let_def)
  next
    case 3
    then show ?thesis by (intro full) (simp_all add: acquire_def)
  next
    case 4
    then show ?thesis by (intro waits) (simp_all add: acquire_def)
  qed
qed

text \<open>An abort or a timer either finds its acquisition settled or takes it out of the queue.\<close>

definition refuse_waiter ::
  "'w \<Rightarrow> error \<Rightarrow> ('w limiter \<Rightarrow> 'w limiter) \<Rightarrow> MetricEvent \<Rightarrow> 'w limiter_system \<Rightarrow> 'w limiter_system" where
  "refuse_waiter w e count ev s =
     s\<lparr>core := count ((core s)\<lparr>queue := filter (\<lambda>q. waiter q \<noteq> w) (queue (core s))\<rparr>),
       outcomes := (outcomes s)(w \<mapsto> Refused e), emitted := emitted s @ [ev]\<rparr>"

lemma limiter_step_settled:
  assumes "w \<notin> waiter ` set (queue (core s))"
  shows "limiter_step s (AbortSignal w now) = s" and "limiter_step s (TimerFired w now) = s"
  using assms removePending_None [of w "core s"]
  by (simp_all add: onAbort_def onTimeout_def settleRefused_def)

lemma limiter_step_refuse:
  assumes "w \<in> waiter ` set (queue (core s))"
  obtains d where
    "limiter_step s (AbortSignal w now) =
       refuse_waiter w RequestAbortedError (\<lambda>L. L\<lparr>aborted := aborted L + 1\<rparr>)
         (Admission AdmissionCancelled d) s"
    "limiter_step s (TimerFired w now) =
       refuse_waiter w (App (ConcurrencyWaitTimeoutError (waitTimeoutMs (options (core s)))))
         (\<lambda>L. L\<lparr>timedOut := timedOut L + 1\<rparr>) (Admission AdmissionTimeout d) s"
proof -
  from assms removePending_None [of w "core s"] obtain p L1 where
    rem: "removePending w (core s) = Some (p, L1)" by auto
  with that [of "now - enqueuedAt p"] removePending_Some(3) [OF rem] show thesis
    by (simp add: onAbort_def onTimeout_def settleRefused_def refuse_waiter_def)
qed

lemma release_step_cases:
  obtains
    (no_permit) "permits s w \<noteq> Some False" "limiter_step s (Release w now) = s"
  | (free) "permits s w = Some False" "queue (core s) = []" "limiter_step s (Release w now) =
      s\<lparr>core := (core s)\<lparr>active := active (core s) - 1\<rparr>, permits := (permits s)(w \<mapsto> True)\<rparr>"
  | (hand_over) v rest p d where "permits s w = Some False" "queue (core s) = v # rest"
      "d = now - enqueuedAt v"
      "p = \<lparr>waitTimeMs = d, activeAtAdmission = active (core s),
            queuedAtAdmission = int (length rest)\<rparr>"
      "limiter_step s (Release w now) =
      s\<lparr>core := (core s)\<lparr>queue := rest, admitted := admitted (core s) + 1,
            totalWaitTimeMs := totalWaitTimeMs (core s) + d,
            maxWaitTimeMs := max (maxWaitTimeMs (core s)) d\<rparr>,
        permits := (permits s)(w \<mapsto> True, waiter v \<mapsto> False),
        outcomes := (outcomes s)(waiter v \<mapsto> Granted p),
        handed := handed s @ [waiter v], emitted := emitted s @ [Admission Admitted d]\<rparr>"
proof (cases "permits s w = Some False")
  case False
  then show thesis by (intro no_permit) simp_all
next
  case True
  show thesis
  proof (cases "queue (core s)")
    case Nil
    with True show thesis by (intro free) (simp_all add: releaseSlot_def)
  next
    case (Cons v rest)
    with True show thesis
      by (intro hand_over) (simp_all add: releaseSlot_def admit_def Let_def)
  qed
qed

declare limiter_step.simps [simp del]

text \<open>Both callbacks of a pending acquisition, as one case distinction.\<close>

lemma refusal_step_cases:
  assumes "e = AbortSignal w now \<or> e = TimerFired w now"
  obtains
    (unchanged) "limiter_step s e = s"
  | (aborted) d where "w \<in> waiter ` set (queue (core s))"
      "limiter_step s e = refuse_waiter w RequestAbortedError (\<lambda>L. L\<lparr>aborted := aborted L + 1\<rparr>)
         (Admission AdmissionCancelled d) s"
  | (timed_out) d err where "w \<in> waiter ` set (queue (core s))"
      "limiter_step s e = refuse_waiter w err (\<lambda>L. L\<lparr>timedOut := timedOut L + 1\<rparr>)
         (Admission AdmissionTimeout d) s"
proof (cases "w \<in> waiter ` set (queue (core s))")
  case False
  with assms show ?thesis by (intro unchanged) (auto simp: limiter_step_settled)
next
  case True
  then obtain d where
    "limiter_step s (AbortSignal w now) =
       refuse_waiter w RequestAbortedError (\<lambda>L. L\<lparr>aborted := aborted L + 1\<rparr>)
         (Admission AdmissionCancelled d) s"
    "limiter_step s (TimerFired w now) =
       refuse_waiter w (App (ConcurrencyWaitTimeoutError (waitTimeoutMs (options (core s)))))
         (\<lambda>L. L\<lparr>timedOut := timedOut L + 1\<rparr>) (Admission AdmissionTimeout d) s"
    by (rule limiter_step_refuse)
  note steps = this
  from assms show ?thesis
  proof
    assume "e = AbortSignal w now"
    with steps(1) True show ?thesis by (intro aborted) simp_all
  next
    assume "e = TimerFired w now"
    with steps(2) True show ?thesis by (intro timed_out) simp_all
  qed
qed

subsection \<open>Each event keeps each invariant\<close>

lemma limiter_event_cases:
  obtains (Acquire) w ab now where "e = Acquire w ab now"
  | (Refusal) w now where "e = AbortSignal w now \<or> e = TimerFired w now"
  | (Release) w now where "e = Release w now"
  by (cases e) auto

lemma waiting_inv_unused:
  assumes "waiting_inv s" and "fresh_acquisition s (Acquire w ab now)"
  shows "permits s w = None" and "outcomes s w = None" and "w \<notin> waiter ` set (queue (core s))"
  using assms by (auto simp: waiting_inv_def fresh_acquisition_def)

lemma waiting_inv_head:
  assumes "waiting_inv s" and "queue (core s) = v # rest"
  shows "permits s (waiter v) = None"
  using assms by (auto simp: waiting_inv_def)

lemma options_unchanged [simp]: "options (core (limiter_step s e)) = options (core s)"
proof (cases e rule: limiter_event_cases)
  case (Acquire w ab now)
  then show ?thesis by (cases rule: acquire_step_cases [of ab s w now]) simp_all
next
  case (Refusal w now)
  then show ?thesis
    by (cases rule: refusal_step_cases [where s = s]) (simp_all add: refuse_waiter_def)
next
  case (Release w now)
  then show ?thesis by (cases rule: release_step_cases [of s w now]) simp_all
qed

lemma refuse_waiter_length:
  assumes "waiting_inv s" and "w \<in> waiter ` set (queue (core s))"
  shows "int (length (filter (\<lambda>q. waiter q \<noteq> w) (queue (core s)))) = int (length (queue (core s))) - 1"
  using length_filter_distinct_key [of waiter "queue (core s)" w] assms
  by (simp add: waiting_inv_def)

lemma refuse_waiter_capacity:
  assumes "capacity_inv s" and "waiting_inv s" and "w \<in> waiter ` set (queue (core s))"
    and "\<And>L. queue (count L) = queue L \<and> active (count L) = active L \<and> options (count L) = options L"
  shows "capacity_inv (refuse_waiter w e count ev s)"
  using assms(1,4) refuse_waiter_length [OF assms(2,3)]
  by (auto simp: capacity_inv_def refuse_waiter_def holders_def Let_def)

lemma refuse_waiter_waiting:
  assumes "waiting_inv s" and "\<And>L. queue (count L) = queue L"
  shows "waiting_inv (refuse_waiter w e count ev s)"
proof -
  have "subseq (map waiter (filter (\<lambda>q. waiter q \<noteq> w) (queue (core s)))) (map waiter (queue (core s)))"
    by (intro subseq_map subseq_filter_left)
  then have "subseq (handed s @ map waiter (filter (\<lambda>q. waiter q \<noteq> w) (queue (core s))))
      (handed s @ map waiter (queue (core s)))"
    by (rule list_emb_append_mono [OF subseq_order.order_refl])
  with assms(1) have "subseq (handed s @ map waiter (filter (\<lambda>q. waiter q \<noteq> w) (queue (core s)))) (arrivals s)"
    unfolding waiting_inv_def by (blast intro: subseq_order.order_trans)
  with assms show ?thesis by (auto simp: waiting_inv_def refuse_waiter_def)
qed

lemma capacity_inv_step [inv_intros]:
  assumes cap: "capacity_inv s" and wait: "waiting_inv s" and fresh: "fresh_acquisition s e"
  shows "capacity_inv (limiter_step s e)"
proof (cases e rule: limiter_event_cases)
  case (Acquire w ab now)
  have w: "permits s w = None" using waiting_inv_unused(1) [OF wait] fresh Acquire by simp
  show ?thesis unfolding Acquire
  proof (cases rule: acquire_step_cases [of ab s w now])
    case (granted p)
    have "holders (limiter_step s (Acquire w ab now)) = insert w (holders s)"
      unfolding granted(3) by (auto simp: holders_def)
    moreover have "w \<notin> holders s" using w by (simp add: holders_def)
    moreover have "queue (core s) = []" using cap granted(2) by (auto simp: capacity_inv_def Let_def)
    ultimately show "capacity_inv (limiter_step s (Acquire w ab now))"
      using cap granted(2,3) by (auto simp: capacity_inv_def Let_def)
  qed (use cap w in \<open>auto simp: capacity_inv_def holders_def Let_def\<close>)
next
  case (Refusal w now)
  then show ?thesis
    by (cases rule: refusal_step_cases [where s = s])
      (use cap wait in \<open>auto intro: refuse_waiter_capacity\<close>)
next
  case (Release w now)
  show ?thesis unfolding Release
  proof (cases rule: release_step_cases [of s w now])
    case free
    have "holders (limiter_step s (Release w now)) = holders s - {w}"
      unfolding free(3) by (auto simp: holders_def)
    moreover have "int (card (holders s - {w})) = int (card (holders s)) - 1"
      using cap free(1) card_Suc_Diff1 [of "holders s" w]
      by (simp add: capacity_inv_def holders_def Let_def)
    ultimately show "capacity_inv (limiter_step s (Release w now))" using cap free(2,3)
      by (simp add: capacity_inv_def Let_def)
  next
    case (hand_over v rest p d)
    have v: "permits s (waiter v) = None" using wait hand_over(2) by (rule waiting_inv_head)
    have "holders (limiter_step s (Release w now)) = insert (waiter v) (holders s - {w})"
      unfolding hand_over(5) using v hand_over(1) by (auto simp: holders_def)
    moreover have "card (insert (waiter v) (holders s - {w})) = card (holders s)"
      using cap v hand_over(1) card_Suc_Diff1 [of "holders s" w]
      by (simp add: capacity_inv_def holders_def Let_def)
    ultimately show "capacity_inv (limiter_step s (Release w now))" using cap hand_over(2,5)
      by (simp add: capacity_inv_def Let_def)
  qed (use cap in simp)
qed

lemma waiting_inv_step [inv_intros]:
  assumes wait: "waiting_inv s" and fresh: "fresh_acquisition s e"
  shows "waiting_inv (limiter_step s e)"
proof (cases e rule: limiter_event_cases)
  case (Acquire w ab now)
  note w = waiting_inv_unused [OF wait fresh [unfolded Acquire]]
  show ?thesis unfolding Acquire
  proof (cases rule: acquire_step_cases [of ab s w now])
    case waits
    then show "waiting_inv (limiter_step s (Acquire w ab now))"
      using wait w subseq_append_snoc [of "handed s @ map waiter (queue (core s))" "arrivals s" w]
      by (auto simp: waiting_inv_def)
  qed (use wait w in \<open>auto simp: waiting_inv_def\<close>)
next
  case (Refusal w now)
  then show ?thesis
    by (cases rule: refusal_step_cases [where s = s])
      (use wait in \<open>auto intro: refuse_waiter_waiting\<close>)
next
  case (Release w now)
  show ?thesis unfolding Release
  proof (cases rule: release_step_cases [of s w now])
    case (hand_over v rest p d)
    then have "w \<notin> waiter ` set (queue (core s))" using wait by (fastforce simp: waiting_inv_def)
    with hand_over wait show "waiting_inv (limiter_step s (Release w now))"
      by (auto simp: waiting_inv_def image_iff)
  qed (use wait in \<open>auto simp: waiting_inv_def\<close>)
qed

lemma accounting_inv_step [inv_intros]:
  assumes acc: "accounting_inv s" and wait: "waiting_inv s"
  shows "accounting_inv (limiter_step s e)"
proof (cases e rule: limiter_event_cases)
  case (Acquire w ab now)
  show ?thesis unfolding Acquire
    by (cases rule: acquire_step_cases [of ab s w now])
      (use acc in \<open>auto simp: accounting_inv_def Let_def\<close>)
next
  case (Refusal w now)
  then show ?thesis
    by (cases rule: refusal_step_cases [where s = s])
      (use acc refuse_waiter_length [OF wait, of w] in
        \<open>auto simp: accounting_inv_def refuse_waiter_def Let_def\<close>)
next
  case (Release w now)
  show ?thesis unfolding Release
    by (cases rule: release_step_cases [of s w now])
      (use acc in \<open>auto simp: accounting_inv_def Let_def\<close>)
qed

lemma limiter_inv_step:
  "limiter_inv s \<Longrightarrow> fresh_acquisition s e \<Longrightarrow> limiter_inv (limiter_step s e)"
  by (simp add: limiter_inv_def inv_intros)

interpretation limiter_run: stepwise_invariant limiter_step limiter_inv fresh_acquisition
  by unfold_locales (rule limiter_inv_step)

lemma limiter_inv_start: "options_ok opts \<Longrightarrow> limiter_inv (limiter_start opts)"
  by (simp add: limiter_inv_def options_ok_def capacity_inv_def waiting_inv_def accounting_inv_def
      limiter_start_def newLimiter_def holders_def Let_def)

lemma fresh_run_append:
  "fresh_run s (es @ fs) \<longleftrightarrow> fresh_run s es \<and> fresh_run (run limiter_step s es) fs"
  by (induction es arbitrary: s) auto

lemma limiter_inv_reachable:
  assumes "options_ok opts" and "fresh_run (limiter_start opts) es"
  shows "limiter_inv (run limiter_step (limiter_start opts) es)"
  using limiter_inv_start [OF assms(1)]
proof (rule limiter_run.run_inv)
  fix pre e post
  assume "es = pre @ e # post"
  with assms(2) show "fresh_acquisition (run limiter_step (limiter_start opts) pre) e"
    by (simp add: fresh_run_append)
qed

lemma options_run [simp]: "options (core (run limiter_step s es)) = options (core s)"
  by (induction es arbitrary: s) simp_all

lemma options_start [simp]: "options (core (limiter_start opts)) = opts"
  by (simp add: limiter_start_def newLimiter_def)

lemma validateOptions_ok:
  assumes "validateOptions mc mq wt = Inr opts"
  shows "options_ok opts"
  using assms
  by (cases mc; cases mq; cases wt)
    (auto simp: validateOptions_def options_ok_def int_of_number_def is_int_rat_def
      split: if_splits)

subsection \<open>Outcomes are final\<close>

lemma outcome_step:
  assumes "waiting_inv s" and "fresh_acquisition s e" and "outcomes s w = Some r"
  shows "outcomes (limiter_step s e) w = Some r"
proof (cases e rule: limiter_event_cases)
  case (Acquire v ab now)
  with assms have "v \<noteq> w" by (auto simp: fresh_acquisition_def)
  then show ?thesis unfolding Acquire
    by (cases rule: acquire_step_cases [of ab s v now]) (use assms in auto)
next
  case (Refusal v now)
  then show ?thesis
    by (cases rule: refusal_step_cases [where s = s])
      (use assms in \<open>auto simp: refuse_waiter_def waiting_inv_def\<close>)
next
  case (Release v now)
  show ?thesis unfolding Release
    by (cases rule: release_step_cases [of s v now])
      (use assms in \<open>auto simp: waiting_inv_def\<close>)
qed

lemma outcome_run:
  assumes "limiter_inv s" and "fresh_run s es" and "outcomes s w = Some r"
  shows "outcomes (run limiter_step s es) w = Some r"
  using assms
proof (induction es arbitrary: s)
  case (Cons e es)
  then have "limiter_inv (limiter_step s e)" by (intro limiter_inv_step) simp_all
  moreover have "outcomes (limiter_step s e) w = Some r"
    using Cons.prems by (intro outcome_step) (simp_all add: limiter_inv_def)
  ultimately show ?case using Cons by simp
qed simp

section \<open>Properties\<close>

text \<open>
  C7: the limiter never exceeds its bounds and never leaves a slot idle while someone waits.
  After any sequence of acquisitions, aborts, timeouts and releases, the number of active
  executions is the number of permits held and at most \<open>maxConcurrent\<close>, the queue has at
  most \<open>maxQueueSize\<close> waiters, and a non-empty queue means every slot is occupied.
\<close>

theorem limiter_capacity:
  assumes "validateOptions mc mq wt = Inr opts" and "fresh_run (limiter_start opts) es"
    and "s = run limiter_step (limiter_start opts) es"
  shows "active (core s) = int (card {w. permits s w = Some False}) \<and>
         0 \<le> active (core s) \<and> active (core s) \<le> maxConcurrent opts \<and>
         int (length (queue (core s))) \<le> maxQueueSize opts \<and>
         (queue (core s) \<noteq> [] \<longrightarrow> active (core s) = maxConcurrent opts)"
proof -
  have "limiter_inv s"
    using limiter_inv_reachable [OF validateOptions_ok [OF assms(1)] assms(2)] assms(3) by simp
  then show ?thesis
    using assms(3) by (auto simp: limiter_inv_def capacity_inv_def holders_def Let_def)
qed

text \<open>Four requests against one slot and two places in the queue, the second one aborted.\<close>

definition demo_limiter_options :: LimiterOptions where
  "demo_limiter_options = \<lparr>maxConcurrent = 1, maxQueueSize = 2, waitTimeoutMs = 50\<rparr>"

definition demo_limiter_events :: "nat limiter_event list" where
  "demo_limiter_events =
     [Acquire 0 False 0, Acquire 1 False 1, Acquire 2 False 2, Acquire 3 False 3,
      AbortSignal 1 4, Release 0 5, Release 0 6]"

lemmas limiter_eval =
  demo_limiter_options_def demo_limiter_events_def limiter_start_def newLimiter_def
  limiter_step.simps acquire_def admit_def releaseSlot_def onAbort_def onTimeout_def
  removePending_def settleRefused_def fresh_acquisition_def Let_def

lemma demo_validateOptions:
  "validateOptions (Num 1) (Num 2) (Num 50) = Inr demo_limiter_options"
  by (simp add: validateOptions_def demo_limiter_options_def int_of_number_def)

lemma demo_fresh_run: "fresh_run (limiter_start demo_limiter_options) demo_limiter_events"
  by (simp add: limiter_eval)

theorem limiter_capacity_witness:
  "active (core (run limiter_step (limiter_start demo_limiter_options) demo_limiter_events)) \<le> 1"
  using limiter_capacity [OF demo_validateOptions demo_fresh_run refl]
  by (simp add: demo_limiter_options_def)

text \<open>
  C21: waiting requests are served in the order they arrived. Over any sequence of events, the
  acquisitions that got their permit from a release, in that order, followed by those still
  queued, form a subsequence of the acquisitions in their order of arrival.
\<close>

theorem limiter_fifo:
  assumes "options_ok opts" and "fresh_run (limiter_start opts) es"
    and "s = run limiter_step (limiter_start opts) es"
  shows "subseq (handed s @ map waiter (queue (core s))) (arrivals s)"
  using limiter_inv_reachable [OF assms(1,2)] assms(3) by (simp add: limiter_inv_def waiting_inv_def)

theorem limiter_fifo_witness:
  "handed (run limiter_step (limiter_start demo_limiter_options) demo_limiter_events) = [2] \<and>
   subseq [2] (arrivals (run limiter_step (limiter_start demo_limiter_options) demo_limiter_events))"
  using limiter_fifo [OF _ demo_fresh_run refl]
  by (simp add: options_ok_def limiter_eval)

text \<open>
  every request is counted exactly once. After any sequence of events the calls of
  \<open>acquire\<close> are those admitted, rejected, timed out or aborted and those still queued, and
  each counter equals the number of metric events of that outcome.
\<close>

theorem limiter_accounting:
  assumes "options_ok opts" and "fresh_run (limiter_start opts) es"
    and "s = run limiter_step (limiter_start opts) es"
  shows "requests s = admitted (core s) + rejected (core s) + timedOut (core s) + aborted (core s)
           + int (length (queue (core s))) \<and>
         admitted (core s) = admission_count Admitted (emitted s) \<and>
         rejected (core s) = admission_count QueueFull (emitted s) \<and>
         timedOut (core s) = admission_count AdmissionTimeout (emitted s) \<and>
         aborted (core s) = admission_count AdmissionCancelled (emitted s)"
  using limiter_inv_reachable [OF assms(1,2)] assms(3)
  by (simp add: limiter_inv_def accounting_inv_def Let_def)

theorem limiter_accounting_witness:
  "rejected (core (run limiter_step (limiter_start demo_limiter_options) demo_limiter_events)) =
   admission_count QueueFull
     (emitted (run limiter_step (limiter_start demo_limiter_options) demo_limiter_events))"
  using limiter_accounting [OF _ demo_fresh_run refl]
  by (simp add: options_ok_def demo_limiter_options_def)

text \<open>
  releasing a permit hands its slot on. A held permit that is released goes to the oldest
  waiter in the same step, with the number of active executions unchanged and the time that
  waiter spent in the queue, or frees the slot when nobody waits; and releasing the same
  permit again changes nothing.
\<close>

theorem release_hands_over:
  assumes "limiter_inv s" and "permits s w = Some False"
  shows "(case queue (core s) of
            [] \<Rightarrow> active (core (limiter_step s (Release w now))) = active (core s) - 1
          | v # rest \<Rightarrow>
              active (core (limiter_step s (Release w now))) = active (core s) \<and>
              queue (core (limiter_step s (Release w now))) = rest \<and>
              permits (limiter_step s (Release w now)) (waiter v) = Some False \<and>
              outcomes (limiter_step s (Release w now)) (waiter v)
                = Some (Granted \<lparr>waitTimeMs = now - enqueuedAt v, activeAtAdmission = active (core s),
                         queuedAtAdmission = int (length rest)\<rparr>)) \<and>
         limiter_step (limiter_step s (Release w now)) (Release w later)
           = limiter_step s (Release w now)"
proof (cases rule: release_step_cases [of s w now])
  case (hand_over v rest p d)
  have "w \<noteq> waiter v" using waiting_inv_head [OF _ hand_over(2)] assms by (auto simp: limiter_inv_def)
  with hand_over show ?thesis
    by (cases rule: release_step_cases [of "limiter_step s (Release w now)" w later]) simp_all
next
  case free
  then show ?thesis
    by (cases rule: release_step_cases [of "limiter_step s (Release w now)" w later]) simp_all
qed (use assms in simp)

theorem release_hands_over_witness:
  "let s = run limiter_step (limiter_start demo_limiter_options)
             [Acquire (0::nat) False 0, Acquire 1 False 1] in
   limiter_step (limiter_step s (Release 0 9)) (Release 0 10) = limiter_step s (Release 0 9) \<and>
   active (core (limiter_step s (Release 0 9))) = 1"
proof -
  let ?s = "run limiter_step (limiter_start demo_limiter_options)
             [Acquire (0::nat) False 0, Acquire 1 False 1]"
  have "limiter_inv ?s"
    by (rule limiter_inv_reachable) (simp_all add: options_ok_def limiter_eval)
  moreover have "permits ?s 0 = Some False" by (simp add: limiter_eval)
  ultimately show ?thesis
    using release_hands_over [of ?s 0 9 10] by (simp add: limiter_eval)
qed

text \<open>
  an acquisition settles once. Whatever happens later, the outcome of an acquisition that
  has settled does not change, and a timer or an abort that comes after the settlement is a
  no-op; for one that is still queued, the timer refuses it and takes it out of the queue.
\<close>

theorem acquisition_settles_once:
  assumes "limiter_inv s" and "fresh_run s es"
  shows "(\<forall>w r. outcomes s w = Some r \<longrightarrow>
            outcomes (run limiter_step s es) w = Some r \<and>
            limiter_step s (TimerFired w now) = s \<and> limiter_step s (AbortSignal w now) = s) \<and>
         (\<forall>w \<in> waiter ` set (queue (core s)).
            w \<notin> waiter ` set (queue (core (limiter_step s (TimerFired w now)))) \<and>
            outcomes (limiter_step s (TimerFired w now)) w
              = Some (Refused (App (ConcurrencyWaitTimeoutError (waitTimeoutMs (options (core s)))))))"
proof (intro conjI allI ballI impI)
  fix w r
  assume r: "outcomes s w = Some r"
  show "outcomes (run limiter_step s es) w = Some r" using assms r by (rule outcome_run)
  have "w \<notin> waiter ` set (queue (core s))"
    using assms(1) r by (auto simp: limiter_inv_def waiting_inv_def)
  then show "limiter_step s (TimerFired w now) = s" and "limiter_step s (AbortSignal w now) = s"
    by (simp_all add: limiter_step_settled)
next
  fix w
  assume "w \<in> waiter ` set (queue (core s))"
  then obtain d where "limiter_step s (TimerFired w now) =
       refuse_waiter w (App (ConcurrencyWaitTimeoutError (waitTimeoutMs (options (core s)))))
         (\<lambda>L. L\<lparr>timedOut := timedOut L + 1\<rparr>) (Admission AdmissionTimeout d) s"
    by (rule limiter_step_refuse [of w s now])
  then show "w \<notin> waiter ` set (queue (core (limiter_step s (TimerFired w now))))"
    and "outcomes (limiter_step s (TimerFired w now)) w
              = Some (Refused (App (ConcurrencyWaitTimeoutError (waitTimeoutMs (options (core s))))))"
    by (auto simp: refuse_waiter_def)
qed

theorem acquisition_settles_once_witness:
  "let s = run limiter_step (limiter_start demo_limiter_options)
             [Acquire (0::nat) False 0, Acquire 1 False 1] in
   outcomes (limiter_step s (TimerFired 1 51)) 1
     = Some (Refused (App (ConcurrencyWaitTimeoutError 50))) \<and>
   limiter_step s (TimerFired 0 51) = s"
proof -
  let ?s = "run limiter_step (limiter_start demo_limiter_options)
             [Acquire (0::nat) False 0, Acquire 1 False 1]"
  have "limiter_inv ?s"
    by (rule limiter_inv_reachable) (simp_all add: options_ok_def limiter_eval)
  from acquisition_settles_once [OF this, of "[]" 51]
  show ?thesis by (simp add: limiter_eval)
qed

end
