(* ===== verification/Metrics.thy ===== *)
theory Metrics
  imports Provider_Router Concurrency_Limiter
begin

text \<open>
  The metrics of \<open>src/observability/metrics.ts\<close> and the HTTP observer of
  \<open>src/observability/http.ts\<close>. An instrument of the \<open>prom-client\<close> package is known by its name
  and its label names; \<open>record\<close> and the collectors are translated to the calls they make on
  the instruments, in order. What the package does with a call is a parameter of the model,
  with its documented behaviour as the laws of the locale \<open>prom_client\<close>.
\<close>

section \<open>Definitions\<close>

subsection \<open>Instruments\<close>

type_synonym labels = "(string \<times> jstring) list"

datatype instrument =
    Counter (instrumentName: string) (labelNames: "string list")
  | Gauge (instrumentName: string) (labelNames: "string list")
  | Histogram (instrumentName: string) (labelNames: "string list")

definition durationBuckets :: "rat list" where
  "durationBuckets =
     [1/200, 1/100, 1/40, 1/20, 1/10, 1/4, 1/2, 1, 5/2, 5, 10, 30, 60, 120, 180, 300]"

text \<open>The instruments every process registers, in the order of the fields of \<open>Metrics\<close>.\<close>

definition instruments :: "instrument list" where
  "instruments =
     [Gauge ''http_active'' [],
      Counter ''http_requests_total'' [''method'', ''route'', ''status'', ''outcome''],
      Histogram ''http_duration_seconds'' [''method'', ''route'', ''outcome''],
      Counter ''rate_limit_rejections_total'' [],
      Counter ''cache_lookups_total'' [''status''],
      Counter ''streams_total'' [''outcome''],
      Counter ''admissions_total'' [''outcome''],
      Histogram ''queue_wait_seconds'' [''outcome''],
      Gauge ''provider_active'' [''provider'', ''mode''],
      Counter ''provider_calls_total'' [''provider'', ''mode'', ''outcome''],
      Histogram ''provider_duration_seconds'' [''provider'', ''mode'', ''outcome''],
      Counter ''circuit_rejections_total'' [''provider'', ''mode''],
      Counter ''fallbacks_total'' [''from'', ''to''],
      Gauge ''job_attempts_active'' [],
      Counter ''job_attempts_total'' [''outcome''],
      Histogram ''job_attempt_duration_seconds'' [''outcome''],
      Histogram ''job_queue_wait_seconds'' [],
      Counter ''job_retries_started_total'' [],
      Gauge ''collector_up'' [''collector'']]"

text \<open>The gauges a bound collector adds.\<close>

definition concurrency_instruments :: "instrument list" where
  "concurrency_instruments = [Gauge ''concurrency_active'' [], Gauge ''concurrency_queued'' []]"

definition provider_instruments :: "instrument list" where
  "provider_instruments = [Gauge ''circuit_state'' [''provider'', ''state'']]"

definition depth_instruments :: "instrument list" where
  "depth_instruments = [Gauge ''jobs_depth'' [''status'']]"

text \<open>A call on an instrument.\<close>

datatype metric_call =
    Inc (callee: string) (callLabels: labels)
  | Dec (callee: string) (callLabels: labels)
  | Observe (callee: string) (callLabels: labels) rat
  | GaugeSet (callee: string) (callLabels: labels) number
  | GaugeReset (callee: string)

subsection \<open>Labels\<close>

definition routes :: "jstring list" where
  "routes = map js [''/health'', ''/v1/chat'', ''/v1/chat/stream'', ''/v1/jobs'', ''/v1/jobs/:id'',
     ''/v1/providers'']"

definition providerLabel :: "jstring \<Rightarrow> jstring" where
  "providerLabel name = (if name = js ''ollama'' \<or> name = js ''openai'' then name else js ''other'')"

definition seconds :: "time \<Rightarrow> rat" where
  "seconds ms = max 0 ms / 1000"

definition method_label :: "jstring \<Rightarrow> jstring" where
  "method_label m =
     (if m \<in> set (map js [''GET'', ''POST'', ''HEAD'', ''OPTIONS'']) then m else js ''OTHER'')"

definition route_label :: "jstring \<Rightarrow> jstring" where
  "route_label p = (if p \<in> set routes then p else js ''unmatched'')"

definition status_label :: "int option \<Rightarrow> jstring" where
  "status_label st =
     (case st of
        Some n \<Rightarrow> if 100 \<le> n \<and> n \<le> 599 then string_of_int n else js ''none''
      | None \<Rightarrow> js ''none'')"

fun cache_label :: "CacheStatus \<Rightarrow> jstring" where
  "cache_label HIT = js ''HIT''"
| "cache_label MISS = js ''MISS''"
| "cache_label BYPASS = js ''BYPASS''"

fun mode_label :: "CallMode \<Rightarrow> jstring" where
  "mode_label ModeChat = js ''chat''"
| "mode_label ModeStream = js ''stream''"

fun http_outcome_label :: "HttpOutcome \<Rightarrow> jstring" where
  "http_outcome_label HttpCompleted = js ''completed''"
| "http_outcome_label HttpAborted = js ''aborted''"

fun stream_outcome_label :: "StreamOutcome \<Rightarrow> jstring" where
  "stream_outcome_label StreamCompleted = js ''completed''"
| "stream_outcome_label StreamFailed = js ''failed''"
| "stream_outcome_label StreamCancelled = js ''cancelled''"

fun admission_label :: "AdmissionOutcome \<Rightarrow> jstring" where
  "admission_label Admitted = js ''admitted''"
| "admission_label QueueFull = js ''queue_full''"
| "admission_label AdmissionTimeout = js ''timeout''"
| "admission_label AdmissionCancelled = js ''cancelled''"

fun provider_outcome_label :: "ProviderOutcome \<Rightarrow> jstring" where
  "provider_outcome_label ProviderSuccess = js ''success''"
| "provider_outcome_label TransientError = js ''transient_error''"
| "provider_outcome_label PermanentError = js ''permanent_error''"
| "provider_outcome_label ProviderCancelled = js ''cancelled''"
| "provider_outcome_label ConsumerError = js ''consumer_error''"

fun job_outcome_label :: "JobOutcome \<Rightarrow> jstring" where
  "job_outcome_label JobSuccess = js ''success''"
| "job_outcome_label JobRetrying = js ''retrying''"
| "job_outcome_label JobFailed = js ''failed''"
| "job_outcome_label JobObsolete = js ''obsolete''"
| "job_outcome_label InfrastructureError = js ''infrastructure_error''"

subsection \<open>Recording an event\<close>

fun record_event :: "MetricEvent \<Rightarrow> metric_call list" where
  "record_event HttpStart = [Inc ''http_active'' []]"
| "record_event (HttpEnd m p st oc d) =
     (let m' = (''method'', method_label m); p' = (''route'', route_label p);
          oc' = (''outcome'', http_outcome_label oc)
      in [Dec ''http_active'' [],
          Inc ''http_requests_total'' [m', p', (''status'', status_label st), oc'],
          Observe ''http_duration_seconds'' [m', p', oc'] (seconds d)])"
| "record_event RateLimitRejection = [Inc ''rate_limit_rejections_total'' []]"
| "record_event (CacheLookup st) = [Inc ''cache_lookups_total'' [(''status'', cache_label st)]]"
| "record_event (StreamEnd oc) = [Inc ''streams_total'' [(''outcome'', stream_outcome_label oc)]]"
| "record_event (Admission oc d) =
     [Inc ''admissions_total'' [(''outcome'', admission_label oc)],
      Observe ''queue_wait_seconds'' [(''outcome'', admission_label oc)] (seconds d)]"
| "record_event (ProviderStart n md) =
     [Inc ''provider_active'' [(''provider'', providerLabel n), (''mode'', mode_label md)]]"
| "record_event (ProviderEnd n md oc d) =
     (let ls = [(''provider'', providerLabel n), (''mode'', mode_label md)];
          oc' = (''outcome'', provider_outcome_label oc)
      in [Dec ''provider_active'' ls, Inc ''provider_calls_total'' (ls @ [oc']),
          Observe ''provider_duration_seconds'' (ls @ [oc']) (seconds d)])"
| "record_event (CircuitRejection n md) =
     [Inc ''circuit_rejections_total'' [(''provider'', providerLabel n), (''mode'', mode_label md)]]"
| "record_event (Fallback a b) =
     [Inc ''fallbacks_total'' [(''from'', providerLabel a), (''to'', providerLabel b)]]"
| "record_event (JobStart rt w) =
     [Inc ''job_attempts_active'' []] @
     (if rt then [Inc ''job_retries_started_total'' []] else []) @
     (case w of Some ms \<Rightarrow> [Observe ''job_queue_wait_seconds'' [] (seconds ms)] | None \<Rightarrow> [])"
| "record_event (JobEnd oc d) =
     [Dec ''job_attempts_active'' [],
      Inc ''job_attempts_total'' [(''outcome'', job_outcome_label oc)],
      Observe ''job_attempt_duration_seconds'' [(''outcome'', job_outcome_label oc)] (seconds d)]"

subsection \<open>Collectors\<close>

text \<open>
  A collector runs its source, which answers or throws, and writes the gauges of that source
  and its own health.
\<close>

definition collector_up :: "string \<Rightarrow> bool \<Rightarrow> metric_call" where
  "collector_up c ok = GaugeSet ''collector_up'' [(''collector'', js c)] (Num (if ok then 1 else 0))"

definition collectConcurrency :: "'e + ConcurrencySnapshot \<Rightarrow> metric_call list" where
  "collectConcurrency out =
     (case out of
        Inr v \<Rightarrow> [GaugeSet ''concurrency_active'' [] (Num (of_int (snap_active v))),
                  GaugeSet ''concurrency_queued'' [] (Num (of_int (snap_queued v))),
                  collector_up ''concurrency'' True]
      | Inl _ \<Rightarrow> [GaugeSet ''concurrency_active'' [] NaN, GaugeSet ''concurrency_queued'' [] NaN,
                  collector_up ''concurrency'' False])"

fun circuit_state_label :: "CircuitState \<Rightarrow> jstring" where
  "circuit_state_label Closed = js ''closed''"
| "circuit_state_label Open = js ''open''"
| "circuit_state_label HalfOpen = js ''half-open''"

definition circuit_labels :: "jstring \<Rightarrow> CircuitState \<Rightarrow> labels" where
  "circuit_labels n c = [(''provider'', providerLabel n), (''state'', circuit_state_label c)]"

definition circuit_sets :: "jstring \<times> CircuitSnapshot \<Rightarrow> metric_call list" where
  "circuit_sets p =
     map (\<lambda>c. GaugeSet ''circuit_state'' (circuit_labels (fst p) c)
                (Num (if snapState (snd p) = c then 1 else 0)))
       [Closed, Open, HalfOpen]"

definition collectProviders :: "'e + (jstring \<times> CircuitSnapshot) list \<Rightarrow> metric_call list" where
  "collectProviders out =
     GaugeReset ''circuit_state'' #
     (case out of
        Inr ps \<Rightarrow> concat (map circuit_sets ps) @ [collector_up ''circuits'' True]
      | Inl _ \<Rightarrow> [collector_up ''circuits'' False])"

record QueueDepth =
  depthQueued :: int
  depthRetrying :: int
  depthActive :: int

definition depth_of :: "QueueDepth \<Rightarrow> (string \<times> int) list" where
  "depth_of d = [(''queued'', depthQueued d), (''retrying'', depthRetrying d), (''active'', depthActive d)]"

datatype 'e collection_error = ReadFailed 'e | CollectionTimedOut

text \<open>
  The race of the read, which settles after some time or never, with the timer.
\<close>

definition readDepth :: "time \<Rightarrow> (time \<times> ('e + QueueDepth)) option \<Rightarrow> 'e collection_error + QueueDepth" where
  "readDepth limitMs rd =
     (case rd of
        Some (d, res) \<Rightarrow>
          if d < limitMs then map_sum ReadFailed (\<lambda>x. x) res else Inl CollectionTimedOut
      | None \<Rightarrow> Inl CollectionTimedOut)"

definition collectQueueDepth :: "'e + QueueDepth \<Rightarrow> metric_call list" where
  "collectQueueDepth out =
     (case out of
        Inr d \<Rightarrow> map (\<lambda>(st, n). GaugeSet ''jobs_depth'' [(''status'', js st)] (Num (of_int n))) (depth_of d) @
                  [collector_up ''jobs'' True]
      | Inl _ \<Rightarrow> map (\<lambda>st. GaugeSet ''jobs_depth'' [(''status'', js st)] NaN)
                     [''queued'', ''retrying'', ''active''] @
                  [collector_up ''jobs'' False])"

subsection \<open>The HTTP observer\<close>

text \<open>
  The hook of \<open>observeHttp\<close>, one state per request: when it started and whether \<open>finish\<close> has
  run. The response's \<open>finish\<close> and \<open>close\<close> events come with what the callback reads.
\<close>

record http_exchange =
  exchangeStart :: time
  exchangeFinished :: bool

record http_state =
  exchanges :: "nat \<rightharpoonup> http_exchange"
  httpMetrics :: "MetricEvent list"

record http_reading =
  readMethod :: jstring
  readRoute :: "jstring option"
  headersSent :: bool
  rawStatusCode :: int
  readNow :: time

datatype http_event =
    OnRequest nat time
  | OnFinish nat http_reading
  | OnClose nat bool http_reading

definition finishHttp :: "nat \<Rightarrow> HttpOutcome \<Rightarrow> http_reading \<Rightarrow> http_state \<Rightarrow> http_state" where
  "finishHttp i oc rd s =
     (case exchanges s i of
        None \<Rightarrow> s
      | Some x \<Rightarrow>
          if exchangeFinished x then s
          else s\<lparr>exchanges := (exchanges s)(i \<mapsto> x\<lparr>exchangeFinished := True\<rparr>),
                 httpMetrics := httpMetrics s @
                   [HttpEnd (readMethod rd) (case readRoute rd of Some p \<Rightarrow> p | None \<Rightarrow> js ''unmatched'')
                      (if headersSent rd then Some (rawStatusCode rd) else None) oc
                      (readNow rd - exchangeStart x)]\<rparr>)"

fun http_step :: "http_state \<Rightarrow> http_event \<Rightarrow> http_state" where
  "http_step s (OnRequest i now) =
     (if exchanges s i \<noteq> None then s
      else s\<lparr>exchanges := (exchanges s)(i \<mapsto> \<lparr>exchangeStart = now, exchangeFinished = False\<rparr>),
             httpMetrics := httpMetrics s @ [HttpStart]\<rparr>)"
| "http_step s (OnFinish i rd) = finishHttp i HttpCompleted rd s"
| "http_step s (OnClose i writableFinished rd) =
     finishHttp i (if writableFinished then HttpCompleted else HttpAborted) rd s"

definition new_http :: http_state where
  "new_http = \<lparr>exchanges = Map.empty, httpMetrics = []\<rparr>"

subsection \<open>Scraping\<close>

text \<open>
  The state of a \<open>Metrics\<close> object over a registry: the bound collectors, the scrape in progress
  with the requests that share it and the collectors it still waits for, and for each answered
  request the registry its body was encoded from. A collector that has finished comes with its
  outcome.
\<close>

datatype collector = ConcurrencyCollector | ProvidersCollector | DepthCollector

datatype collection =
    Concurrency "unit + ConcurrencySnapshot"
  | Providers "unit + (jstring \<times> CircuitSnapshot) list"
  | Depth "unit collection_error + QueueDepth"

fun kind_of :: "collection \<Rightarrow> collector" where
  "kind_of (Concurrency _) = ConcurrencyCollector"
| "kind_of (Providers _) = ProvidersCollector"
| "kind_of (Depth _) = DepthCollector"

fun collect :: "collection \<Rightarrow> metric_call list" where
  "collect (Concurrency out) = collectConcurrency out"
| "collect (Providers out) = collectProviders out"
| "collect (Depth out) = collectQueueDepth out"

record 'r metrics =
  registry :: 'r
  collectors :: "collector list"
  scraping :: "(nat list \<times> collector list) option"
  answers :: "nat \<rightharpoonup> 'r"

datatype metrics_event =
    Record MetricEvent
  | Scrape nat
  | Collected collection
  | Encoded

definition calls_on :: "('r \<Rightarrow> metric_call \<Rightarrow> 'r) \<Rightarrow> 'r \<Rightarrow> metric_call list \<Rightarrow> 'r" where
  "calls_on call r cs = foldl call r cs"

fun metrics_step :: "('r \<Rightarrow> metric_call \<Rightarrow> 'r) \<Rightarrow> 'r metrics \<Rightarrow> metrics_event \<Rightarrow> 'r metrics" where
  "metrics_step call m (Record e) = m\<lparr>registry := calls_on call (registry m) (record_event e)\<rparr>"
| "metrics_step call m (Scrape i) =
     m\<lparr>scraping :=
       (case scraping m of None \<Rightarrow> Some ([i], collectors m) | Some (ws, cs) \<Rightarrow> Some (ws @ [i], cs))\<rparr>"
| "metrics_step call m (Collected c) =
     (case scraping m of
        Some (ws, cs) \<Rightarrow>
          if kind_of c \<in> set cs
          then m\<lparr>registry := calls_on call (registry m) (collect c),
                 scraping := Some (ws, remove1 (kind_of c) cs)\<rparr>
          else m
      | None \<Rightarrow> m)"
| "metrics_step call m Encoded =
     (case scraping m of
        Some (ws, []) \<Rightarrow>
          m\<lparr>answers := (\<lambda>i. if i \<in> set ws then Some (registry m) else answers m i), scraping := None\<rparr>
      | _ \<Rightarrow> m)"

definition newMetrics :: "'r \<Rightarrow> collector list \<Rightarrow> 'r metrics" where
  "newMetrics r cs = \<lparr>registry = r, collectors = cs, scraping = None, answers = Map.empty\<rparr>"

text \<open>The reply of the \<open>/metrics\<close> server: the body, or the error of the encoding.\<close>

record metrics_reply =
  replyStatus :: int
  replyBody :: jstring
  cacheControl :: jstring

definition metricsReply :: "'e + jstring \<Rightarrow> metrics_reply" where
  "metricsReply out =
     (case out of
        Inr body \<Rightarrow> \<lparr>replyStatus = 200, replyBody = body, cacheControl = js ''no-store''\<rparr>
      | Inl _ \<Rightarrow> \<lparr>replyStatus = 503, replyBody = js ''{\"error\":\"Metrics collection failed\"}'',
                  cacheControl = js ''no-store''\<rparr>)"

section \<open>The registry\<close>

text \<open>
  What the model relies on of \<open>prom-client\<close>: reading an instrument after a call on it. A series
  that was never written has no value and counts from zero; \<open>bucket\<close> is the number of
  observations of at most a bound.
\<close>

fun number_plus :: "number \<Rightarrow> rat \<Rightarrow> number" where
  "number_plus (Num a) b = Num (a + b)"
| "number_plus x b = x"

definition level :: "number option \<Rightarrow> number" where
  "level v = (case v of None \<Rightarrow> Num 0 | Some x \<Rightarrow> x)"

text \<open>
  The sum of the increments and decrements of one series, and the observations of at most a
  bound, among some calls.
\<close>

fun net_call :: "string \<Rightarrow> labels \<Rightarrow> metric_call \<Rightarrow> int" where
  "net_call n l (Inc m k) = (if m = n \<and> k = l then 1 else 0)"
| "net_call n l (Dec m k) = (if m = n \<and> k = l then - 1 else 0)"
| "net_call n l _ = 0"

definition net :: "string \<Rightarrow> labels \<Rightarrow> metric_call list \<Rightarrow> int" where
  "net n l cs = sum_list (map (net_call n l) cs)"

fun counts_only :: "string \<Rightarrow> metric_call \<Rightarrow> bool" where
  "counts_only n (Inc _ _) = True"
| "counts_only n (Dec _ _) = True"
| "counts_only n c = (callee c \<noteq> n)"

fun observes :: "string \<Rightarrow> labels \<Rightarrow> number \<Rightarrow> metric_call \<Rightarrow> bool" where
  "observes n l le (Observe m k y) = (m = n \<and> k = l \<and> number_le (Num y) le)"
| "observes n l le _ = False"

definition observed :: "string \<Rightarrow> labels \<Rightarrow> number \<Rightarrow> metric_call list \<Rightarrow> nat" where
  "observed n l le cs = length (filter (observes n l le) cs)"

lemma net_Nil [simp]: "net n l [] = 0"
  by (simp add: net_def)

lemma net_Cons: "net n l (c # cs) = net n l [c] + net n l cs"
  by (simp add: net_def)

lemma net_append [simp]: "net n l (cs @ ds) = net n l cs + net n l ds"
  by (simp add: net_def)

lemma net_single [simp]: "net n l [c] = net_call n l c"
  by (simp add: net_def)

locale prom_client =
  fixes call :: "'r \<Rightarrow> metric_call \<Rightarrow> 'r"
    and reading :: "'r \<Rightarrow> string \<Rightarrow> labels \<Rightarrow> number option"
    and bucket :: "'r \<Rightarrow> string \<Rightarrow> labels \<Rightarrow> number \<Rightarrow> nat"
  assumes inc: "reading (call r (Inc n l)) m k =
      (if m = n \<and> k = l then Some (number_plus (level (reading r n l)) 1) else reading r m k)"
    and dec: "reading (call r (Dec n l)) m k =
      (if m = n \<and> k = l then Some (number_plus (level (reading r n l)) (- 1)) else reading r m k)"
    and gauge_set: "reading (call r (GaugeSet n l x)) m k =
      (if m = n \<and> k = l then Some x else reading r m k)"
    and gauge_reset: "k \<noteq> [] \<Longrightarrow> reading (call r (GaugeReset n)) m k =
      (if m = n then None else reading r m k)"
    and reset_other: "m \<noteq> n \<Longrightarrow> reading (call r (GaugeReset n)) m k = reading r m k"
    and observe_reading: "m \<noteq> n \<Longrightarrow> reading (call r (Observe n l y)) m k = reading r m k"
    and observe_bucket: "bucket (call r (Observe n l y)) m k le =
      bucket r m k le + (if m = n \<and> k = l \<and> number_le (Num y) le then 1 else 0)"
    and other_bucket: "(\<And>n l y. c \<noteq> Observe n l y) \<Longrightarrow> bucket (call r c) m k le = bucket r m k le"
begin

text \<open>A gauge that is only counted up and down.\<close>

lemma level_counts:
  assumes "level (reading r n l) = Num q" and "\<forall>c \<in> set cs. counts_only n c"
  shows "level (reading (calls_on call r cs) n l) = Num (q + of_int (net n l cs))"
  using assms
proof (induction cs arbitrary: r q)
  case Nil
  then show ?case by (simp add: calls_on_def)
next
  case (Cons c cs)
  have "level (reading (call r c) n l) = Num (q + of_int (net n l [c]))"
    using Cons.prems by (cases c) (auto simp: inc dec gauge_set reset_other observe_reading level_def)
  from Cons.IH [OF this] Cons.prems(2) show ?case
    by (simp add: calls_on_def net_Cons [of n l c cs] ac_simps)
qed

text \<open>A gauge that is only set: calls on other instruments leave it alone.\<close>

lemma reading_other:
  assumes "\<forall>c \<in> set cs. callee c \<noteq> n"
  shows "reading (calls_on call r cs) n l = reading r n l"
  using assms
proof (induction cs arbitrary: r)
  case (Cons c cs)
  have "reading (call r c) n l = reading r n l"
    using Cons.prems by (cases c) (auto simp: inc dec gauge_set reset_other observe_reading)
  with Cons show ?case by (simp add: calls_on_def)
qed (simp add: calls_on_def)

lemma buckets_count:
  "bucket (calls_on call r cs) n l le = bucket r n l le + observed n l le cs"
proof (induction cs arbitrary: r)
  case (Cons c cs)
  have "bucket (call r c) n l le = bucket r n l le + observed n l le [c]"
    by (cases c) (auto simp: observe_bucket other_bucket observed_def)
  with Cons [of "call r c"] show ?case by (simp add: calls_on_def observed_def)
qed (simp add: calls_on_def observed_def)

end

text \<open>A registry as two maps, one of the registries the laws describe.\<close>

record prom_registry =
  promReading :: "string \<Rightarrow> labels \<Rightarrow> number option"
  promBucket :: "string \<Rightarrow> labels \<Rightarrow> number \<Rightarrow> nat"

definition prom_write :: "string \<Rightarrow> labels \<Rightarrow> number \<Rightarrow> prom_registry \<Rightarrow> prom_registry" where
  "prom_write n l x r =
     r\<lparr>promReading := (\<lambda>m k. if m = n \<and> k = l then Some x else promReading r m k)\<rparr>"

fun prom_call :: "prom_registry \<Rightarrow> metric_call \<Rightarrow> prom_registry" where
  "prom_call r (Inc n l) = prom_write n l (number_plus (level (promReading r n l)) 1) r"
| "prom_call r (Dec n l) = prom_write n l (number_plus (level (promReading r n l)) (- 1)) r"
| "prom_call r (GaugeSet n l x) = prom_write n l x r"
| "prom_call r (GaugeReset n) =
     r\<lparr>promReading := (\<lambda>m k. if m = n then None else promReading r m k)\<rparr>"
| "prom_call r (Observe n l y) =
     r\<lparr>promBucket := (\<lambda>m k le. promBucket r m k le +
         (if m = n \<and> k = l \<and> number_le (Num y) le then 1 else 0))\<rparr>"

definition prom_empty :: prom_registry where
  "prom_empty = \<lparr>promReading = (\<lambda>_ _. None), promBucket = (\<lambda>_ _ _. 0)\<rparr>"

lemma prom_other_bucket: "(\<And>n l y. c \<noteq> Observe n l y) \<Longrightarrow> promBucket (prom_call r c) = promBucket r"
  by (cases c) (auto simp: prom_write_def)

interpretation prom: prom_client prom_call promReading promBucket
  by unfold_locales (auto simp: prom_write_def prom_other_bucket)

section \<open>Lemmas\<close>

subsection \<open>Labels\<close>

lemma mode_label_inj [simp]: "mode_label a = mode_label b \<longleftrightarrow> a = b"
  by (cases a; cases b) simp_all

lemma circuit_state_label_inj [simp]: "circuit_state_label a = circuit_state_label b \<longleftrightarrow> a = b"
  by (cases a; cases b) simp_all

subsection \<open>The gauges of work in flight\<close>

definition recorded :: "('r \<Rightarrow> metric_call \<Rightarrow> 'r) \<Rightarrow> 'r \<Rightarrow> MetricEvent list \<Rightarrow> 'r" where
  "recorded call r es = calls_on call r (concat (map record_event es))"

lemma net_events:
  assumes "\<And>e. net n l (record_event e) = (if up e then 1 else 0) - (if down e then 1 else 0)"
  shows "net n l (concat (map record_event es)) =
    int (length (filter up es)) - int (length (filter down es))"
  by (induction es) (simp_all add: assms)

abbreviation active_gauges :: "string list" where
  "active_gauges \<equiv> [''http_active'', ''provider_active'', ''job_attempts_active'']"

lemma record_counts_only:
  "g \<in> set active_gauges \<Longrightarrow> c \<in> set (record_event e) \<Longrightarrow> counts_only g c"
  by (cases e) (auto simp: Let_def split: if_splits option.splits)
context prom_client
begin

text \<open>
  A gauge counted up by one kind of event and down by another shows the difference of their
  numbers.
\<close>

lemma active_gauge:
  assumes "g \<in> set active_gauges" and "reading r g l = None"
    and "\<And>e. net g l (record_event e) = (if up e then 1 else 0) - (if down e then 1 else 0)"
    and "length (filter up es) = length (filter down es) + k"
  shows "level (reading (recorded call r es) g l) = Num (of_nat k)"
proof -
  have "\<forall>c \<in> set (concat (map record_event es)). counts_only g c"
    using record_counts_only [OF assms(1)] by auto
  from level_counts [OF _ this, of r l 0] net_events [OF assms(3)] assms(2,4)
  show ?thesis by (simp add: recorded_def level_def)
qed

end

definition provider_labels :: "jstring \<Rightarrow> CallMode \<Rightarrow> labels" where
  "provider_labels l md = [(''provider'', l), (''mode'', mode_label md)]"

definition labelled :: "jstring \<Rightarrow> CallMode \<Rightarrow> call_class" where
  "labelled l md n md' \<longleftrightarrow> providerLabel n = l \<and> md' = md"

lemma net_provider_active:
  "net ''provider_active'' (provider_labels l md) (record_event e) =
     (if starts_of (labelled l md) e then 1 else 0) - (if ends_of (labelled l md) e then 1 else 0)"
  by (cases e) (auto simp: Let_def net_def provider_labels_def labelled_def split: option.split)

fun is_start :: "MetricEvent \<Rightarrow> bool" where
  "is_start HttpStart = True"
| "is_start _ = False"

fun is_end :: "MetricEvent \<Rightarrow> bool" where
  "is_end (HttpEnd _ _ _ _ _) = True"
| "is_end _ = False"

lemma net_http_active:
  "net ''http_active'' [] (record_event e) = (if is_start e then 1 else 0) - (if is_end e then 1 else 0)"
  by (cases e) (auto simp: Let_def net_def split: option.split)

text \<open>Events that do not concern a gauge may come in between.\<close>

lemma filter_within:
  assumes "filter Q xs = filter Q ys" and "\<And>x. P x \<Longrightarrow> Q x"
  shows "filter P xs = filter P ys"
proof -
  have "filter P zs = filter P (filter Q zs)" for zs
    using assms(2) by (induction zs) auto
  with assms(1) show ?thesis by metis
qed

fun is_provider_call :: "MetricEvent \<Rightarrow> bool" where
  "is_provider_call (ProviderStart _ _) = True"
| "is_provider_call (ProviderEnd _ _ _ _) = True"
| "is_provider_call _ = False"

lemma starts_are_calls: "starts_of P e \<Longrightarrow> is_provider_call e"
  by (cases e) simp_all

lemma ends_are_calls: "ends_of P e \<Longrightarrow> is_provider_call e"
  by (cases e) simp_all

subsection \<open>Requests in flight\<close>

definition open_exchanges :: "http_state \<Rightarrow> nat set" where
  "open_exchanges s = {i. \<exists>x. exchanges s i = Some x \<and> \<not> exchangeFinished x}"

definition finished_exchanges :: "http_state \<Rightarrow> nat set" where
  "finished_exchanges s = {i. \<exists>x. exchanges s i = Some x \<and> exchangeFinished x}"

definition http_balanced :: "http_state \<Rightarrow> bool" where
  "http_balanced s \<longleftrightarrow>
     finite (open_exchanges s) \<and> finite (finished_exchanges s) \<and>
     length (filter is_end (httpMetrics s)) = card (finished_exchanges s) \<and>
     length (filter is_start (httpMetrics s)) =
       length (filter is_end (httpMetrics s)) + card (open_exchanges s)"

lemma http_balanced_finish:
  assumes bal: "http_balanced s"
  shows "http_balanced (finishHttp i oc rd s)" (is "http_balanced ?s'")
proof (cases "i \<in> open_exchanges s")
  case False
  then have "?s' = s" by (auto simp: finishHttp_def open_exchanges_def split: option.split)
  with bal show ?thesis by simp
next
  case True
  then obtain x where x: "exchanges s i = Some x" "\<not> exchangeFinished x"
    by (auto simp: open_exchanges_def)
  have "open_exchanges ?s' = open_exchanges s - {i}"
    "finished_exchanges ?s' = insert i (finished_exchanges s)" "i \<notin> finished_exchanges s"
    using x by (auto simp: finishHttp_def open_exchanges_def finished_exchanges_def)
  moreover have "filter is_start (httpMetrics ?s') = filter is_start (httpMetrics s)"
    "length (filter is_end (httpMetrics ?s')) = Suc (length (filter is_end (httpMetrics s)))"
    using x by (simp_all add: finishHttp_def)
  moreover have "card (open_exchanges s) = Suc (card (open_exchanges s - {i}))"
    using bal True by (simp only: card_Suc_Diff1 http_balanced_def)
  ultimately show ?thesis using bal by (simp add: http_balanced_def)
qed

lemma http_balanced_step:
  assumes bal: "http_balanced s"
  shows "http_balanced (http_step s ev)"
proof (cases ev)
  case (OnRequest i now)
  show ?thesis
  proof (cases "exchanges s i")
    case None
    let ?s' = "http_step s ev"
    have "open_exchanges ?s' = insert i (open_exchanges s)" "i \<notin> open_exchanges s"
      "finished_exchanges ?s' = finished_exchanges s"
      using None OnRequest by (auto simp: open_exchanges_def finished_exchanges_def)
    then show ?thesis using bal None OnRequest by (simp add: http_balanced_def)
  qed (use bal OnRequest in simp)
qed (use http_balanced_finish [OF bal] in simp_all)

interpretation http_observer: stepwise_invariant http_step http_balanced "\<lambda>_ _. True"
  by unfold_locales (rule http_balanced_step)

lemma http_balanced_run: "http_balanced (run http_step new_http evs)"
  by (rule http_observer.run_inv)
    (simp_all add: http_balanced_def new_http_def open_exchanges_def finished_exchanges_def)

fun is_http :: "MetricEvent \<Rightarrow> bool" where
  "is_http HttpStart = True"
| "is_http (HttpEnd _ _ _ _ _) = True"
| "is_http _ = False"

lemma is_http_simps: "is_start e \<Longrightarrow> is_http e" "is_end e \<Longrightarrow> is_http e"
  by (cases e; simp)+

subsection \<open>The series that events create\<close>

text \<open>The values of a label of an instrument.\<close>

definition outcome_values :: "string \<Rightarrow> jstring list" where
  "outcome_values n =
     (if n \<in> set [''http_requests_total'', ''http_duration_seconds''] then
        map http_outcome_label [HttpCompleted, HttpAborted]
      else if n = ''streams_total'' then
        map stream_outcome_label [StreamCompleted, StreamFailed, StreamCancelled]
      else if n \<in> set [''admissions_total'', ''queue_wait_seconds''] then
        map admission_label [Admitted, QueueFull, AdmissionTimeout, AdmissionCancelled]
      else if n \<in> set [''provider_calls_total'', ''provider_duration_seconds''] then
        map provider_outcome_label
          [ProviderSuccess, TransientError, PermanentError, ProviderCancelled, ConsumerError]
      else map job_outcome_label
          [JobSuccess, JobRetrying, JobFailed, JobObsolete, InfrastructureError])"

definition http_statuses :: "jstring list" where
  "http_statuses = js ''none'' # map (\<lambda>k. string_of_int (int k)) [100..<600]"

definition status_values :: "string \<Rightarrow> jstring list" where
  "status_values n =
     (if n = ''cache_lookups_total'' then map cache_label [HIT, MISS, BYPASS]
      else http_statuses)"

definition label_values :: "string \<Rightarrow> string \<Rightarrow> jstring list" where
  "label_values n k =
     (if k = ''outcome'' then outcome_values n
      else if k = ''status'' then status_values n
      else if k = ''method'' then map js [''GET'', ''POST'', ''HEAD'', ''OPTIONS'', ''OTHER'']
      else if k = ''route'' then js ''unmatched'' # routes
      else if k = ''mode'' then map mode_label [ModeChat, ModeStream]
      else if k = ''collector'' then map js [''concurrency'', ''circuits'', ''jobs'']
      else map js [''ollama'', ''openai'', ''other''])"

definition instrument_series :: "instrument \<Rightarrow> (string \<times> labels) list" where
  "instrument_series I =
     map (\<lambda>vs. (instrumentName I, zip (labelNames I) vs))
       (product_lists (map (label_values (instrumentName I)) (labelNames I)))"

text \<open>A call fits an instrument when it is one of its kind, with exactly its labels.\<close>

fun fits :: "metric_call \<Rightarrow> instrument \<Rightarrow> bool" where
  "fits (Inc n l) (Counter m ls) = (n = m \<and> map fst l = ls)"
| "fits (Inc n l) (Gauge m ls) = (n = m \<and> map fst l = ls)"
| "fits (Dec n l) (Gauge m ls) = (n = m \<and> map fst l = ls)"
| "fits (GaugeSet n l _) (Gauge m ls) = (n = m \<and> map fst l = ls)"
| "fits (GaugeReset n) (Gauge m ls) = (n = m)"
| "fits (Observe n l y) (Histogram m ls) = (n = m \<and> map fst l = ls \<and> 0 \<le> y)"
| "fits _ _ = False"

definition bounded_values :: "metric_call \<Rightarrow> bool" where
  "bounded_values c \<longleftrightarrow> (\<forall>(k, v) \<in> set (callLabels c). v \<in> set (label_values (callee c) k))"

lemma http_status_values: "status_label st \<in> set http_statuses"
proof -
  have "string_of_int n \<in> (\<lambda>k. string_of_int (int k)) ` set [100..<600]" if "100 \<le> n" "n \<le> 599" for n
    using that by (intro image_eqI [of _ _ "nat n"]) (auto simp del: upt_rec_numeral)
  then show ?thesis
    by (auto simp: status_label_def http_statuses_def simp del: upt_rec_numeral split: option.split)
qed

lemma label_cases:
  "cache_label ch = js ''HIT'' \<or> cache_label ch = js ''MISS'' \<or> cache_label ch = js ''BYPASS''"
  "mode_label md = js ''chat'' \<or> mode_label md = js ''stream''"
  "http_outcome_label h = js ''completed'' \<or> http_outcome_label h = js ''aborted''"
  "stream_outcome_label t = js ''completed'' \<or> stream_outcome_label t = js ''failed'' \<or>
   stream_outcome_label t = js ''cancelled''"
  "admission_label a = js ''admitted'' \<or> admission_label a = js ''queue_full'' \<or>
   admission_label a = js ''timeout'' \<or> admission_label a = js ''cancelled''"
  "provider_outcome_label q = js ''success'' \<or> provider_outcome_label q = js ''transient_error'' \<or>
   provider_outcome_label q = js ''permanent_error'' \<or> provider_outcome_label q = js ''cancelled'' \<or>
   provider_outcome_label q = js ''consumer_error''"
  "job_outcome_label j = js ''success'' \<or> job_outcome_label j = js ''retrying'' \<or>
   job_outcome_label j = js ''failed'' \<or> job_outcome_label j = js ''obsolete'' \<or>
   job_outcome_label j = js ''infrastructure_error''"
  by (metis cache_label.simps CacheStatus.exhaust, metis mode_label.simps CallMode.exhaust,
      metis http_outcome_label.simps HttpOutcome.exhaust,
      metis stream_outcome_label.simps StreamOutcome.exhaust,
      metis admission_label.simps AdmissionOutcome.exhaust,
      metis provider_outcome_label.simps ProviderOutcome.exhaust,
      metis job_outcome_label.simps JobOutcome.exhaust)

lemma values_simps [simp]:
  "status_label st \<in> set (label_values ''http_requests_total'' ''status'')"
  "cache_label ch \<in> set (label_values ''cache_lookups_total'' ''status'')"
  "method_label m \<in> set (label_values n ''method'')"
  "route_label p \<in> set (label_values n ''route'')"
  "mode_label md \<in> set (label_values n ''mode'')"
  "providerLabel x \<in> set (label_values n ''provider'')"
  "providerLabel x \<in> set (label_values n ''from'')"
  "providerLabel x \<in> set (label_values n ''to'')"
  by (simp_all add: label_values_def status_values_def http_status_values label_cases)
    (simp_all add: method_label_def route_label_def providerLabel_def)

lemma outcome_values_simps [simp]:
  "http_outcome_label h \<in> set (label_values ''http_requests_total'' ''outcome'')"
  "http_outcome_label h \<in> set (label_values ''http_duration_seconds'' ''outcome'')"
  "stream_outcome_label t \<in> set (label_values ''streams_total'' ''outcome'')"
  "admission_label a \<in> set (label_values ''admissions_total'' ''outcome'')"
  "admission_label a \<in> set (label_values ''queue_wait_seconds'' ''outcome'')"
  "provider_outcome_label q \<in> set (label_values ''provider_calls_total'' ''outcome'')"
  "provider_outcome_label q \<in> set (label_values ''provider_duration_seconds'' ''outcome'')"
  "job_outcome_label j \<in> set (label_values ''job_attempts_total'' ''outcome'')"
  "job_outcome_label j \<in> set (label_values ''job_attempt_duration_seconds'' ''outcome'')"
  by (simp_all add: label_values_def outcome_values_def label_cases)

lemma record_bounded: "c \<in> set (record_event e) \<Longrightarrow> bounded_values c"
  by (cases e) (auto simp: Let_def bounded_values_def split: if_splits option.splits)

lemma seconds_nonneg [simp]: "0 \<le> seconds d"
  by (simp add: seconds_def)

lemma record_fits: "c \<in> set (record_event e) \<Longrightarrow> \<exists>I \<in> set instruments. fits c I"
  by (cases e) (auto simp: instruments_def Let_def split: if_splits option.splits)

lemma fits_name: "fits c I \<Longrightarrow> callee c = instrumentName I"
  by (cases "(c, I)" rule: fits.cases) auto

lemma fits_labels: "fits c I \<Longrightarrow> (\<And>n. c \<noteq> GaugeReset n) \<Longrightarrow> map fst (callLabels c) = labelNames I"
  by (cases "(c, I)" rule: fits.cases) auto

lemma in_product_lists: "list_all2 (\<lambda>x xs. x \<in> set xs) vs xss \<Longrightarrow> vs \<in> set (product_lists xss)"
  by (simp add: product_lists_set)

lemma fits_series:
  assumes "fits c I" and "bounded_values c" and "\<And>n. c \<noteq> GaugeReset n"
  shows "(callee c, callLabels c) \<in> set (instrument_series I)"
proof -
  let ?l = "callLabels c"
  have "list_all2 (\<lambda>v vs. v \<in> set vs) (map snd ?l) (map (label_values (callee c)) (map fst ?l))"
    using assms(2) by (auto simp: list_all2_conv_all_nth bounded_values_def dest!: nth_mem split: prod.splits)
  then have "map snd ?l \<in> set (product_lists (map (label_values (callee c)) (map fst ?l)))"
    by (rule in_product_lists)
  moreover have "?l = zip (map fst ?l) (map snd ?l)" by (simp add: zip_map_fst_snd)
  ultimately show ?thesis
    unfolding instrument_series_def fits_name [OF assms(1), symmetric]
      fits_labels [OF assms(1,3), symmetric] by (metis (no_types, lifting) image_eqI list.set_map)
qed

lemma length_instrument_series:
  "length (instrument_series I) =
     foldr (*) (map (\<lambda>k. length (label_values (instrumentName I) k)) (labelNames I)) 1"
  by (simp add: instrument_series_def length_product_lists o_def foldr_map)

lemma series_total: "length (concat (map instrument_series instruments)) = 35253"
  by (simp add: length_concat instruments_def length_instrument_series label_values_def
      outcome_values_def status_values_def http_statuses_def routes_def del: upt_rec_numeral)


subsection \<open>Collections\<close>

fun touches :: "string \<Rightarrow> labels \<Rightarrow> metric_call \<Rightarrow> bool" where
  "touches n l (Observe m _ _) = (m = n)"
| "touches n l (GaugeReset m) = (m = n)"
| "touches n l c = (callee c = n \<and> callLabels c = l)"

text \<open>The series a collector owns, and what they show after a collection.\<close>

fun watched :: "collector \<Rightarrow> string \<Rightarrow> labels \<Rightarrow> bool" where
  "watched ConcurrencyCollector n l \<longleftrightarrow>
     n \<in> {''concurrency_active'', ''concurrency_queued''} \<or>
     n = ''collector_up'' \<and> l = [(''collector'', js ''concurrency'')]"
| "watched ProvidersCollector n l \<longleftrightarrow>
     n = ''circuit_state'' \<or> n = ''collector_up'' \<and> l = [(''collector'', js ''circuits'')]"
| "watched DepthCollector n l \<longleftrightarrow>
     n = ''jobs_depth'' \<or> n = ''collector_up'' \<and> l = [(''collector'', js ''jobs'')]"

definition shows_up :: "(string \<Rightarrow> labels \<Rightarrow> number option) \<Rightarrow> string \<Rightarrow> bool \<Rightarrow> bool" where
  "shows_up rd c ok \<longleftrightarrow>
     rd ''collector_up'' [(''collector'', js c)] = Some (Num (if ok then 1 else 0))"

definition snapshot_labels :: "(jstring \<times> CircuitSnapshot) list \<Rightarrow> jstring list" where
  "snapshot_labels ps = map (\<lambda>p. providerLabel (fst p)) ps"

fun shows_collection :: "(string \<Rightarrow> labels \<Rightarrow> number option) \<Rightarrow> collection \<Rightarrow> bool" where
  "shows_collection rd (Concurrency (Inr v)) \<longleftrightarrow>
     shows_up rd ''concurrency'' True \<and>
     rd ''concurrency_active'' [] = Some (Num (of_int (snap_active v))) \<and>
     rd ''concurrency_queued'' [] = Some (Num (of_int (snap_queued v)))"
| "shows_collection rd (Concurrency (Inl _)) \<longleftrightarrow>
     shows_up rd ''concurrency'' False \<and>
     rd ''concurrency_active'' [] = Some NaN \<and> rd ''concurrency_queued'' [] = Some NaN"
| "shows_collection rd (Providers (Inr ps)) \<longleftrightarrow>
     shows_up rd ''circuits'' True \<and>
     (\<forall>n c. providerLabel n \<notin> set (snapshot_labels ps) \<longrightarrow> rd ''circuit_state'' (circuit_labels n c) = None) \<and>
     (distinct (snapshot_labels ps) \<longrightarrow>
      (\<forall>p c. p \<in> set ps \<longrightarrow>
         rd ''circuit_state'' (circuit_labels (fst p) c) = Some (Num (if snapState (snd p) = c then 1 else 0))))"
| "shows_collection rd (Providers (Inl _)) \<longleftrightarrow>
     shows_up rd ''circuits'' False \<and> (\<forall>n c. rd ''circuit_state'' (circuit_labels n c) = None)"
| "shows_collection rd (Depth (Inr d)) \<longleftrightarrow>
     shows_up rd ''jobs'' True \<and>
     rd ''jobs_depth'' [(''status'', js ''queued'')] = Some (Num (of_int (depthQueued d))) \<and>
     rd ''jobs_depth'' [(''status'', js ''retrying'')] = Some (Num (of_int (depthRetrying d))) \<and>
     rd ''jobs_depth'' [(''status'', js ''active'')] = Some (Num (of_int (depthActive d)))"
| "shows_collection rd (Depth (Inl _)) \<longleftrightarrow>
     shows_up rd ''jobs'' False \<and>
     (\<forall>st \<in> set [''queued'', ''retrying'', ''active'']. rd ''jobs_depth'' [(''status'', js st)] = Some NaN)"

lemma shows_cong:
  assumes "\<And>n l. watched (kind_of c) n l \<Longrightarrow> rd' n l = rd n l" and "shows_collection rd c"
  shows "shows_collection rd' c"
  using assms by (cases "(rd, c)" rule: shows_collection.cases) (auto simp: shows_up_def)

lemma record_unwatched:
  assumes "watched k n l" and "c \<in> set (record_event e)" shows "\<not> touches n l c"
  using assms by (cases e; cases k) (auto simp: Let_def split: if_splits option.splits)

lemma circuit_sets_callee: "d \<in> set (circuit_sets p) \<Longrightarrow> callee d = ''circuit_state'' \<and> (\<forall>n. d \<noteq> GaugeReset n)"
  by (auto simp: circuit_sets_def)

lemma touches_callee: "touches n l c \<Longrightarrow> callee c = n"
  by (cases c) simp_all

text \<open>The instruments of a collector, its health apart.\<close>

fun collector_gauges :: "collector \<Rightarrow> string list" where
  "collector_gauges ConcurrencyCollector = [''concurrency_active'', ''concurrency_queued'']"
| "collector_gauges ProvidersCollector = [''circuit_state'']"
| "collector_gauges DepthCollector = [''jobs_depth'']"

fun collector_name :: "collector \<Rightarrow> string" where
  "collector_name ConcurrencyCollector = ''concurrency''"
| "collector_name ProvidersCollector = ''circuits''"
| "collector_name DepthCollector = ''jobs''"

lemma watched_iff:
  "watched k n l \<longleftrightarrow> n \<in> set (collector_gauges k) \<or>
     n = ''collector_up'' \<and> l = [(''collector'', js (collector_name k))]"
  by (cases k) simp_all

lemma collector_gauges_disjoint:
  "n \<in> set (collector_gauges k) \<Longrightarrow> n \<in> set (collector_gauges k') \<Longrightarrow> k = k'"
  by (cases k; cases k') auto

lemma collector_name_inj [simp]: "collector_name k = collector_name k' \<longleftrightarrow> k = k'"
  by (cases k; cases k') auto

lemma not_collector_up [simp]: "''collector_up'' \<notin> set (collector_gauges k)"
  by (cases k) auto

lemma collect_calls:
  assumes "d \<in> set (collect c)"
  shows "callee d \<in> set (collector_gauges (kind_of c)) \<or> (\<exists>ok. d = collector_up (collector_name (kind_of c)) ok)"
proof (cases c)
  case (Concurrency out)
  then show ?thesis using assms by (cases out) (auto simp: collectConcurrency_def)
next
  case (Providers out)
  then show ?thesis using assms
    by (cases out) (auto simp: collectProviders_def dest: circuit_sets_callee)
next
  case (Depth out)
  then show ?thesis using assms by (cases out) (auto simp: collectQueueDepth_def)
qed

lemma collect_unwatched:
  assumes "watched k n l" and "kind_of c \<noteq> k" and "d \<in> set (collect c)" shows "\<not> touches n l d"
proof
  assume t: "touches n l d"
  from collect_calls [OF assms(3)] show False
  proof
    assume "callee d \<in> set (collector_gauges (kind_of c))"
    with touches_callee [OF t] have "n \<in> set (collector_gauges (kind_of c))" by simp
    with assms(1,2) show False by (auto simp: watched_iff dest: collector_gauges_disjoint)
  next
    assume "\<exists>ok. d = collector_up (collector_name (kind_of c)) ok"
    with t assms(1,2) show False by (auto simp: collector_up_def watched_iff)
  qed
qed

lemma circuit_labels_eq [simp]:
  "circuit_labels n c = circuit_labels m d \<longleftrightarrow> providerLabel n = providerLabel m \<and> c = d"
  by (simp add: circuit_labels_def)

lemma circuit_sets_touch:
  "d \<in> set (circuit_sets p) \<Longrightarrow> touches ''circuit_state'' (circuit_labels n c) d \<Longrightarrow>
   providerLabel n = providerLabel (fst p)"
  by (auto simp: circuit_sets_def)

context prom_client
begin

lemma reading_untouched:
  assumes "\<forall>c \<in> set cs. \<not> touches n l c"
  shows "reading (calls_on call r cs) n l = reading r n l"
  using assms
proof (induction cs arbitrary: r)
  case (Cons c cs)
  have "reading (call r c) n l = reading r n l"
    using Cons.prems by (cases c) (auto simp: inc dec gauge_set reset_other observe_reading)
  with Cons show ?case by (simp add: calls_on_def)
qed (simp add: calls_on_def)

lemma calls_on_append: "calls_on call r (cs @ ds) = calls_on call (calls_on call r cs) ds"
  by (simp add: calls_on_def)

lemma circuit_sets_reading:
  "reading (calls_on call r (circuit_sets p)) ''circuit_state'' (circuit_labels (fst p) c) =
     Some (Num (if snapState (snd p) = c then 1 else 0))"
  by (cases c) (simp_all add: calls_on_def circuit_sets_def gauge_set)

lemma snapshot_reading:
  assumes "distinct (snapshot_labels ps)" and "p \<in> set ps"
  shows "reading (calls_on call r (concat (map circuit_sets ps))) ''circuit_state'' (circuit_labels (fst p) c) =
     Some (Num (if snapState (snd p) = c then 1 else 0))"
proof -
  obtain xs ys where ps: "ps = xs @ p # ys" using assms(2) by (meson split_list)
  have "\<forall>d \<in> set (concat (map circuit_sets ys)). \<not> touches ''circuit_state'' (circuit_labels (fst p) c) d"
    using assms(1) by (auto simp: ps snapshot_labels_def image_iff dest: circuit_sets_touch)
  then show ?thesis
    by (simp add: ps calls_on_append reading_untouched circuit_sets_reading)
qed

lemma snapshot_reading_other:
  assumes "providerLabel n \<notin> set (snapshot_labels ps)"
  shows "reading (calls_on call r (concat (map circuit_sets ps))) ''circuit_state'' (circuit_labels n c) =
     reading r ''circuit_state'' (circuit_labels n c)"
  using assms by (intro reading_untouched) (auto simp: snapshot_labels_def image_iff dest: circuit_sets_touch)

lemma collector_up_reading:
  "shows_up (reading (calls_on call r (cs @ [collector_up c ok]))) c ok"
  by (simp add: shows_up_def calls_on_def collector_up_def gauge_set)

lemma reading_before_up:
  "n \<noteq> ''collector_up'' \<Longrightarrow>
   reading (calls_on call r (cs @ [collector_up c ok])) n l = reading (calls_on call r cs) n l"
  by (simp add: calls_on_def collector_up_def gauge_set)

lemma reset_reading:
  "reading (calls_on call r (GaugeReset ''circuit_state'' # cs)) n l =
   reading (calls_on call (call r (GaugeReset ''circuit_state'')) cs) n l"
  by (simp add: calls_on_def)

lemma collect_shows_providers:
  "shows_collection (reading (calls_on call r (collectProviders out))) (Providers out)"
proof (cases out)
  case (Inl e)
  then have out: "collectProviders out = [GaugeReset ''circuit_state''] @ [collector_up ''circuits'' False]"
    by (simp add: collectProviders_def)
  show ?thesis unfolding out unfolding Inl
    by (auto simp: collector_up_reading reading_before_up simp del: append.simps)
      (simp add: calls_on_def gauge_reset circuit_labels_def)
next
  case (Inr ps)
  let ?r = "call r (GaugeReset ''circuit_state'')"
  have out: "collectProviders out =
      (GaugeReset ''circuit_state'' # concat (map circuit_sets ps)) @ [collector_up ''circuits'' True]"
    by (simp add: Inr collectProviders_def)
  have "reading ?r ''circuit_state'' (circuit_labels n c) = None" for n c
    by (simp add: gauge_reset circuit_labels_def)
  then show ?thesis unfolding out unfolding Inr
    by (simp add: collector_up_reading reading_before_up reset_reading snapshot_reading
        snapshot_reading_other del: append.simps)
qed

lemma collect_shows: "shows_collection (reading (calls_on call r (collect c))) c"
proof (cases c)
  case (Concurrency out)
  then show ?thesis
    by (cases out) (simp_all add: collectConcurrency_def shows_up_def calls_on_def collector_up_def gauge_set)
next
  case (Depth out)
  then show ?thesis
    by (cases out)
      (simp_all add: collectQueueDepth_def depth_of_def shows_up_def calls_on_def collector_up_def gauge_set)
qed (simp add: collect_shows_providers)

lemma shows_kept:
  assumes "shows_collection (reading r) c"
  shows "shows_collection (reading (calls_on call r (record_event e))) c"
    and "kind_of d \<noteq> kind_of c \<Longrightarrow> shows_collection (reading (calls_on call r (collect d))) c"
  using assms
  by (auto intro!: shows_cong [of c _ "reading r"] reading_untouched dest: record_unwatched collect_unwatched)


text \<open>
  The state of a scrape: every collector is still pending, or one of the collections \<open>C\<close> is
  of its kind and is what its series show.
\<close>

definition scrape_state :: "collection set \<Rightarrow> collector list \<Rightarrow> nat list \<Rightarrow> 'r metrics \<Rightarrow> bool" where
  "scrape_state C ks ws m \<longleftrightarrow>
     (\<exists>cs. scraping m = Some (ws, cs) \<and>
        (\<forall>k \<in> set ks. k \<in> set cs \<or> (\<exists>c \<in> C. kind_of c = k \<and> shows_collection (reading (registry m)) c)))"

lemma scrape_state_Collected:
  assumes "scrape_state C ks ws m"
  shows "scrape_state (insert d C) ks ws (metrics_step call m (Collected d))"
proof -
  obtain cs where cs: "scraping m = Some (ws, cs)"
    and k: "\<forall>k \<in> set ks. k \<in> set cs \<or> (\<exists>c \<in> C. kind_of c = k \<and> shows_collection (reading (registry m)) c)"
    using assms by (auto simp: scrape_state_def)
  let ?r = "calls_on call (registry m) (collect d)"
  show ?thesis
  proof (cases "kind_of d \<in> set cs")
    case True
    have "k \<in> set (remove1 (kind_of d) cs) \<or> (\<exists>c \<in> insert d C. kind_of c = k \<and> shows_collection (reading ?r) c)"
      if "k \<in> set ks" for k
    proof (cases "k = kind_of d")
      case True
      then show ?thesis using collect_shows [of "registry m" d] by auto
    next
      case False
      then show ?thesis using k that shows_kept(2) [of "registry m" _ d] by (metis in_set_remove1 insertCI)
    qed
    with True cs show ?thesis by (simp add: scrape_state_def)
  next
    case False
    with cs k show ?thesis by (auto simp: scrape_state_def)
  qed
qed

lemma scrape_state_step:
  assumes "scrape_state C ks ws m" and "ev \<noteq> Encoded"
  shows "scrape_state (C \<union> {c. ev = Collected c}) ks (ws @ (case ev of Scrape j \<Rightarrow> [j] | _ \<Rightarrow> []))
    (metrics_step call m ev)"
proof (cases ev)
  case (Record e)
  then show ?thesis using assms(1) shows_kept(1) by (fastforce simp: scrape_state_def)
next
  case (Collected d)
  then show ?thesis using scrape_state_Collected [OF assms(1), of d] by simp
qed (use assms in \<open>auto simp: scrape_state_def\<close>)

lemma scrape_state_run:
  assumes "scrape_state C ks ws m" and "Encoded \<notin> set evs"
  shows "scrape_state (C \<union> {c. Collected c \<in> set evs}) ks (ws @ concat (map (\<lambda>ev. case ev of Scrape j \<Rightarrow> [j] | _ \<Rightarrow> []) evs))
    (run (metrics_step call) m evs)"
  using assms
proof (induction evs arbitrary: m C ws)
  case (Cons ev evs)
  have "scrape_state (C \<union> {c. ev = Collected c}) ks (ws @ (case ev of Scrape j \<Rightarrow> [j] | _ \<Rightarrow> []))
      (metrics_step call m ev)"
    using Cons.prems by (intro scrape_state_step) auto
  from Cons.IH [OF this] Cons.prems(2)
  have "scrape_state ((C \<union> {c. ev = Collected c}) \<union> {c. Collected c \<in> set evs}) ks
      (ws @ concat (map (\<lambda>ev. case ev of Scrape j \<Rightarrow> [j] | _ \<Rightarrow> []) (ev # evs)))
      (run (metrics_step call) m (ev # evs))"
    by simp
  moreover have "(C \<union> {c. ev = Collected c}) \<union> {c. Collected c \<in> set evs} =
      C \<union> {c. Collected c \<in> set (ev # evs)}" by auto
  ultimately show ?case by (simp only:)
qed simp

end

section \<open>Properties\<close>

text \<open>
  C20: the gauge of active provider calls is exact. After any interleaving of routing passes,
  with the router's events recorded in order among any other events of the process, the gauge
  of a provider label and a mode shows the number of calls of that mode in flight to providers
  with that label, whatever registry keeps the documented laws of the metrics package; it never
  drifts, on any outcome of a call.
\<close>

theorem provider_gauge_exact:
  assumes "prom_client call reading bucket" and "\<forall>n l. reading r0 n l = None"
    and "s = run (router_step r) (new_router bs) evs"
    and "filter is_provider_call es = filter is_provider_call (routerMetrics s)"
  shows "level (reading (recorded call r0 es) ''provider_active'' [(''provider'', l), (''mode'', mode_label md)]) =
    Num (of_nat (card {i. \<exists>t gen u. in_flight s i = Some (t, gen, u) \<and> call_mode s i = Some md \<and>
                        providerLabel (name_of r t) = l}))"
proof -
  have calls: "filter (starts_of P) es = filter (starts_of P) (routerMetrics s)"
    "filter (ends_of P) es = filter (ends_of P) (routerMetrics s)" for P
    by (rule filter_within [OF assms(4)], erule starts_are_calls)
      (rule filter_within [OF assms(4)], erule ends_are_calls)
  have "length (filter (starts_of (labelled l md)) es) =
      length (filter (ends_of (labelled l md)) es) + card (in_flight_to r (labelled l md) s)"
    unfolding calls assms(3) by (rule router_metrics_balance)
  from prom_client.active_gauge [OF assms(1) _ _ net_provider_active this] assms(2)
  show ?thesis
    by (simp add: provider_labels_def in_flight_to_def labelled_def conj_commute conj_left_commute)
qed

lemma provider_gauge_exact_witness:
  "level (promReading (recorded prom_call prom_empty
      (routerMetrics (run (router_step demo_router) (new_router (\<lambda>_. demo_breaker)) demo_events) @ [HttpStart]))
      ''provider_active'' [(''provider'', js ''ollama''), (''mode'', mode_label ModeChat)]) =
   Num (of_nat (card {i. \<exists>t gen u.
      in_flight (run (router_step demo_router) (new_router (\<lambda>_. demo_breaker)) demo_events) i = Some (t, gen, u) \<and>
      call_mode (run (router_step demo_router) (new_router (\<lambda>_. demo_breaker)) demo_events) i = Some ModeChat \<and>
      providerLabel (name_of demo_router t) = js ''ollama''}))"
  by (rule provider_gauge_exact [OF prom.prom_client_axioms _ refl]) (simp_all add: prom_empty_def)

text \<open>
  every request is counted in and out exactly once. However the \<open>finish\<close> and \<open>close\<close> events
  of the responses come, together, twice or in either order, the gauge of active requests shows
  the number of requests that have started and not ended, one \<open>http_end\<close> event is recorded for
  each request that has ended, and the \<open>close\<close> of a response ends its request.
\<close>

theorem http_gauge_exact:
  assumes "prom_client call reading bucket" and "\<forall>n l. reading r0 n l = None"
    and "s = run http_step new_http evs"
    and "filter is_http es = filter is_http (httpMetrics s)"
  shows "level (reading (recorded call r0 es) ''http_active'' []) =
      Num (of_nat (card {i. \<exists>x. exchanges s i = Some x \<and> \<not> exchangeFinished x})) \<and>
    length (filter is_end es) = card {i. \<exists>x. exchanges s i = Some x \<and> exchangeFinished x} \<and>
    (\<forall>i x wf rd. exchanges s i = Some x \<longrightarrow>
       (\<exists>y. exchanges (http_step s (OnClose i wf rd)) i = Some y \<and> exchangeFinished y))"
proof -
  have ev: "filter is_start es = filter is_start (httpMetrics s)"
    "filter is_end es = filter is_end (httpMetrics s)"
    by (rule filter_within [OF assms(4)], erule is_http_simps)
      (rule filter_within [OF assms(4)], erule is_http_simps)
  have bal: "http_balanced s" unfolding assms(3) by (rule http_balanced_run)
  then have "length (filter is_start es) = length (filter is_end es) + card (open_exchanges s)"
    by (simp add: ev http_balanced_def)
  from prom_client.active_gauge [OF assms(1) _ _ net_http_active this] assms(2)
  have "level (reading (recorded call r0 es) ''http_active'' []) = Num (of_nat (card (open_exchanges s)))"
    by simp
  moreover have "exchanges s i = Some x \<Longrightarrow>
      \<exists>y. exchanges (http_step s (OnClose i wf rd)) i = Some y \<and> exchangeFinished y" for i x wf rd
    by (auto simp: finishHttp_def)
  ultimately show ?thesis
    using bal by (simp add: http_balanced_def ev open_exchanges_def finished_exchanges_def)
qed

definition demo_reading :: http_reading where
  "demo_reading = \<lparr>readMethod = js ''GET'', readRoute = Some (js ''/health''), headersSent = True,
     rawStatusCode = 200, readNow = 7\<rparr>"

lemma http_gauge_exact_witness:
  "\<exists>s es. s = run http_step new_http
      [OnRequest 0 0, OnRequest 1 2, OnFinish 0 demo_reading, OnClose 0 True demo_reading] \<and>
    es = RateLimitRejection # httpMetrics s \<and>
    level (promReading (recorded prom_call prom_empty es) ''http_active'' []) = Num 1 \<and>
    length (filter is_end es) = 1"
proof -
  define s where "s = run http_step new_http
      [OnRequest 0 0, OnRequest 1 2, OnFinish 0 demo_reading, OnClose 0 True demo_reading]"
  have x: "exchanges s = [0 \<mapsto> \<lparr>exchangeStart = 0, exchangeFinished = True\<rparr>,
      1 \<mapsto> \<lparr>exchangeStart = 2, exchangeFinished = False\<rparr>]"
    by (auto simp: s_def new_http_def finishHttp_def)
  have "{i. \<exists>x. exchanges s i = Some x \<and> \<not> exchangeFinished x} = {1}"
    "{i. \<exists>x. exchanges s i = Some x \<and> exchangeFinished x} = {0}"
    by (auto simp: x split: if_splits)
  moreover have "filter is_http (RateLimitRejection # httpMetrics s) = filter is_http (httpMetrics s)"
    "\<forall>n l. promReading prom_empty n l = None"
    by (simp_all add: prom_empty_def)
  ultimately have "level (promReading (recorded prom_call prom_empty (RateLimitRejection # httpMetrics s))
      ''http_active'' []) = Num 1 \<and> length (filter is_end (RateLimitRejection # httpMetrics s)) = 1"
    using http_gauge_exact [OF prom.prom_client_axioms _ s_def] by simp
  then show ?thesis unfolding s_def by blast
qed

text \<open>
  C37: metrics cannot grow without bound. Whatever methods, routes, status codes and provider
  names the events of a process carry, every call that recording them makes is of the right
  kind for a registered instrument, with exactly its labels and no negative duration, and all
  of them together write at most 35253 different series.
\<close>

theorem metric_series_bounded:
  "(\<forall>c \<in> set (concat (map record_event es)). \<exists>I \<in> set instruments. fits c I) \<and>
   finite ((\<lambda>c. (callee c, callLabels c)) ` set (concat (map record_event es))) \<and>
   card ((\<lambda>c. (callee c, callLabels c)) ` set (concat (map record_event es))) \<le> 35253"
proof -
  have "\<forall>c \<in> set (concat (map record_event es)). \<exists>I \<in> set instruments. fits c I"
    using record_fits by auto
  moreover have "(\<lambda>c. (callee c, callLabels c)) ` set (concat (map record_event es)) \<subseteq>
      set (concat (map instrument_series instruments))"
  proof (rule image_subsetI)
    fix c assume "c \<in> set (concat (map record_event es))"
    then obtain e where c: "c \<in> set (record_event e)" by auto
    from record_fits [OF c] obtain I where I: "I \<in> set instruments" "fits c I" by blast
    have "c \<noteq> GaugeReset n" for n
      using c by (cases e) (auto simp: Let_def split: if_splits option.splits)
    with I fits_series [OF I(2) record_bounded [OF c]]
    show "(callee c, callLabels c) \<in> set (concat (map instrument_series instruments))" by auto
  qed
  moreover have "card (set (concat (map instrument_series instruments))) \<le> 35253"
    using card_length [of "concat (map instrument_series instruments)"] series_total by simp
  ultimately show ?thesis
    by (metis (no_types, lifting) List.finite_set card_mono finite_imageI order_trans)
qed

lemma metric_series_bounded_witness:
  "(\<exists>I \<in> set instruments. fits (Inc ''fallbacks_total'' [(''from'', js ''other''), (''to'', js ''openai'')]) I) \<and>
   card ((\<lambda>c. (callee c, callLabels c)) ` set (concat (map record_event [Fallback (js ''mistral'') (js ''openai'')]))) \<le> 35253"
  using metric_series_bounded [of "[Fallback (js ''mistral'') (js ''openai'')]"]
  by (simp add: providerLabel_def)

text \<open>
  C38: a scrape shows each source as it answered during that scrape. When the collectors of a
  scrape have finished, every series of a bound collector shows an outcome collected since the
  scrape began: the values and a health of one, or, for a source that failed or timed out,
  no number and a health of zero, never a stale value; circuit states are one-hot. Requests that
  arrive meanwhile share the collection and its answer, and the next request starts a new one.
\<close>

theorem scrape_coherent:
  assumes "prom_client call reading bucket" and "scraping m = None"
    and "m' = run (metrics_step call) m (Scrape i # evs)" and "Encoded \<notin> set evs"
    and "scraping m' = Some (ws, [])"
  shows "(\<forall>k \<in> set (collectors m). \<exists>c. Collected c \<in> set evs \<and> kind_of c = k \<and>
            shows_collection (reading (registry m')) c) \<and>
         (\<forall>j. j = i \<or> Scrape j \<in> set evs \<longrightarrow>
            answers (metrics_step call m' Encoded) j = Some (registry m')) \<and>
         scraping (metrics_step call m' Encoded) = None"
proof -
  have "prom_client.scrape_state reading {} (collectors m) [i] (metrics_step call m (Scrape i))"
    using assms(2) by (simp add: prom_client.scrape_state_def [OF assms(1)])
  from prom_client.scrape_state_run [OF assms(1) this assms(4)]
  have "prom_client.scrape_state reading {c. Collected c \<in> set evs} (collectors m)
      (i # concat (map (\<lambda>ev. case ev of Scrape j \<Rightarrow> [j] | _ \<Rightarrow> []) evs)) m'"
    by (simp add: assms(3))
  then have ws: "ws = i # concat (map (\<lambda>ev. case ev of Scrape j \<Rightarrow> [j] | _ \<Rightarrow> []) evs)"
    and "\<forall>k \<in> set (collectors m). \<exists>c. Collected c \<in> set evs \<and> kind_of c = k \<and>
            shows_collection (reading (registry m')) c"
    using assms(5) by (auto simp: prom_client.scrape_state_def [OF assms(1)])
  moreover have "j \<in> set ws" if "j = i \<or> Scrape j \<in> set evs" for j
    using that by (auto simp: ws intro!: bexI [of _ "Scrape j"])
  ultimately show ?thesis using assms(5) by simp
qed

lemma scrape_coherent_witness:
  "\<exists>m m'. m = newMetrics prom_empty [DepthCollector] \<and>
     m' = run (metrics_step prom_call) m
       (Scrape 0 # [Scrape 1, Record HttpStart, Collected (Depth (readDepth 1000 None))]) \<and>
     promReading (registry m') ''jobs_depth'' [(''status'', js ''queued'')] = Some NaN \<and>
     answers (metrics_step prom_call m' Encoded) 1 = Some (registry m')"
proof -
  define m where "m = newMetrics prom_empty [DepthCollector]"
  define evs where "evs = [Scrape 1, Record HttpStart, Collected (Depth (readDepth 1000 None))]"
  define m' where "m' = run (metrics_step prom_call) m (Scrape 0 # evs)"
  have "scraping m = None" "Encoded \<notin> set evs" "scraping m' = Some ([0, 1], [])"
    by (simp_all add: m_def m'_def evs_def newMetrics_def)
  from scrape_coherent [OF prom.prom_client_axioms this(1) m'_def this(2,3)]
  have "promReading (registry m') ''jobs_depth'' [(''status'', js ''queued'')] = Some NaN \<and>
     answers (metrics_step prom_call m' Encoded) 1 = Some (registry m')"
    by (auto simp: m_def evs_def newMetrics_def readDepth_def)
  then show ?thesis unfolding m'_def m_def evs_def by blast
qed

end
