(* ===== verification/Json.thy ===== *)
theory Json
  imports Prelude
begin

text \<open>
  JSON as the code uses it: \<open>JSON.stringify\<close> of the standard library on the values the program
  prints (strings, integers, booleans, null, arrays and plain objects), \<open>JSON.parse\<close> on any
  text, and the property accesses the validators make. Objects are association lists in
  property order with distinct keys. A number is its exact value: the rounding of a decimal
  literal to a double, and the overflow of a literal beyond the range of doubles, are not
  modelled.
\<close>

section \<open>Definitions\<close>

datatype json =
    JNull | JBool bool | JNum rat | JStr jstring | JArr "json list" | JObj "(jstring \<times> json) list"

subsection \<open>Property access and type tests\<close>

fun isObject :: "json \<Rightarrow> bool" where
  "isObject (JObj _) = True"
| "isObject _ = False"

fun isString :: "json \<Rightarrow> bool" where
  "isString (JStr _) = True"
| "isString _ = False"

text \<open>\<open>value.key\<close>, where \<open>None\<close> is \<open>undefined\<close>.\<close>

fun jprop :: "json \<Rightarrow> string \<Rightarrow> json option" where
  "jprop (JObj kvs) k = map_of kvs (js k)"
| "jprop _ k = None"

subsection \<open>JSON.stringify\<close>

definition is_high :: "code_unit \<Rightarrow> bool" where
  "is_high u \<longleftrightarrow> 0xD800 \<le> u \<and> u \<le> 0xDBFF"

definition is_low :: "code_unit \<Rightarrow> bool" where
  "is_low u \<longleftrightarrow> 0xDC00 \<le> u \<and> u \<le> 0xDFFF"

definition hex_digit :: "nat \<Rightarrow> code_unit" where
  "hex_digit n = of_nat (if n < 10 then 48 + n else 87 + n)"

definition hex4 :: "code_unit \<Rightarrow> jstring" where
  "hex4 u = (let n = unat u in
     [hex_digit (n div 4096 mod 16), hex_digit (n div 256 mod 16), hex_digit (n div 16 mod 16),
      hex_digit (n mod 16)])"

definition escape_unit :: "code_unit \<Rightarrow> jstring" where
  "escape_unit u =
     (if u = 8 then js [CHR 92, CHR ''b''] else if u = 9 then js [CHR 92, CHR ''t'']
      else if u = 10 then js [CHR 92, CHR ''n''] else if u = 12 then js [CHR 92, CHR ''f'']
      else if u = 13 then js [CHR 92, CHR ''r''] else if u = 34 then [92, 34]
      else if u = 92 then [92, 92]
      else if u < 32 \<or> is_high u \<or> is_low u then [92, 117] @ hex4 u
      else [u])"

text \<open>A surrogate pair is copied; a lone surrogate is escaped.\<close>

fun quote_units :: "jstring \<Rightarrow> jstring" where
  "quote_units [] = []"
| "quote_units [u] = escape_unit u"
| "quote_units (u # v # us) =
     (if is_high u \<and> is_low v then u # v # quote_units us
      else escape_unit u @ quote_units (v # us))"

definition quote :: "jstring \<Rightarrow> jstring" where
  "quote s = [34] @ quote_units s @ [34]"

fun join_comma :: "jstring list \<Rightarrow> jstring" where
  "join_comma [] = []"
| "join_comma [x] = x"
| "join_comma (x # y # xs) = x @ [44] @ join_comma (y # xs)"

fun stringify :: "json \<Rightarrow> jstring" where
  "stringify JNull = js ''null''"
| "stringify (JBool b) = (if b then js ''true'' else js ''false'')"
| "stringify (JNum q) = string_of_int \<lfloor>q\<rfloor>"
| "stringify (JStr s) = quote s"
| "stringify (JArr vs) = [91] @ join_comma (map stringify vs) @ [93]"
| "stringify (JObj kvs) = [123] @ join_comma (map (\<lambda>(k, v). quote k @ [58] @ stringify v) kvs) @ [125]"

text \<open>The values the program prints: integers that print without an exponent, distinct keys.\<close>

fun printable :: "json \<Rightarrow> bool" where
  "printable (JNum q) = (is_int_rat q \<and> \<bar>q\<bar> \<le> 2 ^ 53 - 1)"
| "printable (JArr vs) = (\<forall>v \<in> set vs. printable v)"
| "printable (JObj kvs) = (distinct (map fst kvs) \<and> (\<forall>kv \<in> set kvs. printable (snd kv)))"
| "printable _ = True"

subsection \<open>JSON.parse\<close>

definition is_json_ws :: "code_unit \<Rightarrow> bool" where
  "is_json_ws u \<longleftrightarrow> u = 32 \<or> u = 9 \<or> u = 10 \<or> u = 13"

definition skip_ws :: "jstring \<Rightarrow> jstring" where
  "skip_ws s = dropWhile is_json_ws s"

definition is_digit :: "code_unit \<Rightarrow> bool" where
  "is_digit u \<longleftrightarrow> 48 \<le> u \<and> u \<le> 57"

definition digits_value :: "jstring \<Rightarrow> nat" where
  "digits_value ds = foldl (\<lambda>n u. 10 * n + (unat u - 48)) 0 ds"

definition hex_value :: "code_unit \<Rightarrow> nat option" where
  "hex_value u =
     (if 48 \<le> u \<and> u \<le> 57 then Some (unat u - 48)
      else if 97 \<le> u \<and> u \<le> 102 then Some (unat u - 87)
      else if 65 \<le> u \<and> u \<le> 70 then Some (unat u - 55) else None)"

fun parse_hex4 :: "jstring \<Rightarrow> (code_unit \<times> jstring) option" where
  "parse_hex4 (a # b # c # d # us) =
     (case (hex_value a, hex_value b, hex_value c, hex_value d) of
        (Some h3, Some h2, Some h1, Some h0) \<Rightarrow>
          Some (of_nat (4096 * h3 + 256 * h2 + 16 * h1 + h0), us)
      | _ \<Rightarrow> None)"
| "parse_hex4 _ = None"

text \<open>One character of a string, after the opening quote.\<close>

definition parse_escape :: "jstring \<Rightarrow> (code_unit \<times> jstring) option" where
  "parse_escape us =
     (case us of
        [] \<Rightarrow> None
      | v # vs \<Rightarrow>
          if v = 34 \<or> v = 92 \<or> v = 47 then Some (v, vs)
          else if v = 98 then Some (8, vs) else if v = 102 then Some (12, vs)
          else if v = 110 then Some (10, vs) else if v = 114 then Some (13, vs)
          else if v = 116 then Some (9, vs)
          else if v = 117 then parse_hex4 vs else None)"

fun parse_string :: "nat \<Rightarrow> jstring \<Rightarrow> (jstring \<times> jstring) option" where
  "parse_string 0 s = None"
| "parse_string (Suc n) [] = None"
| "parse_string (Suc n) (u # us) =
     (if u = 34 then Some ([], us)
      else if u = 92 then
        (case parse_escape us of
           None \<Rightarrow> None
         | Some (c, vs) \<Rightarrow> map_option (\<lambda>(s, rest). (c # s, rest)) (parse_string n vs))
      else if u < 32 then None
      else map_option (\<lambda>(s, rest). (u # s, rest)) (parse_string n us))"

text \<open>
  The number grammar: an optional sign, an integer part without superfluous leading zeros, an
  optional fraction and an optional exponent.
\<close>

definition parse_fraction :: "jstring \<Rightarrow> (rat \<times> jstring) option" where
  "parse_fraction s =
     (case s of
        u # us \<Rightarrow>
          if u = 46 then
            (let ds = takeWhile is_digit us in
             if ds = [] then None
             else Some (of_nat (digits_value ds) / 10 ^ length ds, dropWhile is_digit us))
          else Some (0, s)
      | [] \<Rightarrow> Some (0, s))"

definition parse_exponent :: "jstring \<Rightarrow> (rat \<times> jstring) option" where
  "parse_exponent s =
     (case s of
        u # us \<Rightarrow>
          if u = 101 \<or> u = 69 then
            (let (neg, vs) = (case us of
                   v # vs \<Rightarrow> if v = 45 then (True, vs) else if v = 43 then (False, vs) else (False, us)
                 | [] \<Rightarrow> (False, us));
                 ds = takeWhile is_digit vs
             in if ds = [] then None
                else Some (if neg then 1 / 10 ^ digits_value ds else 10 ^ digits_value ds,
                           dropWhile is_digit vs))
          else Some (1, s)
      | [] \<Rightarrow> Some (1, s))"

definition parse_number :: "jstring \<Rightarrow> (rat \<times> jstring) option" where
  "parse_number s =
     (let (neg, s1) = (case s of u # us \<Rightarrow> if u = 45 then (True, us) else (False, s) | [] \<Rightarrow> (False, s));
          ds = takeWhile is_digit s1
      in if ds = [] \<or> (hd ds = 48 \<and> ds \<noteq> [48]) then None
         else case parse_fraction (dropWhile is_digit s1) of
           None \<Rightarrow> None
         | Some (f, s2) \<Rightarrow>
             (case parse_exponent s2 of
                None \<Rightarrow> None
              | Some (e, s3) \<Rightarrow>
                  Some ((if neg then - 1 else 1) * (of_nat (digits_value ds) + f) * e, s3)))"

definition strip_prefix :: "jstring \<Rightarrow> jstring \<Rightarrow> jstring option" where
  "strip_prefix p s = (if take (length p) s = p then Some (drop (length p) s) else None)"

text \<open>A repeated key overwrites the value of its first occurrence.\<close>

fun put_key :: "jstring \<Rightarrow> json \<Rightarrow> (jstring \<times> json) list \<Rightarrow> (jstring \<times> json) list" where
  "put_key k v [] = [(k, v)]"
| "put_key k v ((k', v') # kvs) = (if k = k' then (k, v) # kvs else (k', v') # put_key k v kvs)"

definition parse_scalar :: "jstring \<Rightarrow> (json \<times> jstring) option" where
  "parse_scalar s =
     (case strip_prefix (js ''null'') s of
        Some rest \<Rightarrow> Some (JNull, rest)
      | None \<Rightarrow>
          (case strip_prefix (js ''true'') s of
             Some rest \<Rightarrow> Some (JBool True, rest)
           | None \<Rightarrow>
               (case strip_prefix (js ''false'') s of
                  Some rest \<Rightarrow> Some (JBool False, rest)
                | None \<Rightarrow> map_option (\<lambda>(q, rest). (JNum q, rest)) (parse_number s))))"

text \<open>
  Values, the remaining elements of an array and the remaining members of an object, with
  fuel; every recursive call has consumed a character, so the length of the text is enough.
\<close>

fun parse_value :: "nat \<Rightarrow> jstring \<Rightarrow> (json \<times> jstring) option"
  and parse_elements :: "nat \<Rightarrow> json list \<Rightarrow> jstring \<Rightarrow> (json \<times> jstring) option"
  and parse_members :: "nat \<Rightarrow> (jstring \<times> json) list \<Rightarrow> jstring \<Rightarrow> (json \<times> jstring) option"
where
  "parse_value 0 s = None"
| "parse_value (Suc n) s =
     (case skip_ws s of
        [] \<Rightarrow> None
      | u # us \<Rightarrow>
          if u = 91 then
            (case skip_ws us of
               v # vs \<Rightarrow> if v = 93 then Some (JArr [], vs) else parse_elements n [] (v # vs)
             | [] \<Rightarrow> None)
          else if u = 123 then
            (case skip_ws us of
               v # vs \<Rightarrow> if v = 125 then Some (JObj [], vs) else parse_members n [] (v # vs)
             | [] \<Rightarrow> None)
          else if u = 34 then
            map_option (\<lambda>(t, rest). (JStr t, rest)) (parse_string (Suc (length us)) us)
          else parse_scalar (u # us))"
| "parse_elements 0 acc s = None"
| "parse_elements (Suc n) acc s =
     (case parse_value n s of
        None \<Rightarrow> None
      | Some (v, rest) \<Rightarrow>
          (case skip_ws rest of
             u # us \<Rightarrow>
               if u = 44 then parse_elements n (acc @ [v]) us
               else if u = 93 then Some (JArr (acc @ [v]), us) else None
           | [] \<Rightarrow> None))"
| "parse_members 0 acc s = None"
| "parse_members (Suc n) acc s =
     (case skip_ws s of
        u # us \<Rightarrow>
          if u \<noteq> 34 then None
          else (case parse_string (Suc (length us)) us of
            None \<Rightarrow> None
          | Some (k, rest) \<Rightarrow>
              (case skip_ws rest of
                 c # cs \<Rightarrow>
                   if c \<noteq> 58 then None
                   else (case parse_value n cs of
                     None \<Rightarrow> None
                   | Some (v, rest') \<Rightarrow>
                       (case skip_ws rest' of
                          w # ws \<Rightarrow>
                            if w = 44 then parse_members n (put_key k v acc) ws
                            else if w = 125 then Some (JObj (put_key k v acc), ws) else None
                        | [] \<Rightarrow> None))
               | [] \<Rightarrow> None))
      | [] \<Rightarrow> None)"

definition json_parse :: "jstring \<Rightarrow> json option" where
  "json_parse s =
     (case parse_value (Suc (length s)) s of
        Some (v, rest) \<Rightarrow> if skip_ws rest = [] then Some v else None
      | None \<Rightarrow> None)"

section \<open>Lemmas\<close>

subsection \<open>Strings\<close>

lemma hex_value_hex_digit: "k < 16 \<Longrightarrow> hex_value (hex_digit k) = Some k"
proof -
  assume "k < 16"
  then have "k \<in> set [0..<16]" by simp
  then show ?thesis
    by (simp add: upt_rec numeral_eq_Suc) (elim disjE; simp add: hex_digit_def hex_value_def)
qed

lemma parse_hex4_hex4: "parse_hex4 (hex4 u @ us) = Some (u, us)"
proof -
  have lt: "unat u < 65536" using unsigned_less [of u] by simp
  have "4096 * (n div 4096 mod 16) + 256 * (n div 256 mod 16) + 16 * (n div 16 mod 16) + n mod 16 = n"
    if "n < 65536" for n :: nat
  proof -
    define a where "a = n div 16"
    define b where "b = a div 16"
    define c where "c = b div 16"
    have "n div 16 = a" "n div 256 = b" "n div 4096 = c"
      by (simp_all add: a_def b_def c_def div_mult2_eq [symmetric])
    moreover have "c mod 16 = c" using that by (simp add: a_def b_def c_def div_mult2_eq [symmetric])
    moreover have "n = 16 * a + n mod 16" "a = 16 * b + a mod 16" "b = 16 * c + b mod 16"
      unfolding a_def b_def c_def by (rule mult_div_mod_eq [symmetric])+
    moreover have "4096 * c + 256 * r2 + 16 * r1 + r0 = m"
      if "m = 16 * x + r0" "x = 16 * y + r1" "y = 16 * c + r2" for m x y r0 r1 r2 :: nat
      using that by simp
    ultimately show ?thesis by metis
  qed
  note whole = this [OF lt]
  have "parse_hex4 (hex4 u @ us) = Some (of_nat (4096 * (unat u div 4096 mod 16) +
      256 * (unat u div 256 mod 16) + 16 * (unat u div 16 mod 16) + unat u mod 16), us)"
    by (simp add: hex4_def Let_def hex_value_hex_digit del: of_nat_add of_nat_mult)
  also have "\<dots> = Some (u, us)" unfolding whole by simp
  finally show ?thesis .
qed

lemma parse_string_escape:
  "parse_string (Suc n) (escape_unit u @ us) = map_option (\<lambda>(s, rest). (u # s, rest)) (parse_string n us)"
  by (auto simp: escape_unit_def js_def unit_of_char_def parse_escape_def parse_hex4_hex4)

lemma surrogate_plain:
  assumes "is_high u \<or> is_low u"
  shows "u \<noteq> 34" "u \<noteq> 92" "\<not> u < 32"
  using assms by (auto simp: is_high_def is_low_def word_le_nat_alt word_less_nat_alt)

lemma parse_string_quote:
  "length s < n \<Longrightarrow> parse_string n (quote_units s @ 34 # rest) = Some (s, rest)"
proof (induction s arbitrary: n rule: quote_units.induct)
  case 1
  then show ?case by (cases n) simp_all
next
  case (2 u)
  then obtain m where "n = Suc (Suc m)" by (cases n; cases "n - 1") auto
  then show ?case by (simp add: parse_string_escape)
next
  case (3 u v us)
  then obtain m where n: "n = Suc (Suc m)" and m: "length us < m"
    by (cases n; cases "n - 1") auto
  show ?case
  proof (cases "is_high u \<and> is_low v")
    case True
    then show ?thesis
      using 3(1) [OF True m] n surrogate_plain [of u] surrogate_plain [of v] by auto
  next
    case False
    then have "quote_units (u # v # us) = escape_unit u @ quote_units (v # us)"
      by (simp only: quote_units.simps if_False)
    then show ?thesis using 3(2) [OF False, of "Suc m"] m
      by (simp add: n parse_string_escape del: quote_units.simps parse_string.simps)
  qed
qed

lemma length_escape_unit: "1 \<le> length (escape_unit u)"
  by (simp add: escape_unit_def)

lemma length_quote_units: "length s \<le> length (quote_units s)"
proof (induction s rule: quote_units.induct)
  case (2 u)
  then show ?case using length_escape_unit [of u] by simp
next
  case (3 u v us)
  then show ?case using length_escape_unit [of u] by (auto simp: not_less_eq_eq)
qed simp

lemma parse_quote:
  "parse_string (Suc (length (quote_units s @ 34 # rest))) (quote_units s @ 34 # rest) = Some (s, rest)"
  using length_quote_units [of s] by (intro parse_string_quote) simp

subsection \<open>Numbers\<close>

lemma digits_value_snoc: "digits_value (ds @ [u]) = 10 * digits_value ds + (unat u - 48)"
  by (simp add: digits_value_def)

lemma digit_unit:
  assumes "d < 10"
  shows "is_digit (unit_of_char (char_of (48 + d)))" and "unat (unit_of_char (char_of (48 + d))) = 48 + d"
proof -
  have "(of_char (char_of (48 + d)) :: nat) = 48 + d" using assms by simp
  then have u: "unit_of_char (char_of (48 + d)) = of_nat (48 + d)" by (simp add: unit_of_char_def)
  show v: "unat (unit_of_char (char_of (48 + d))) = 48 + d" using assms unfolding u by (simp add: unat_of_nat del: of_nat_add)
  then show "is_digit (unit_of_char (char_of (48 + d)))"
    using assms by (simp add: is_digit_def word_le_nat_alt)
qed

lemma string_of_nat_digits:
  "list_all is_digit (js (string_of_nat n)) \<and> digits_value (js (string_of_nat n)) = n \<and>
   (0 < n \<longrightarrow> hd (js (string_of_nat n)) \<noteq> 48)"
proof (induction n rule: string_of_nat.induct)
  case (1 n)
  let ?c = "unit_of_char (char_of (48 + n mod 10))"
  note d = digit_unit [of "n mod 10"]
  show ?case
  proof (cases "n < 10")
    case True
    then have e: "string_of_nat n = [char_of (48 + n mod 10)]" by (simp add: string_of_nat.simps)
    have "?c \<noteq> 48" if "0 < n"
    proof
      assume "?c = 48"
      then have "unat ?c = 48" by simp
      with d(2) that True show False by simp
    qed
    with True d show ?thesis by (simp add: e js_def digits_value_def)
  next
    case False
    then have e: "js (string_of_nat n) = js (string_of_nat (n div 10)) @ [?c]"
      by (subst string_of_nat.simps) (simp add: js_def)
    have "js (string_of_nat (n div 10)) \<noteq> []" by simp
    moreover have "0 < n div 10" using False by simp
    ultimately show ?thesis using 1 [OF False] d by (simp add: e digits_value_snoc)
  qed
qed

definition ends_number :: "jstring \<Rightarrow> bool" where
  "ends_number rest \<longleftrightarrow> (case rest of [] \<Rightarrow> True | u # _ \<Rightarrow> \<not> is_digit u \<and> u \<noteq> 46 \<and> u \<noteq> 101 \<and> u \<noteq> 69)"

lemma ends_number_simps:
  assumes "ends_number rest"
  shows "takeWhile is_digit rest = []" "dropWhile is_digit rest = rest"
    "parse_fraction rest = Some (0, rest)" "parse_exponent rest = Some (1, rest)"
  using assms
  by (auto simp: ends_number_def parse_fraction_def parse_exponent_def split: list.splits)

lemma string_of_nat_0: "js (string_of_nat 0) = [48]"
  by (simp add: string_of_nat.simps js_def unit_of_char_def)

lemma digits_split:
  assumes "list_all P ds" and "takeWhile P rest = []" and "dropWhile P rest = rest"
  shows "takeWhile P (ds @ rest) = ds" and "dropWhile P (ds @ rest) = rest"
  using assms by (induction ds) auto

lemma parse_number_string_of_int:
  assumes "ends_number rest"
  shows "parse_number (string_of_int i @ rest) = Some (of_int i, rest)"
proof -
  define ds where "ds = js (string_of_nat (nat \<bar>i\<bar>))"
  note d = string_of_nat_digits [of "nat \<bar>i\<bar>", folded ds_def]
  have ne: "ds \<noteq> []" by (simp add: ds_def)
  have lead: "\<not> (hd ds = 48 \<and> ds \<noteq> [48])"
    using d by (cases "i = 0") (auto simp: ds_def string_of_nat_0)
  note split = digits_split [OF conjunct1 [OF d] ends_number_simps(1,2) [OF assms]]
  have sgn: "string_of_int i = (if i < 0 then 45 # ds else ds)"
    by (simp add: string_of_int_def ds_def js_def unit_of_char_def)
  have "hd ds \<noteq> 45" using d ne by (cases ds) (auto simp: is_digit_def word_le_nat_alt)
  then have sign: "(case string_of_int i @ rest of
      u # us \<Rightarrow> if u = 45 then (True, us) else (False, string_of_int i @ rest)
    | [] \<Rightarrow> (False, string_of_int i @ rest)) = (i < 0, ds @ rest)"
    using ne by (cases ds) (auto simp: sgn)
  have "(of_nat (nat \<bar>i\<bar>) :: rat) = (if i < 0 then - of_int i else of_int i)" by simp
  with d lead ne show ?thesis
    unfolding parse_number_def sign
    by (simp add: split ends_number_simps [OF assms] Let_def)
qed

subsection \<open>Values\<close>

lemma skip_ws_Cons [simp]: "\<not> is_json_ws u \<Longrightarrow> skip_ws (u # us) = u # us"
  by (simp add: skip_ws_def)

lemma skip_ws_Nil [simp]: "skip_ws [] = []"
  by (simp add: skip_ws_def)

lemma not_ws [simp]:
  "\<not> is_json_ws 34" "\<not> is_json_ws 44" "\<not> is_json_ws 58" "\<not> is_json_ws 91" "\<not> is_json_ws 93"
  "\<not> is_json_ws 123" "\<not> is_json_ws 125"
  by (simp_all add: is_json_ws_def)

text \<open>What may follow a printed value inside a printed value, or at its end.\<close>

definition closes :: "jstring \<Rightarrow> bool" where
  "closes rest \<longleftrightarrow> (case rest of [] \<Rightarrow> True | u # _ \<Rightarrow> u = 44 \<or> u = 93 \<or> u = 125)"

lemma closes_simps [simp]: "closes []" "closes (44 # us)" "closes (93 # us)" "closes (125 # us)"
  by (simp_all add: closes_def)

lemma closes_ends_number: "closes rest \<Longrightarrow> ends_number rest"
  by (auto simp: closes_def ends_number_def is_digit_def word_le_nat_alt split: list.splits)

text \<open>The first character of a printed number is a digit or the sign.\<close>

lemma string_of_int_head:
  obtains u us where "string_of_int i = u # us" "u = 45 \<or> is_digit u"
proof -
  let ?ds = "js (string_of_nat (nat \<bar>i\<bar>))"
  have "?ds \<noteq> []" by simp
  then obtain v vs where "?ds = v # vs" by (cases ?ds) auto
  moreover from this string_of_nat_digits [of "nat \<bar>i\<bar>"] have "is_digit v" by simp
  ultimately show thesis
    using that by (cases "i < 0") (auto simp: string_of_int_def js_def unit_of_char_def)
qed

lemma number_start:
  assumes "u = 45 \<or> is_digit u"
  shows "\<not> is_json_ws u" "u \<noteq> 34" "u \<noteq> 91" "u \<noteq> 123" "u \<noteq> 93" "u \<noteq> 125" "u \<noteq> 110" "u \<noteq> 116" "u \<noteq> 102"
  using assms by (auto simp: is_json_ws_def is_digit_def word_le_nat_alt)

lemma js_literals:
  "js ''null'' = [110, 117, 108, 108]" "js ''true'' = [116, 114, 117, 101]"
  "js ''false'' = [102, 97, 108, 115, 101]"
  by (simp_all add: js_def unit_of_char_def)

lemma stringify_head:
  obtains u us where "stringify v = u # us" "\<not> is_json_ws u" "u \<noteq> 93" "u \<noteq> 125"
proof (cases v)
  case (JNum q)
  obtain u us where "string_of_int \<lfloor>q\<rfloor> = u # us" "u = 45 \<or> is_digit u" by (rule string_of_int_head)
  with JNum that number_start [of u] show thesis by simp
next
  case (JBool b)
  then show thesis using that by (cases b) (auto simp: js_literals is_json_ws_def)
qed (use that in \<open>auto simp: js_literals is_json_ws_def quote_def\<close>)

lemma parse_scalar_number:
  assumes "ends_number rest"
  shows "parse_scalar (string_of_int i @ rest) = Some (JNum (of_int i), rest)"
proof -
  obtain u us where "string_of_int i = u # us" "u = 45 \<or> is_digit u" by (rule string_of_int_head)
  with number_start [of u] parse_number_string_of_int [OF assms, of i] show ?thesis
    by (simp add: parse_scalar_def strip_prefix_def js_literals)
qed

lemma put_key_new: "k \<notin> fst ` set kvs \<Longrightarrow> put_key k v kvs = kvs @ [(k, v)]"
  by (induction kvs) auto

lemma length_join_comma:
  "x \<in> set xs \<Longrightarrow> length x \<le> length (join_comma xs)"
  by (induction xs rule: join_comma.induct) auto

lemma parse_elements_stringify:
  assumes "\<And>v n rest. v \<in> set vs \<Longrightarrow> length (stringify v) \<le> n \<Longrightarrow> closes rest \<Longrightarrow>
      parse_value n (stringify v @ rest) = Some (v, rest)"
    and "vs \<noteq> []" and "length (join_comma (map stringify vs)) < n"
  shows "parse_elements n acc (join_comma (map stringify vs) @ 93 # rest) = Some (JArr (acc @ vs), rest)"
  using assms
proof (induction vs arbitrary: n acc rule: induct_list012)
  case (2 v)
  then obtain m where "n = Suc m" "length (stringify v) \<le> m" by (cases n) auto
  with 2(1) [of v m "93 # rest"] show ?case by simp
next
  case (3 v w vs)
  then obtain m where m: "n = Suc m" "length (join_comma (map stringify (v # w # vs))) \<le> m" by (cases n) auto
  let ?tail = "join_comma (map stringify (w # vs)) @ 93 # rest"
  have "parse_value m (stringify v @ 44 # ?tail) = Some (v, 44 # ?tail)"
    using m(2) by (intro 3(3)) auto
  moreover have "parse_elements m (acc @ [v]) ?tail = Some (JArr ((acc @ [v]) @ w # vs), rest)"
    using 3(3) m(2) by (intro 3(2)) auto
  ultimately show ?case by (simp add: m(1))
qed simp

abbreviation print_member :: "jstring \<times> json \<Rightarrow> jstring" where
  "print_member kv \<equiv> (case kv of (k, v) \<Rightarrow> quote k @ [58] @ stringify v)"

lemma parse_member_step:
  assumes "parse_value n (stringify v @ w # us) = Some (v, w # us)" and "w = 44 \<or> w = 125"
  shows "parse_members (Suc n) acc (print_member (k, v) @ w # us) =
    (if w = 44 then parse_members n (put_key k v acc) us else Some (JObj (put_key k v acc), us))"
  using assms parse_quote [of k "58 # stringify v @ w # us"]
  by (auto simp: quote_def)

lemma parse_members_stringify:
  assumes "\<And>k v n rest. (k, v) \<in> set kvs \<Longrightarrow> length (stringify v) \<le> n \<Longrightarrow> closes rest \<Longrightarrow>
      parse_value n (stringify v @ rest) = Some (v, rest)"
    and "kvs \<noteq> []" and "length (join_comma (map print_member kvs)) < n"
    and "distinct (map fst (acc @ kvs))"
  shows "parse_members n acc (join_comma (map print_member kvs) @ 125 # rest) = Some (JObj (acc @ kvs), rest)"
  using assms
proof (induction kvs arbitrary: n acc rule: induct_list012)
  case (2 kv)
  obtain k v where kv: "kv = (k, v)" by fastforce
  from 2 kv obtain m where m: "n = Suc m" "length (stringify v) \<le> m" by (cases n) auto
  have "parse_value m (stringify v @ 125 # rest) = Some (v, 125 # rest)"
    using m(2) kv by (intro 2(1)) auto
  from parse_member_step [OF this, of acc k] 2(4) show ?case
    by (simp add: m(1) kv put_key_new del: parse_members.simps)
next
  case (3 kv lw kvs)
  obtain k v where kv: "kv = (k, v)" by fastforce
  from 3 obtain m where m: "n = Suc m" "length (join_comma (map print_member (kv # lw # kvs))) \<le> m"
    by (cases n) auto
  let ?tail = "join_comma (map print_member (lw # kvs)) @ 125 # rest"
  have "parse_value m (stringify v @ 44 # ?tail) = Some (v, 44 # ?tail)"
    using m(2) kv by (intro 3(3)) auto
  note step = parse_member_step [OF this, of acc k]
  have put: "put_key k v acc = acc @ [(k, v)]" using 3(6) kv by (intro put_key_new) auto
  have "parse_members m (acc @ [(k, v)]) ?tail = Some (JObj ((acc @ [(k, v)]) @ lw # kvs), rest)"
    using 3(3,6) m(2) kv by (intro 3(2)) auto
  with step show ?case by (simp add: m(1) kv put del: parse_members.simps)
qed simp

lemma parse_value_stringify:
  "printable v \<Longrightarrow> length (stringify v) \<le> n \<Longrightarrow> closes rest \<Longrightarrow>
   parse_value n (stringify v @ rest) = Some (v, rest)"
proof (induction v arbitrary: n rest)
  case JNull
  then show ?case
    by (cases n) (simp_all add: js_literals is_json_ws_def parse_scalar_def strip_prefix_def)
next
  case (JBool b)
  then show ?case
    by (cases n; cases b) (simp_all add: js_literals is_json_ws_def parse_scalar_def strip_prefix_def)
next
  case (JNum q)
  then obtain i where q: "q = of_int i" by (auto elim: is_int_ratE)
  obtain u us where u: "string_of_int i = u # us" "u = 45 \<or> is_digit u" by (rule string_of_int_head)
  from JNum u obtain m where "n = Suc m" by (cases n) (auto simp: q)
  with u number_start [of u] parse_scalar_number [OF closes_ends_number [OF JNum.prems(3)], of i] q
  show ?case by simp
next
  case (JStr s)
  then obtain m where "n = Suc m" by (cases n) (auto simp: quote_def)
  with parse_quote [of s rest] show ?case by (simp add: quote_def)
next
  case (JArr vs)
  then obtain m where n: "n = Suc m" by (cases n) auto
  show ?case
  proof (cases vs)
    case Nil
    then show ?thesis by (simp add: n)
  next
    case (Cons v vs')
    have "parse_elements m [] (join_comma (map stringify vs) @ 93 # rest) = Some (JArr ([] @ vs), rest)"
      using JArr Cons by (intro parse_elements_stringify) (auto simp: n)
    moreover obtain u us0 where u: "stringify v = u # us0" "\<not> is_json_ws u" "u \<noteq> 93"
      by (rule stringify_head)
    moreover have "\<exists>us. join_comma (map stringify vs) @ 93 # rest = u # us"
      by (cases vs') (simp_all add: Cons u)
    ultimately show ?thesis by (auto simp: n)
  qed
next
  case (JObj kvs)
  then obtain m where n: "n = Suc m" by (cases n) auto
  show ?case
  proof (cases kvs)
    case Nil
    then show ?thesis by (simp add: n)
  next
    case (Cons kv kvs')
    have "parse_value l (stringify v @ r) = Some (v, r)"
      if "(k, v) \<in> set kvs" "length (stringify v) \<le> l" "closes r" for k v l r
      using JObj.IH [OF that(1), of v l r] JObj.prems(1) that by auto
    then have "parse_members m [] (join_comma (map print_member kvs) @ 125 # rest) = Some (JObj ([] @ kvs), rest)"
      using JObj.prems Cons by (intro parse_members_stringify) (auto simp: n)
    moreover have "\<exists>us. join_comma (map print_member kvs) @ 125 # rest = 34 # us"
      by (cases kv; cases kvs') (simp_all add: Cons quote_def)
    ultimately show ?thesis by (auto simp: n)
  qed
qed

lemma json_parse_stringify: "printable v \<Longrightarrow> json_parse (stringify v) = Some v"
  using parse_value_stringify [of v "Suc (length (stringify v))" "[]"]
  by (simp add: json_parse_def del: parse_value.simps)

lemma stringify_inject: "printable v \<Longrightarrow> printable w \<Longrightarrow> stringify v = stringify w \<longleftrightarrow> v = w"
  by (metis json_parse_stringify option.inject)

subsection \<open>The fuel of the parser\<close>

lemma length_skip_ws: "length (skip_ws s) \<le> length s"
  by (simp add: skip_ws_def length_dropWhile_le)

lemma length_skip_ws_Cons: "skip_ws s = u # us \<Longrightarrow> length us < length s"
  using length_skip_ws [of s] by simp

lemma parse_hex4_length: "parse_hex4 s = Some (c, rest) \<Longrightarrow> length rest < length s"
  by (cases s rule: parse_hex4.cases) (auto split: option.splits)

lemma parse_escape_length: "parse_escape s = Some (c, rest) \<Longrightarrow> length rest < length s"
  by (auto simp: parse_escape_def split: list.splits if_splits dest: parse_hex4_length)

lemma parse_string_length: "parse_string n s = Some (t, rest) \<Longrightarrow> length rest < length s"
proof (induction n s arbitrary: t rest rule: parse_string.induct)
  case (3 n u us)
  show ?case
  proof (cases "u = 34 \<or> u \<noteq> 92")
    case True
    then show ?thesis using 3 by (fastforce split: if_splits)
  next
    case False
    with 3 obtain c vs t' where "parse_escape us = Some (c, vs)" "parse_string n vs = Some (t', rest)"
      by (auto split: option.splits)
    with 3(1) False parse_escape_length [of us c vs] show ?thesis by fastforce
  qed
qed simp_all

lemma parse_fraction_length: "parse_fraction s = Some (q, rest) \<Longrightarrow> length rest \<le> length s"
  by (auto simp: parse_fraction_def Let_def split: list.splits if_splits
      intro: le_SucI length_dropWhile_le)

lemma parse_exponent_length: "parse_exponent s = Some (q, rest) \<Longrightarrow> length rest \<le> length s"
  by (auto simp: parse_exponent_def Let_def split: list.splits if_splits prod.splits
      intro: le_SucI length_dropWhile_le)

lemma parse_number_length:
  assumes "parse_number s = Some (q, rest)"
  shows "length rest < length s"
proof -
  obtain neg s1 where sign: "(case s of u # us \<Rightarrow> if u = 45 then (True, us) else (False, s) | [] \<Rightarrow> (False, s)) = (neg, s1)"
    by fastforce
  then have "length s1 \<le> length s" by (auto split: list.splits if_splits)
  moreover have "takeWhile is_digit s1 \<noteq> []"
    using assms unfolding parse_number_def sign by (auto simp: Let_def split: if_splits)
  then have "length (dropWhile is_digit s1) < length s1"
    by (cases s1) (auto simp: length_dropWhile_le less_Suc_eq_le split: if_splits)
  moreover obtain f s2 e where "parse_fraction (dropWhile is_digit s1) = Some (f, s2)"
    "parse_exponent s2 = Some (e, rest)"
    using assms unfolding parse_number_def sign by (auto simp: Let_def split: if_splits option.splits)
  ultimately show ?thesis using parse_fraction_length parse_exponent_length by (meson le_less_trans less_le_trans)
qed

lemma parse_scalar_length: "parse_scalar s = Some (v, rest) \<Longrightarrow> length rest < length s"
  by (auto simp: parse_scalar_def strip_prefix_def js_literals dest: parse_number_length
      split: option.splits if_splits) (cases s; simp)+

definition fuel_ok :: "(nat \<Rightarrow> (json \<times> jstring) option) \<Rightarrow> nat \<Rightarrow> jstring \<Rightarrow> bool" where
  "fuel_ok p n s \<longleftrightarrow>
     (\<forall>v rest. p n = Some (v, rest) \<longrightarrow>
        length rest < length s \<and> (\<forall>m. length s - length rest \<le> m \<longrightarrow> p m = Some (v, rest)))"

lemma fuel_okD:
  assumes "fuel_ok p n s" and "p n = Some (v, rest)"
  shows "length rest < length s" and "length s - length rest \<le> m \<Longrightarrow> p m = Some (v, rest)"
  using assms by (auto simp: fuel_ok_def)

lemma fuel_okI:
  assumes "\<And>v rest. p n = Some (v, rest) \<Longrightarrow> length rest < length s \<and>
      (\<forall>m. length s - length rest \<le> Suc m \<longrightarrow> p (Suc m) = Some (v, rest))"
  shows "fuel_ok p n s"
  unfolding fuel_ok_def
proof (intro allI impI conjI)
  fix v rest m
  assume p: "p n = Some (v, rest)" and m: "length s - length rest \<le> m"
  note a = assms [OF p]
  then obtain m' where "m = Suc m'" using m by (cases m) auto
  with a m show "p m = Some (v, rest)" by blast
qed (use assms in blast)

lemma parse_fuel:
  "fuel_ok (\<lambda>n. parse_value n s) n s"
  "fuel_ok (\<lambda>n. parse_elements n acc s) n s"
  "fuel_ok (\<lambda>n. parse_members n kvs s) n s"
proof (induction n s and n acc s and n kvs s rule: parse_value_parse_elements_parse_members.induct)
  case (2 n s)
  show ?case
  proof (rule fuel_okI)
    fix v rest
    assume p: "parse_value (Suc n) s = Some (v, rest)"
    then obtain u us where u: "skip_ws s = u # us" by (auto split: list.splits)
    note le = length_skip_ws_Cons [OF u]
    consider (arr) "u = 91" | (obj) "u = 123" | (other) "u \<noteq> 91" "u \<noteq> 123" by blast
    then show "length rest < length s \<and>
        (\<forall>m. length s - length rest \<le> Suc m \<longrightarrow> parse_value (Suc m) s = Some (v, rest))"
    proof cases
      case arr
      with p u obtain w ws where w: "skip_ws us = w # ws" by (auto split: list.splits)
      note le2 = length_skip_ws_Cons [OF w] length_skip_ws [of us]
      show ?thesis
      proof (cases "w = 93")
        case True
        then show ?thesis using p u w arr le le2 by auto
      next
        case False
        then have "parse_elements n [] (w # ws) = Some (v, rest)" using p u w arr by simp
        from fuel_okD [OF 2(1) [OF u arr w False] this] show ?thesis
          using u w arr False le le2 by auto
      qed
    next
      case obj
      with p u obtain w ws where w: "skip_ws us = w # ws" by (auto split: list.splits)
      note le2 = length_skip_ws_Cons [OF w] length_skip_ws [of us]
      show ?thesis
      proof (cases "w = 125")
        case True
        then show ?thesis using p u w obj le le2 by auto
      next
        case False
        have "u \<noteq> 91" using obj by simp
        moreover have "parse_members n [] (w # ws) = Some (v, rest)" using False p u w obj by simp
        ultimately show ?thesis
          using fuel_okD [OF 2(2) [OF u \<open>u \<noteq> 91\<close> obj w False], of v rest] u w obj False le le2 by auto
      qed
    next
      case other
      have "length rest < length (u # us)"
        using p u other
        by (auto split: if_splits dest: parse_string_length parse_scalar_length)
      then show ?thesis using p u other le length_skip_ws [of s] by auto
    qed
  qed
next
  case (4 n acc s)
  show ?case
  proof (rule fuel_okI)
    fix v rest
    assume p: "parse_elements (Suc n) acc s = Some (v, rest)"
    then obtain e r where e: "parse_value n s = Some (e, r)" by (auto split: option.splits)
    from p e obtain u us where u: "skip_ws r = u # us" "u = 44 \<or> u = 93"
      by (auto split: list.splits if_splits)
    note le = fuel_okD(1) [OF 4(1) e] length_skip_ws_Cons [OF u(1)]
    show "length rest < length s \<and>
        (\<forall>m. length s - length rest \<le> Suc m \<longrightarrow> parse_elements (Suc m) acc s = Some (v, rest))"
    proof (cases "u = 44")
      case True
      then have q: "parse_elements n (acc @ [e]) us = Some (v, rest)" using p e u by simp
      note ih = fuel_okD [OF 4(2) [OF e refl u(1) True] q]
      show ?thesis
        using ih le fuel_okD(2) [OF 4(1) e] True u(1) by auto
    next
      case False
      then show ?thesis using p e u le fuel_okD(2) [OF 4(1) e] by auto
    qed
  qed
next
  case (6 n acc s)
  show ?case
  proof (rule fuel_okI)
    fix v rest
    assume p: "parse_members (Suc n) acc s = Some (v, rest)"
    then obtain us where us: "skip_ws s = 34 # us" by (auto split: list.splits if_splits)
    from p us obtain k r where k: "parse_string (Suc (length us)) us = Some (k, r)"
      by (auto split: option.splits)
    from p us k obtain cs where cs: "skip_ws r = 58 # cs" by (auto split: list.splits if_splits)
    from p us k cs obtain e r' where e: "parse_value n cs = Some (e, r')" by (auto split: option.splits)
    from p us k cs e obtain w ws where w: "skip_ws r' = w # ws" "w = 44 \<or> w = 125"
      by (auto split: list.splits if_splits)
    note ihv = fuel_okD [OF 6(1) [OF us _ k refl cs] e, simplified]
    note le = length_skip_ws_Cons [OF us] parse_string_length [OF k] length_skip_ws_Cons [OF cs] ihv(1)
      length_skip_ws_Cons [OF w(1)]
    show "length rest < length s \<and>
        (\<forall>m. length s - length rest \<le> Suc m \<longrightarrow> parse_members (Suc m) acc s = Some (v, rest))"
    proof (cases "w = 44")
      case True
      then have q: "parse_members n (put_key k e acc) ws = Some (v, rest)" using p us k cs e w by simp
      note ih = fuel_okD [OF 6(2) [OF us _ k refl cs _ e refl w(1) True] q, simplified]
      show ?thesis using ih le ihv(2) True us k cs w(1) by auto
    next
      case False
      then show ?thesis using p us k cs e w le ihv(2) by auto
    qed
  qed
qed (simp_all add: fuel_ok_def)

text \<open>A text that parses with any fuel parses with the fuel \<open>json_parse\<close> gives it.\<close>

lemma json_parse_complete:
  assumes "parse_value n s = Some (v, rest)" and "skip_ws rest = []"
  shows "json_parse s = Some v"
proof -
  have "parse_value (Suc (length s)) s = Some (v, rest)"
    using fuel_okD(2) [OF parse_fuel(1) assms(1), of "Suc (length s)"] by simp
  with assms(2) show ?thesis by (simp add: json_parse_def)
qed

end
