(* ===== verification/Canonical_Hash.thy ===== *)
theory Canonical_Hash
  imports Json Chat_Types "HOL-Library.List_Lexorder" "HOL-Library.Multiset"
begin

text \<open>
  The canonical hash that \<open>src/cache/cache-key.ts\<close> and \<open>src/queue/postgres-job-store.ts\<close> share:
  \<open>JSON.stringify\<close> with a replacer that sorts the entries of every object by key, then SHA-256
  of the text. SHA-256 is a parameter. The order of lists of code units is the order of
  JavaScript strings.
\<close>

section \<open>Definitions\<close>

text \<open>
  \<open>Object.fromEntries\<close> of entries with distinct keys: the properties whose names are array
  indices come first, in ascending order, then the others in insertion order.
\<close>

definition is_array_index :: "jstring \<Rightarrow> bool" where
  "is_array_index k \<longleftrightarrow>
     k \<noteq> [] \<and> list_all is_digit k \<and> (hd k \<noteq> 48 \<or> k = [48]) \<and> digits_value k < 2 ^ 32 - 1"

definition fromEntries :: "(jstring \<times> json) list \<Rightarrow> (jstring \<times> json) list" where
  "fromEntries kvs =
     sort_key (digits_value \<circ> fst) (filter (is_array_index \<circ> fst) kvs) @
     filter (Not \<circ> is_array_index \<circ> fst) kvs"

fun canonical :: "json \<Rightarrow> json" where
  "canonical (JArr vs) = JArr (map canonical vs)"
| "canonical (JObj kvs) =
     JObj (fromEntries (sort_key fst (map (\<lambda>(k, v). (k, canonical v)) kvs)))"
| "canonical v = v"

definition hash :: "(jstring \<Rightarrow> jstring) \<Rightarrow> json \<Rightarrow> jstring" where
  "hash sha256 value = sha256 (stringify (canonical value))"

text \<open>A chat request as the plain object it is.\<close>

fun json_of_role :: "ChatRole \<Rightarrow> json" where
  "json_of_role SystemRole = JStr (js ''system'')"
| "json_of_role UserRole = JStr (js ''user'')"
| "json_of_role AssistantRole = JStr (js ''assistant'')"

definition json_of_message :: "ChatMessage \<Rightarrow> json" where
  "json_of_message m = JObj [(js ''role'', json_of_role (role m)), (js ''content'', JStr (content m))]"

definition json_of_request :: "ChatRequest \<Rightarrow> json" where
  "json_of_request r =
     JObj [(js ''model'', JStr (model r)), (js ''messages'', JArr (map json_of_message (messages r)))]"

definition chatCacheKey :: "(jstring \<Rightarrow> jstring) \<Rightarrow> jstring \<Rightarrow> jstring \<Rightarrow> ChatRequest \<Rightarrow> jstring" where
  "chatCacheKey sha256 namespace ownerId request =
     js ''modelmux:chat-cache:v1:'' @
     hash sha256 (JArr [JStr namespace, JStr ownerId, json_of_request request])"

text \<open>
  Two values are the same when they differ at most in the order of properties.
\<close>

inductive same_value :: "json \<Rightarrow> json \<Rightarrow> bool" where
  same_null: "same_value JNull JNull"
| same_bool: "same_value (JBool b) (JBool b)"
| same_num: "same_value (JNum q) (JNum q)"
| same_str: "same_value (JStr s) (JStr s)"
| same_arr: "list_all2 same_value vs ws \<Longrightarrow> same_value (JArr vs) (JArr ws)"
| same_obj: "(\<And>k. rel_option same_value (map_of kvs k) (map_of kws k)) \<Longrightarrow>
    same_value (JObj kvs) (JObj kws)"

section \<open>Lemmas\<close>

lemma mset_fromEntries [simp]: "mset (fromEntries kvs) = mset kvs"
proof -
  have "mset (filter P kvs) + mset (filter (Not \<circ> P) kvs) = mset kvs" for P
    by (induction kvs) auto
  from this [of "is_array_index \<circ> fst"] show ?thesis by (simp add: fromEntries_def comp_assoc)
qed

lemma mset_eq_map_of:
  assumes "mset xs = mset ys" and "distinct (map fst xs)"
  shows "distinct (map fst ys)" and "map_of ys = map_of xs"
proof -
  have "mset (map fst xs) = mset (map fst ys)" using assms(1) by simp
  then show "distinct (map fst ys)" using assms(2) mset_eq_imp_distinct_iff by blast
  moreover have "set xs = set ys" using assms(1) by (metis set_mset_mset)
  ultimately show "map_of ys = map_of xs" using assms(2) by (metis map_of_eqI map_of_eq_Some_iff ext not_Some_eq)
qed

abbreviation canonical_entries :: "(jstring \<times> json) list \<Rightarrow> (jstring \<times> json) list" where
  "canonical_entries kvs \<equiv> fromEntries (sort_key fst (map (\<lambda>(k, v). (k, canonical v)) kvs))"

lemma map_fst_canonical: "map fst (map (\<lambda>(k, v). (k, canonical v)) kvs) = map fst kvs"
  by (induction kvs) auto

lemma canonical_entries_spec:
  assumes "distinct (map fst kvs)"
  shows "distinct (map fst (canonical_entries kvs))"
    and "map_of (canonical_entries kvs) k = map_option canonical (map_of kvs k)"
proof -
  let ?m = "map (\<lambda>(k, v). (k, canonical v)) kvs"
  have "mset ?m = mset (canonical_entries kvs)" by simp
  from mset_eq_map_of [OF this] assms
  show "distinct (map fst (canonical_entries kvs))"
    and "map_of (canonical_entries kvs) k = map_option canonical (map_of kvs k)"
    by (simp_all only: map_fst_canonical map_of_map comp_apply)
qed

lemma canonical_entries_cong:
  assumes "distinct (map fst kvs)" and "distinct (map fst kws)"
    and "\<And>k. map_option canonical (map_of kvs k) = map_option canonical (map_of kws k)"
  shows "canonical_entries kvs = canonical_entries kws"
proof -
  let ?f = "map (\<lambda>(k, v). (k, canonical v))"
  have d: "distinct (map fst (?f kvs))" "distinct (map fst (?f kws))"
    using assms(1,2) by (simp_all only: map_fst_canonical)
  have "map_of (?f kvs) = map_of (?f kws)" using assms(3) by (simp add: map_of_map fun_eq_iff)
  then have "set (?f kvs) = set (?f kws)" using d
    by (metis (no_types, lifting) map_of_eq_Some_iff subsetI subset_antisym surj_pair)
  then have "mset (?f kvs) = mset (?f kws)"
    using d by (metis distinct_map set_eq_iff_mset_eq_distinct)
  then have "sort_key fst (?f kvs) = sort_key fst (?f kws)"
    using d(1) by (intro sort_key_inj_key_eq) (simp_all add: distinct_map del: map_map)
  then show ?thesis by simp
qed

lemma printable_canonical: "printable v \<Longrightarrow> printable (canonical v)"
proof (induction v)
  case (JObj kvs)
  have "set (canonical_entries kvs) = set (map (\<lambda>(k, v). (k, canonical v)) kvs)"
    by (metis mset_fromEntries mset_sort set_mset_mset)
  with JObj show ?case by (auto simp: canonical_entries_spec(1))
qed auto

lemma same_value_canonical:
  "same_value v w \<Longrightarrow> printable v \<Longrightarrow> printable w \<Longrightarrow> canonical v = canonical w"
proof (induction rule: same_value.induct)
  case (same_arr vs ws)
  then show ?case by (auto simp: list_all2_conv_all_nth intro!: nth_equalityI)
next
  case (same_obj kvs kws)
  have "map_option canonical (map_of kvs k) = map_option canonical (map_of kws k)" for k
    using same_obj(1) [of k] same_obj.prems
    by (cases "map_of kvs k"; cases "map_of kws k") (auto dest!: map_of_SomeD)
  then show ?case using same_obj.prems canonical_entries_cong by simp
qed simp_all

lemma canonical_same_value:
  "printable v \<Longrightarrow> printable w \<Longrightarrow> canonical v = canonical w \<Longrightarrow> same_value v w"
proof (induction v arbitrary: w)
  case (JArr vs)
  from JArr.prems(3) obtain ws where w: "w = JArr ws" "map canonical vs = map canonical ws"
    by (cases w) auto
  then have "length vs = length ws" using map_eq_imp_length_eq by blast
  moreover have "same_value (vs ! i) (ws ! i)" if "i < length vs" for i
  proof -
    have "canonical (vs ! i) = canonical (ws ! i)"
      using w(2) that \<open>length vs = length ws\<close> by (metis nth_map)
    with JArr that w(1) \<open>length vs = length ws\<close> show ?thesis by simp
  qed
  ultimately show ?case using w(1) by (auto intro!: same_arr simp: list_all2_conv_all_nth)
next
  case (JObj kvs)
  from JObj.prems(3) obtain kws where w: "w = JObj kws" "canonical_entries kvs = canonical_entries kws"
    by (cases w) auto
  have "rel_option same_value (map_of kvs k) (map_of kws k)" for k
  proof -
    have "map_option canonical (map_of kvs k) = map_option canonical (map_of kws k)"
      using canonical_entries_spec(2) [of kvs k] canonical_entries_spec(2) [of kws k] JObj.prems w
      by simp
    moreover have "same_value a b"
      if ab: "map_of kvs k = Some a" "map_of kws k = Some b" "canonical a = canonical b" for a b
    proof (rule JObj.IH)
      show "(k, a) \<in> set kvs" using ab(1) by (rule map_of_SomeD)
      show "printable a" using JObj.prems(1) map_of_SomeD [OF ab(1)] by auto
      show "printable b" using JObj.prems(2) w(1) map_of_SomeD [OF ab(2)] by auto
    qed (use ab in simp_all)
    ultimately show ?thesis by (cases "map_of kvs k"; cases "map_of kws k") simp_all
  qed
  then show ?case using w(1) by (simp add: same_obj)
qed (auto intro: same_value.intros elim!: canonical.elims [OF sym])

lemma canonical_text:
  assumes "printable v" and "printable w"
  shows "stringify (canonical v) = stringify (canonical w) \<longleftrightarrow> same_value v w"
  using assms same_value_canonical canonical_same_value printable_canonical stringify_inject by metis

subsection \<open>Chat requests\<close>

lemma json_of_role_inject: "json_of_role a = json_of_role b \<longleftrightarrow> a = b"
  by (cases a; cases b) simp_all

lemma json_of_message_inject: "json_of_message a = json_of_message b \<longleftrightarrow> a = b"
  by (cases a; cases b) (auto simp: json_of_message_def json_of_role_inject)

lemma json_of_request_inject: "json_of_request a = json_of_request b \<longleftrightarrow> a = b"
proof -
  have "inj json_of_message" by (simp add: inj_def json_of_message_inject)
  then show ?thesis by (cases a; cases b) (auto simp: json_of_request_def inj_map_eq_map)
qed

lemma printable_role [simp]: "printable (json_of_role r)"
  by (cases r) simp_all

lemma printable_request [simp]: "printable (json_of_request r)"
  by (auto simp: json_of_request_def json_of_message_def)

inductive_simps same_value_simps:
  "same_value (JStr s) (JStr t)"
  "same_value (JArr vs) (JArr ws)"
  "same_value (JObj kvs) (JObj kws)"

lemma same_role: "same_value (json_of_role a) (json_of_role b) \<Longrightarrow> a = b"
  by (cases a; cases b) (simp_all add: same_value_simps)

lemma same_message:
  assumes "same_value (json_of_message a) (json_of_message b)"
  shows "a = b"
proof -
  let ?m = "\<lambda>x. [(js ''role'', json_of_role (role x)), (js ''content'', JStr (content x))]"
  have k: "rel_option same_value (map_of (?m a) k) (map_of (?m b) k)" for k
    using assms by (simp only: json_of_message_def same_value_simps)
  from k [of "js ''role''"] k [of "js ''content''"] show ?thesis
    by (simp add: same_value_simps same_role)
qed

lemma same_request:
  assumes "same_value (json_of_request a) (json_of_request b)"
  shows "a = b"
proof -
  let ?m = "\<lambda>x. [(js ''model'', JStr (model x)), (js ''messages'', JArr (map json_of_message (messages x)))]"
  have k: "rel_option same_value (map_of (?m a) k) (map_of (?m b) k)" for k
    using assms by (simp only: json_of_request_def same_value_simps)
  from k [of "js ''messages''"] have "list_all2 (=) (messages a) (messages b)"
    by (simp add: same_value_simps list.rel_map) (auto elim!: list_all2_mono dest: same_message)
  with k [of "js ''model''"] show ?thesis by (simp add: same_value_simps list.rel_eq)
qed

lemma same_refl: "same_value v v"
proof (induction v)
  case (JArr vs)
  then show ?case by (auto intro: same_arr list_all2_refl simp: list.rel_refl_strong)
next
  case (JObj kvs)
  have "rel_option same_value (map_of kvs k) (map_of kvs k)" for k
    using JObj by (cases "map_of kvs k") (auto dest: map_of_SomeD)
  then show ?case by (rule same_obj)
qed (rule same_value.intros)+

section \<open>Properties\<close>

text \<open>
  C29: the canonical text, and so the hash, identifies a value up to the order of properties.
  Two printable values have the same hash if they differ only in the order of the properties
  of their objects, and, where SHA-256 does not collide on their texts, only then: array order,
  text, numbers and types all count.
\<close>

theorem hash_identifies_value:
  assumes "printable v" and "printable w"
    and "sha256 (stringify (canonical v)) = sha256 (stringify (canonical w)) \<Longrightarrow>
         stringify (canonical v) = stringify (canonical w)"
  shows "hash sha256 v = hash sha256 w \<longleftrightarrow> same_value v w"
  using canonical_text [OF assms(1,2)] assms(3) by (auto simp: hash_def)

theorem hash_identifies_value_witness:
  "hash id (JObj [(js ''b'', JNum 1), (js ''a'', JNull)]) = hash id (JObj [(js ''a'', JNull), (js ''b'', JNum 1)]) \<and>
   hash id (JArr [JNull, JNum 1]) \<noteq> hash id (JArr [JNum 1, JNull])"
proof -
  have "same_value (JObj [(js ''b'', JNum 1), (js ''a'', JNull)]) (JObj [(js ''a'', JNull), (js ''b'', JNum 1)])"
    by (rule same_obj) (auto intro: same_value.intros)
  moreover have "\<not> same_value (JArr [JNull, JNum 1]) (JArr [JNum 1, JNull])"
    by (auto simp: same_value_simps elim: same_value.cases)
  ultimately show ?thesis
    using hash_identifies_value [of "JObj [(js ''b'', JNum 1), (js ''a'', JNull)]"
        "JObj [(js ''a'', JNull), (js ''b'', JNum 1)]" id]
      hash_identifies_value [of "JArr [JNull, JNum 1]" "JArr [JNum 1, JNull]" id]
    by simp
qed

text \<open>
  C30: a cache entry is shared only by identical requests of the same key under the same
  configuration. Two cache keys are equal exactly when namespace, owner and the complete
  request are, as long as SHA-256 does not collide on the two texts.
\<close>

theorem cache_key_isolation:
  assumes "text = (\<lambda>n u r. stringify (canonical (JArr [JStr n, JStr u, json_of_request r])))"
    and "sha256 (text ns owner request) = sha256 (text ns' owner' request') \<Longrightarrow>
         text ns owner request = text ns' owner' request'"
  shows "chatCacheKey sha256 ns owner request = chatCacheKey sha256 ns' owner' request' \<longleftrightarrow>
         ns = ns' \<and> owner = owner' \<and> request = request'"
proof -
  let ?v = "JArr [JStr ns, JStr owner, json_of_request request]"
  let ?w = "JArr [JStr ns', JStr owner', json_of_request request']"
  have "chatCacheKey sha256 ns owner request = chatCacheKey sha256 ns' owner' request' \<longleftrightarrow>
      stringify (canonical ?v) = stringify (canonical ?w)"
    using assms(2) unfolding chatCacheKey_def hash_def assms(1) by (metis same_append_eq)
  also have "\<dots> \<longleftrightarrow> same_value ?v ?w" by (rule canonical_text) auto
  also have "\<dots> \<longleftrightarrow> ns = ns' \<and> owner = owner' \<and> request = request'"
    using same_request same_refl by (auto simp: same_value_simps)
  finally show ?thesis .
qed

theorem cache_key_isolation_witness:
  "chatCacheKey id (js ''n'') (js ''alice'') \<lparr>model = js ''m'', messages = []\<rparr> \<noteq>
   chatCacheKey id (js ''n'') (js ''bob'') \<lparr>model = js ''m'', messages = []\<rparr>"
  using cache_key_isolation [OF refl, of id "js ''n''" "js ''alice''" "\<lparr>model = js ''m'', messages = []\<rparr>"
      "js ''n''" "js ''bob''" "\<lparr>model = js ''m'', messages = []\<rparr>"] by simp

end
