(* ===== verification/Job_Store.thy ===== *)
theory Job_Store
  imports Canonical_Hash App_Errors
begin

text \<open>
  The durable job store of \<open>src/queue/postgres-job-store.ts\<close> over the table \<open>inference_jobs\<close>,
  with the public errors of \<open>src/queue/job-error.ts\<close> and the data of \<open>src/queue/job-queue.ts\<close>.
  Each SQL statement is a function of the table (a list of rows in insertion order) and of
  \<open>NOW()\<close>; a statement is atomic, and what other sessions do between two statements of one
  method is an argument. The column \<open>created_at\<close> is never read and is left out. SHA-256 is a
  parameter, as in the canonical hash.
\<close>

section \<open>Definitions\<close>

subsection \<open>Data\<close>

datatype JobStatusName = JQueued | JActive | JRetrying | JCompleted | JFailed

record JobEnvelope =
  envId :: jstring
  envAttempt :: int

record JobRow =
  job_id :: jstring
  queue_name :: jstring
  owner_id :: jstring
  idempotency_hash :: jstring
  payload_hash :: jstring
  request_id :: jstring
  job_data :: json
  status :: JobStatusName
  attempts_made :: int
  max_attempts :: int
  backoff_ms :: int
  response :: "json option"
  error_code :: "jstring option"
  dispatch_pending :: bool
  available_at :: time
  lease_until :: "time option"
  finished_at :: "time option"

type_synonym job_table = "JobRow list"

record JobStoreOptions =
  optName :: jstring
  optMaxAttempts :: int
  optBackoffMs :: int
  optLeaseMs :: int

record JobSubmission =
  subOwnerId :: jstring
  subRequestId :: jstring
  subIdempotencyKey :: jstring
  subData :: json

record JobReceipt =
  receiptId :: jstring
  receiptRequestId :: jstring

record JobStatus = JobReceipt +
  jobStatus :: JobStatusName
  attemptsMade :: int
  jobResponse :: "json option"
  jobError :: "(JobErrorCode \<times> string) option"

record ProcessingJob = JobReceipt +
  jobOwnerId :: jstring
  jobData :: json
  jobAttempt :: int
  queueWaitTimeMs :: "time option"

subsection \<open>Public errors\<close>

fun code_name :: "JobErrorCode \<Rightarrow> string" where
  "code_name PROVIDER_UNAVAILABLE = ''PROVIDER_UNAVAILABLE''"
| "code_name PROVIDER_TIMEOUT = ''PROVIDER_TIMEOUT''"
| "code_name PROVIDER_CIRCUIT_OPEN = ''PROVIDER_CIRCUIT_OPEN''"
| "code_name PROVIDER_ERROR = ''PROVIDER_ERROR''"
| "code_name INVALID_PROVIDER_RESPONSE = ''INVALID_PROVIDER_RESPONSE''"
| "code_name JOB_FAILED = ''JOB_FAILED''"

definition publicErrors :: "(JobErrorCode \<times> string) list" where
  "publicErrors =
     [(PROVIDER_UNAVAILABLE, ''Unable to connect to the inference provider''),
      (PROVIDER_TIMEOUT, ''Inference provider request timed out''),
      (PROVIDER_CIRCUIT_OPEN, ''Inference provider is temporarily unavailable''),
      (PROVIDER_ERROR, ''Inference provider request failed''),
      (INVALID_PROVIDER_RESPONSE, ''Inference provider returned an invalid response''),
      (JOB_FAILED, ''Inference job failed'')]"

definition publicJobError :: "jstring \<Rightarrow> JobErrorCode \<times> string" where
  "publicJobError reason =
     (case find (\<lambda>(c, m). js (code_name c) = reason) publicErrors of
        Some entry \<Rightarrow> entry
      | None \<Rightarrow> (JOB_FAILED, ''Inference job failed''))"

subsection \<open>Submission and polling\<close>

definition update_where :: "(JobRow \<Rightarrow> bool) \<Rightarrow> (JobRow \<Rightarrow> JobRow) \<Rightarrow> job_table \<Rightarrow> job_table" where
  "update_where P f t = map (\<lambda>r. if P r then f r else r) t"

definition same_submission :: "jstring \<Rightarrow> jstring \<Rightarrow> jstring \<Rightarrow> JobRow \<Rightarrow> bool" where
  "same_submission queue owner keyHash r \<longleftrightarrow>
     queue_name r = queue \<and> owner_id r = owner \<and> idempotency_hash r = keyHash"

text \<open>
  The \<open>INSERT \<dots> ON CONFLICT DO NOTHING RETURNING\<close> statement, with the defaults and constraints
  of the table: \<open>Inl\<close> when a check or the primary key rejects the row, \<open>None\<close> on a conflict of
  the submission.
\<close>

definition insertJob :: "time \<Rightarrow> JobRow \<Rightarrow> job_table \<Rightarrow> error + (job_table \<times> JobRow option)" where
  "insertJob now r t =
     (if max_attempts r \<le> 0 \<or> backoff_ms r \<le> 0 then
        Inl (OtherError (js ''violates check constraint''))
      else if list_ex (same_submission (queue_name r) (owner_id r) (idempotency_hash r)) t then
        Inr (t, None)
      else if list_ex (\<lambda>r'. job_id r' = job_id r) t then
        Inl (OtherError (js ''violates unique constraint''))
      else Inr (t @ [r], Some r))"

definition new_row ::
  "(jstring \<Rightarrow> jstring) \<Rightarrow> JobStoreOptions \<Rightarrow> time \<Rightarrow> jstring \<Rightarrow> JobSubmission \<Rightarrow> JobRow" where
  "new_row sha256 opts now newId sub =
     \<lparr>job_id = newId, queue_name = optName opts, owner_id = subOwnerId sub,
      idempotency_hash = hash sha256 (JStr (subIdempotencyKey sub)),
      payload_hash = hash sha256 (subData sub), request_id = subRequestId sub,
      job_data = subData sub, status = JQueued, attempts_made = 0,
      max_attempts = optMaxAttempts opts, backoff_ms = optBackoffMs opts, response = None,
      error_code = None, dispatch_pending = True, available_at = now, lease_until = None,
      finished_at = None\<rparr>"

definition receipt_of :: "jstring \<Rightarrow> JobRow \<Rightarrow> error + JobReceipt" where
  "receipt_of payloadHash row =
     (if payload_hash row \<noteq> payloadHash then Inl (App IdempotencyConflictError)
      else Inr \<lparr>receiptId = job_id row, receiptRequestId = request_id row\<rparr>)"

text \<open>
  \<open>enqueue\<close>: \<open>newId\<close> is the random identifier, \<open>between\<close> what other sessions do to the table
  between the two statements.
\<close>

definition enqueue ::
  "(jstring \<Rightarrow> jstring) \<Rightarrow> JobStoreOptions \<Rightarrow> time \<Rightarrow> jstring \<Rightarrow> (job_table \<Rightarrow> job_table) \<Rightarrow>
   JobSubmission \<Rightarrow> job_table \<Rightarrow> job_table \<times> (error + JobReceipt)" where
  "enqueue sha256 opts now newId between sub t =
     (let keyHash = hash sha256 (JStr (subIdempotencyKey sub));
          payloadHash = hash sha256 (subData sub)
      in case insertJob now (new_row sha256 opts now newId sub) t of
           Inl e \<Rightarrow> (t, Inl e)
         | Inr (t', Some row) \<Rightarrow> (t', receipt_of payloadHash row)
         | Inr (t', None) \<Rightarrow>
             (let t'' = between t' in
              case find (same_submission (optName opts) (subOwnerId sub) keyHash) t'' of
                None \<Rightarrow> (t'', Inl (OtherError (js ''Job disappeared during submission; retry the request'')))
              | Some row \<Rightarrow> (t'', receipt_of payloadHash row)))"

definition getJob :: "JobStoreOptions \<Rightarrow> jstring \<Rightarrow> jstring \<Rightarrow> job_table \<Rightarrow> error + JobStatus" where
  "getJob opts jobId ownerId t =
     (case find (\<lambda>r. job_id r = jobId \<and> owner_id r = ownerId \<and> queue_name r = optName opts) t of
        None \<Rightarrow> Inl (App JobNotFoundError)
      | Some row \<Rightarrow>
          Inr \<lparr>receiptId = job_id row, receiptRequestId = request_id row, jobStatus = status row,
               attemptsMade = attempts_made row,
               jobResponse = (if status row = JCompleted then response row else None),
               jobError = (if status row = JFailed
                 then Some (publicJobError (case error_code row of None \<Rightarrow> js ''JOB_FAILED'' | Some c \<Rightarrow> c))
                 else None)\<rparr>)"

subsection \<open>Dispatch\<close>

definition waiting :: "JobRow \<Rightarrow> bool" where
  "waiting r \<longleftrightarrow> status r = JQueued \<or> status r = JRetrying"

text \<open>
  The row the dispatcher picks: the one available longest, ties broken by the database's order
  of identifiers (\<open>idRank\<close>), among those no other transaction has locked.
\<close>

definition selectPending ::
  "(jstring \<Rightarrow> nat) \<Rightarrow> JobStoreOptions \<Rightarrow> time \<Rightarrow> jstring set \<Rightarrow> job_table \<Rightarrow> JobRow option" where
  "selectPending idRank opts now locked t =
     (case sort_key available_at (sort_key (idRank \<circ> job_id)
             (filter (\<lambda>r. queue_name r = optName opts \<and> dispatch_pending r \<and> waiting r \<and>
                          available_at r \<le> now \<and> job_id r \<notin> locked) t)) of
        [] \<Rightarrow> None
      | r # _ \<Rightarrow> Some r)"

definition envelope_of :: "JobRow \<Rightarrow> JobEnvelope" where
  "envelope_of r = \<lparr>envId = job_id r, envAttempt = attempts_made r + 1\<rparr>"

definition markDispatched :: "jstring \<Rightarrow> job_table \<Rightarrow> job_table" where
  "markDispatched jobId t = update_where (\<lambda>r. job_id r = jobId) (\<lambda>r. r\<lparr>dispatch_pending := False\<rparr>) t"

text \<open>
  \<open>dispatchOne\<close>: \<open>publish\<close> says how the awaited publication ends (and whether the broker holds
  the message is then the broker's business), \<open>commitFails\<close> whether the update or the commit
  fails, \<open>others\<close> what other sessions do to the rows that are not locked while the
  publication is awaited. The second component is the envelope handed to \<open>publish\<close>.
\<close>

definition dispatchOne ::
  "(jstring \<Rightarrow> nat) \<Rightarrow> JobStoreOptions \<Rightarrow> time \<Rightarrow> jstring set \<Rightarrow> (JobEnvelope \<Rightarrow> error + unit) \<Rightarrow>
   error option \<Rightarrow> (job_table \<Rightarrow> job_table) \<Rightarrow> job_table \<Rightarrow>
   job_table \<times> JobEnvelope option \<times> (error + bool)" where
  "dispatchOne idRank opts now locked publish commitFails others t =
     (case selectPending idRank opts now locked t of
        None \<Rightarrow> (t, None, (case commitFails of Some e \<Rightarrow> Inl e | None \<Rightarrow> Inr False))
      | Some row \<Rightarrow>
          (let t' = others t in
           case publish (envelope_of row) of
             Inl e \<Rightarrow> (t', Some (envelope_of row), Inl e)
           | Inr _ \<Rightarrow>
               (case commitFails of
                  Some e \<Rightarrow> (t', Some (envelope_of row), Inl e)
                | None \<Rightarrow> (markDispatched (job_id row) t', Some (envelope_of row), Inr True))))"

subsection \<open>Attempts\<close>

definition claimable :: "JobStoreOptions \<Rightarrow> time \<Rightarrow> JobEnvelope \<Rightarrow> JobRow \<Rightarrow> bool" where
  "claimable opts now env r \<longleftrightarrow>
     job_id r = envId env \<and> queue_name r = optName opts \<and> waiting r \<and>
     attempts_made r = envAttempt env - 1 \<and> attempts_made r < max_attempts r \<and> available_at r \<le> now"

definition claim ::
  "JobStoreOptions \<Rightarrow> time \<Rightarrow> JobEnvelope \<Rightarrow> job_table \<Rightarrow> job_table \<times> ProcessingJob option" where
  "claim opts now env t =
     (let f = (\<lambda>r. r\<lparr>status := JActive, attempts_made := envAttempt env,
                     lease_until := Some (now + of_int (optLeaseMs opts))\<rparr>)
      in (update_where (claimable opts now env) f t,
          map_option (\<lambda>r. \<lparr>receiptId = job_id (f r), receiptRequestId = request_id (f r),
                           jobOwnerId = owner_id (f r), jobData = job_data (f r),
                           jobAttempt = attempts_made (f r),
                           queueWaitTimeMs = Some (max 0 (now - available_at (f r)))\<rparr>)
            (find (claimable opts now env) t)))"

definition queueDepth :: "JobStoreOptions \<Rightarrow> job_table \<Rightarrow> int \<times> int \<times> int" where
  "queueDepth opts t =
     (let depth = (\<lambda>s. int (length (filter (\<lambda>r. queue_name r = optName opts \<and> status r = s) t)))
      in (depth JQueued, depth JRetrying, depth JActive))"

definition owned_attempt :: "JobStoreOptions \<Rightarrow> JobEnvelope \<Rightarrow> JobRow \<Rightarrow> bool" where
  "owned_attempt opts env r \<longleftrightarrow>
     job_id r = envId env \<and> attempts_made r = envAttempt env \<and> queue_name r = optName opts \<and>
     status r = JActive"

definition complete :: "JobStoreOptions \<Rightarrow> time \<Rightarrow> JobEnvelope \<Rightarrow> json \<Rightarrow> job_table \<Rightarrow> job_table" where
  "complete opts now env value t =
     update_where (owned_attempt opts env)
       (\<lambda>r. r\<lparr>status := JCompleted, response := Some value, error_code := None,
              finished_at := Some now, lease_until := None, dispatch_pending := False\<rparr>) t"

definition retry_delay :: "int \<Rightarrow> int \<Rightarrow> time \<Rightarrow> time" where
  "retry_delay backoff attempts retryAfter =
     max retryAfter (min 3600000 (of_int backoff * 2 ^ nat (min (attempts - 1) 30)))"

definition fail_row :: "time \<Rightarrow> JobErrorCode \<Rightarrow> bool \<Rightarrow> time \<Rightarrow> JobRow \<Rightarrow> JobRow" where
  "fail_row now ec retry retryAfter r =
     (let again = (retry \<and> attempts_made r < max_attempts r) in
      r\<lparr>status := (if again then JRetrying else JFailed), dispatch_pending := again,
        available_at := now + retry_delay (backoff_ms r) (attempts_made r) retryAfter,
        error_code := Some (js (code_name ec)), lease_until := None,
        finished_at := (if again then None else Some now)\<rparr>)"

definition fail ::
  "JobStoreOptions \<Rightarrow> time \<Rightarrow> JobEnvelope \<Rightarrow> JobErrorCode \<Rightarrow> bool \<Rightarrow> time \<Rightarrow> job_table \<Rightarrow>
   job_table \<times> JobStatusName option" where
  "fail opts now env ec retry retryAfter t =
     (update_where (owned_attempt opts env) (fail_row now ec retry retryAfter) t,
      map_option (\<lambda>r. status (fail_row now ec retry retryAfter r)) (find (owned_attempt opts env) t))"

definition expired :: "JobStoreOptions \<Rightarrow> time \<Rightarrow> JobRow \<Rightarrow> bool" where
  "expired opts now r \<longleftrightarrow>
     queue_name r = optName opts \<and> status r = JActive \<and>
     (case lease_until r of None \<Rightarrow> False | Some l \<Rightarrow> l < now)"

definition expire_row :: "time \<Rightarrow> JobRow \<Rightarrow> JobRow" where
  "expire_row now r =
     (let again = (attempts_made r < max_attempts r) in
      r\<lparr>status := (if again then JQueued else JFailed), dispatch_pending := again,
        available_at := now, error_code := Some (js ''JOB_FAILED''), lease_until := None,
        finished_at := (if again then None else Some now)\<rparr>)"

definition stale :: "JobStoreOptions \<Rightarrow> time \<Rightarrow> JobRow \<Rightarrow> bool" where
  "stale opts now r \<longleftrightarrow>
     queue_name r = optName opts \<and>
     (case finished_at r of None \<Rightarrow> False | Some f \<Rightarrow> f < now - 86400000)"

text \<open>\<open>maintain\<close>: two statements, each with its own \<open>NOW()\<close>.\<close>

definition maintain ::
  "JobStoreOptions \<Rightarrow> time \<Rightarrow> (job_table \<Rightarrow> job_table) \<Rightarrow> time \<Rightarrow> job_table \<Rightarrow> job_table" where
  "maintain opts now between later t =
     filter (\<lambda>r. \<not> stale opts later r) (between (update_where (expired opts now) (expire_row now) t))"

subsection \<open>Invariants\<close>

text \<open>What identifies a job and never changes while the row exists.\<close>

definition identity ::
  "JobRow \<Rightarrow> (jstring \<times> jstring \<times> jstring \<times> jstring) \<times> (jstring \<times> jstring \<times> json) \<times> int \<times> int" where
  "identity r = ((job_id r, queue_name r, owner_id r, idempotency_hash r),
     (payload_hash r, request_id r, job_data r), max_attempts r, backoff_ms r)"

definition terminal :: "JobRow \<Rightarrow> bool" where
  "terminal r \<longleftrightarrow> status r = JCompleted \<or> status r = JFailed"

definition row_ok :: "JobRow \<Rightarrow> bool" where
  "row_ok r \<longleftrightarrow>
     1 \<le> max_attempts r \<and> 1 \<le> backoff_ms r \<and> 0 \<le> attempts_made r \<and> attempts_made r \<le> max_attempts r \<and>
     (waiting r \<longrightarrow> attempts_made r < max_attempts r) \<and>
     (status r \<noteq> JQueued \<longrightarrow> 1 \<le> attempts_made r) \<and>
     (status r = JActive \<longleftrightarrow> lease_until r \<noteq> None) \<and>
     (terminal r \<longleftrightarrow> finished_at r \<noteq> None) \<and>
     (terminal r \<longrightarrow> \<not> dispatch_pending r) \<and>
     (status r = JCompleted \<longrightarrow> response r \<noteq> None \<and> error_code r = None) \<and>
     (status r = JFailed \<longrightarrow> error_code r \<noteq> None)"

definition table_ok :: "job_table \<Rightarrow> bool" where
  "table_ok t \<longleftrightarrow>
     list_all row_ok t \<and> distinct (map job_id t) \<and>
     distinct (map (\<lambda>r. (queue_name r, owner_id r, idempotency_hash r)) t)"

section \<open>Lemmas\<close>

lemmas row_defs = row_ok_def waiting_def terminal_def

lemma set_update_where: "set (update_where P f t) = (\<lambda>r. if P r then f r else r) ` set t"
  by (simp add: update_where_def)

lemma update_where_id: "\<forall>r \<in> set t. \<not> P r \<Longrightarrow> update_where P f t = t"
  by (simp add: update_where_def map_idI)

lemma table_okD:
  assumes "table_ok t"
  shows "r \<in> set t \<Longrightarrow> row_ok r" and "distinct (map job_id t)"
  using assms by (auto simp: table_ok_def list_all_iff)

lemma job_id_unique:
  assumes "table_ok t" and "r \<in> set t" and "r' \<in> set t" and "job_id r = job_id r'"
  shows "r = r'"
  using table_okD(2) [OF assms(1)] assms(2-4) by (auto simp: distinct_map inj_on_def)

lemma submission_unique:
  assumes "table_ok t" and "r \<in> set t" and "r' \<in> set t"
    and "same_submission q u h r" and "same_submission q u h r'"
  shows "r = r'"
proof -
  have "inj_on (\<lambda>r. (queue_name r, owner_id r, idempotency_hash r)) (set t)"
    using assms(1) by (simp add: table_ok_def distinct_map)
  with assms(2-5) show ?thesis by (auto simp: same_submission_def inj_on_def)
qed

lemma find_unique:
  assumes "r \<in> set t" and "P r" and "\<And>r'. r' \<in> set t \<Longrightarrow> P r' \<Longrightarrow> r' = r"
  shows "find P t = Some r"
proof -
  obtain r' where "find P t = Some r'"
    using assms(1,2) by (cases "find P t") (auto simp: find_None_iff)
  moreover from this have "r' \<in> set t" "P r'" by (auto simp: find_Some_iff)
  ultimately show ?thesis using assms(3) by simp
qed

subsection \<open>The contract of an update of one job\<close>

text \<open>
  Every update statement of the store keeps the identity of the rows it touches and, where its
  guard holds, their well-formedness; so it keeps the whole table well-formed.
\<close>

locale row_update =
  fixes guard :: "JobRow \<Rightarrow> bool" and effect :: "JobRow \<Rightarrow> JobRow"
  assumes keeps_identity: "identity (effect r) = identity r"
    and keeps_ok: "guard r \<Longrightarrow> row_ok r \<Longrightarrow> row_ok (effect r)"
begin

lemma map_identity: "map identity (update_where guard effect t) = map identity t"
  by (simp add: update_where_def keeps_identity)

lemma map_of_identity: "map (g \<circ> identity) (update_where guard effect t) = map (g \<circ> identity) t"
  using arg_cong [OF map_identity, of "map g"] by (simp add: comp_def)

lemma table_ok_update: "table_ok t \<Longrightarrow> table_ok (update_where guard effect t)"
proof -
  assume ok: "table_ok t"
  have "map job_id (update_where guard effect t) = map job_id t"
    using map_of_identity [of "\<lambda>((i, q, u, h), x). i"] by (simp add: identity_def comp_def)
  moreover have "map (\<lambda>r. (queue_name r, owner_id r, idempotency_hash r)) (update_where guard effect t) =
      map (\<lambda>r. (queue_name r, owner_id r, idempotency_hash r)) t"
    using map_of_identity [of "\<lambda>((i, q, u, h), x). (q, u, h)"] by (simp add: identity_def comp_def)
  moreover have "list_all row_ok (update_where guard effect t)"
    using ok keeps_ok by (auto simp: table_ok_def list_all_iff set_update_where)
  ultimately show ?thesis using ok by (simp add: table_ok_def)
qed

lemma update_member:
  "r \<in> set t \<Longrightarrow> \<exists>r' \<in> set (update_where guard effect t). identity r' = identity r \<and> (\<not> guard r \<longrightarrow> r' = r)"
  unfolding set_update_where
  by (rule bexI [of _ "if guard r then effect r else r"]) (simp_all add: keeps_identity)

end

abbreviation claim_effect :: "JobStoreOptions \<Rightarrow> time \<Rightarrow> JobEnvelope \<Rightarrow> JobRow \<Rightarrow> JobRow" where
  "claim_effect opts now env \<equiv> (\<lambda>r. r\<lparr>status := JActive, attempts_made := envAttempt env,
     lease_until := Some (now + of_int (optLeaseMs opts))\<rparr>)"

abbreviation complete_effect :: "time \<Rightarrow> json \<Rightarrow> JobRow \<Rightarrow> JobRow" where
  "complete_effect now value \<equiv> (\<lambda>r. r\<lparr>status := JCompleted, response := Some value, error_code := None,
     finished_at := Some now, lease_until := None, dispatch_pending := False\<rparr>)"

interpretation claim_update: row_update "claimable opts now env" "claim_effect opts now env" for opts now env
  by unfold_locales (auto simp: identity_def row_defs claimable_def)

interpretation complete_update: row_update "owned_attempt opts env" "complete_effect now value"
  for opts env now "value"
  by unfold_locales (auto simp: identity_def row_defs owned_attempt_def)

interpretation fail_update: row_update "owned_attempt opts env" "fail_row now ec retry retryAfter"
  for opts env now ec retry retryAfter
  by unfold_locales (auto simp: identity_def row_defs owned_attempt_def fail_row_def Let_def)

interpretation expire_update: row_update "expired opts now" "expire_row now" for opts now
  by unfold_locales (auto simp: identity_def row_defs expired_def expire_row_def Let_def)

interpretation dispatch_update: row_update "\<lambda>r. job_id r = jobId" "\<lambda>r. r\<lparr>dispatch_pending := False\<rparr>"
  for jobId
  by unfold_locales (auto simp: identity_def row_defs)

lemma table_ok_filter: "table_ok t \<Longrightarrow> table_ok (filter P t)"
  by (auto simp: table_ok_def list_all_iff)

lemma claim_ok [inv_intros]: "table_ok t \<Longrightarrow> table_ok (fst (claim opts now env t))"
  by (simp add: claim_def Let_def claim_update.table_ok_update)

lemma complete_ok [inv_intros]: "table_ok t \<Longrightarrow> table_ok (complete opts now env value t)"
  by (simp add: complete_def complete_update.table_ok_update)

lemma fail_ok [inv_intros]: "table_ok t \<Longrightarrow> table_ok (fst (fail opts now env ec retry retryAfter t))"
  by (simp add: fail_def fail_update.table_ok_update)

lemma markDispatched_ok [inv_intros]: "table_ok t \<Longrightarrow> table_ok (markDispatched jobId t)"
  by (simp add: markDispatched_def dispatch_update.table_ok_update)

lemma maintain_ok [inv_intros]:
  "table_ok t \<Longrightarrow> (\<And>t. table_ok t \<Longrightarrow> table_ok (between t)) \<Longrightarrow> table_ok (maintain opts now between later t)"
  by (simp add: maintain_def expire_update.table_ok_update table_ok_filter)

lemma insertJob_cases:
  assumes "table_ok t" and "1 \<le> max_attempts r" and "1 \<le> backoff_ms r" and "job_id r \<notin> job_id ` set t"
  shows "insertJob now r t =
    (if \<exists>r' \<in> set t. same_submission (queue_name r) (owner_id r) (idempotency_hash r) r'
     then Inr (t, None) else Inr (t @ [r], Some r))"
  using assms by (auto simp: insertJob_def list_ex_iff image_iff)

lemma insertJob_ok:
  assumes "table_ok t" and "row_ok r" and "insertJob now r t = Inr (t', res)"
  shows "table_ok t'"
  using assms
  by (auto simp: insertJob_def table_ok_def list_all_iff list_ex_iff same_submission_def
      split: if_splits) (metis (no_types))+

lemma new_row_ok:
  "1 \<le> optMaxAttempts opts \<Longrightarrow> 1 \<le> optBackoffMs opts \<Longrightarrow> row_ok (new_row sha256 opts now newId sub)"
  by (simp add: row_defs new_row_def)

subsection \<open>Dispatch and backoff\<close>

lemma selectPending_Some:
  assumes "selectPending idRank opts now locked t = Some r"
  shows "r \<in> set t" "queue_name r = optName opts" "dispatch_pending r" "waiting r" "available_at r \<le> now"
    "job_id r \<notin> locked"
    and "\<lbrakk>r' \<in> set t; queue_name r' = optName opts; dispatch_pending r'; waiting r';
      available_at r' \<le> now; job_id r' \<notin> locked\<rbrakk> \<Longrightarrow> available_at r \<le> available_at r'"
proof -
  let ?P = "\<lambda>r. queue_name r = optName opts \<and> dispatch_pending r \<and> waiting r \<and> available_at r \<le> now \<and>
    job_id r \<notin> locked"
  let ?l = "sort_key available_at (sort_key (idRank \<circ> job_id) (filter ?P t))"
  obtain rest where l: "?l = r # rest" using assms by (auto simp: selectPending_def split: list.splits)
  have set: "set ?l = {r \<in> set t. ?P r}" by auto
  then have "r \<in> {r \<in> set t. ?P r}" unfolding l by auto
  then show "r \<in> set t" "queue_name r = optName opts" "dispatch_pending r" "waiting r"
    "available_at r \<le> now" "job_id r \<notin> locked" by simp_all
  have "sorted (map available_at ?l)" by simp
  then show "available_at r \<le> available_at r'"
    if "r' \<in> set t" "queue_name r' = optName opts" "dispatch_pending r'" "waiting r'"
      "available_at r' \<le> now" "job_id r' \<notin> locked"
    using set that unfolding l by auto
qed

lemma selectPending_None:
  "selectPending idRank opts now locked t = None \<longleftrightarrow>
   (\<forall>r \<in> set t. queue_name r = optName opts \<and> dispatch_pending r \<and> waiting r \<and> available_at r \<le> now \<longrightarrow>
      job_id r \<in> locked)"
proof -
  let ?P = "\<lambda>r. queue_name r = optName opts \<and> dispatch_pending r \<and> waiting r \<and> available_at r \<le> now \<and>
    job_id r \<notin> locked"
  have "selectPending idRank opts now locked t = None \<longleftrightarrow>
      sort_key available_at (sort_key (idRank \<circ> job_id) (filter ?P t)) = []"
    by (simp add: selectPending_def split: list.split)
  also have "\<dots> \<longleftrightarrow> filter ?P t = []" by (simp only: length_0_conv [symmetric] length_sort)
  finally show ?thesis by (auto simp: filter_empty_conv)
qed

lemma retry_delay_bounds:
  assumes "1 \<le> backoff"
  shows "retryAfter \<le> retry_delay backoff attempts retryAfter"
    and "min 3600000 (of_int backoff) \<le> retry_delay backoff attempts retryAfter"
    and "retry_delay backoff attempts retryAfter \<le> max retryAfter 3600000"
proof -
  have "(1 :: rat) \<le> 2 ^ nat (min (attempts - 1) 30)" by simp
  moreover have "(0 :: rat) \<le> of_int backoff" using assms by simp
  ultimately have "of_int backoff * 1 \<le> of_int backoff * (2 :: rat) ^ nat (min (attempts - 1) 30)"
    by (rule mult_left_mono)
  then show "min 3600000 (of_int backoff) \<le> retry_delay backoff attempts retryAfter"
    by (simp add: retry_delay_def min_def max_def)
qed (simp_all add: retry_delay_def)

section \<open>Properties\<close>

definition demo_opts :: JobStoreOptions where
  "demo_opts = \<lparr>optName = js ''q'', optMaxAttempts = 3, optBackoffMs = 1000, optLeaseMs = 60000\<rparr>"

definition demo_sub :: JobSubmission where
  "demo_sub = \<lparr>subOwnerId = js ''alice'', subRequestId = js ''r1'', subIdempotencyKey = js ''k'',
     subData = JNull\<rparr>"

definition demo_job :: JobRow where
  "demo_job = new_row id demo_opts 0 (js ''job-1'') demo_sub"

lemma demo_table_ok: "table_ok [demo_job]"
  by (simp add: table_ok_def demo_job_def new_row_ok demo_opts_def)



text \<open>
  polling discloses a job to its owner only, and of a failure only a public description.
  The answer to a caller depends on the rows of that owner alone, a job of another owner is
  answered exactly like one that does not exist, a response is shown only for a completed job,
  and an error is one of the fixed public code and message pairs, shown only for a failed job.
\<close>

theorem job_owner_isolation:
  "getJob opts jobId owner t = getJob opts jobId owner (filter (\<lambda>r. owner_id r = owner) t) \<and>
   ((\<forall>r \<in> set t. job_id r = jobId \<longrightarrow> owner_id r \<noteq> owner) \<longrightarrow>
      getJob opts jobId owner t = Inl (App JobNotFoundError)) \<and>
   (case getJob opts jobId owner t of
      Inl e \<Rightarrow> e = App JobNotFoundError
    | Inr st \<Rightarrow> receiptId st = jobId \<and>
        (jobResponse st \<noteq> None \<longrightarrow> jobStatus st = JCompleted) \<and>
        (case jobError st of None \<Rightarrow> jobStatus st \<noteq> JFailed
         | Some err \<Rightarrow> jobStatus st = JFailed \<and> err \<in> set publicErrors))"
proof -
  have public: "publicJobError c \<in> set publicErrors" for c
  proof (cases "find (\<lambda>(c', m). js (code_name c') = c) publicErrors")
    case None
    then have "publicJobError c = (JOB_FAILED, ''Inference job failed'')" by (simp add: publicJobError_def)
    then show ?thesis by (simp add: publicErrors_def)
  next
    case (Some e)
    then have "e \<in> set publicErrors" by (metis find_Some_iff nth_mem)
    with Some show ?thesis by (simp add: publicJobError_def)
  qed
  have "find (\<lambda>r. job_id r = jobId \<and> owner_id r = owner \<and> queue_name r = optName opts) (filter (\<lambda>r. owner_id r = owner) t)
      = find (\<lambda>r. job_id r = jobId \<and> owner_id r = owner \<and> queue_name r = optName opts) t"
    by (induction t) auto
  then have "getJob opts jobId owner t = getJob opts jobId owner (filter (\<lambda>r. owner_id r = owner) t)"
    by (simp add: getJob_def)
  moreover have "getJob opts jobId owner t = Inl (App JobNotFoundError)"
    if "\<forall>r \<in> set t. job_id r = jobId \<longrightarrow> owner_id r \<noteq> owner"
    using that by (auto simp: getJob_def find_Some_iff split: option.split)
  ultimately show ?thesis
    using public by (auto simp: getJob_def find_Some_iff split: option.split)
qed

theorem job_owner_isolation_witness:
  "getJob demo_opts (js ''job-1'') (js ''bob'') [demo_job] = Inl (App JobNotFoundError)"
  using job_owner_isolation [of demo_opts "js ''job-1''" "js ''bob''" "[demo_job]", THEN conjunct2,
      THEN conjunct1]
  by (simp add: demo_job_def new_row_def demo_sub_def)



text \<open>
  dispatch is at least once and in order of availability. The dispatcher publishes the
  next attempt of the unlocked pending job that has been available longest; if the publication
  or the commit fails the job is still pending, and only a confirmed publication clears it. It
  reports that there was nothing to send only when every available pending job is locked by
  another dispatcher.
\<close>

theorem dispatch_at_least_once:
  assumes "table_ok t" and "\<And>r. r \<in> set t \<Longrightarrow> selectPending idRank opts now locked t = Some r \<Longrightarrow> r \<in> set (others t)"
    and "dispatchOne idRank opts now locked publish commitFails others t = (t', sent, res)"
  shows "case sent of
     None \<Rightarrow> t' = t \<and> (\<forall>r \<in> set t. queue_name r = optName opts \<and> dispatch_pending r \<and> waiting r \<and>
               available_at r \<le> now \<longrightarrow> job_id r \<in> locked)
   | Some env \<Rightarrow>
       \<exists>r \<in> set t. env = envelope_of r \<and> waiting r \<and> dispatch_pending r \<and> job_id r \<notin> locked \<and>
         (\<forall>r' \<in> set t. queue_name r' = optName opts \<and> dispatch_pending r' \<and> waiting r' \<and>
            available_at r' \<le> now \<and> job_id r' \<notin> locked \<longrightarrow> available_at r \<le> available_at r') \<and>
         (if publish env = Inr () \<and> commitFails = None
          then res = Inr True \<and> r\<lparr>dispatch_pending := False\<rparr> \<in> set t'
          else isl res \<and> r \<in> set t')"
proof (cases "selectPending idRank opts now locked t")
  case None
  with assms(3) have "t' = t" "sent = None" by (auto simp: dispatchOne_def split: option.splits)
  with None show ?thesis by (simp add: selectPending_None)
next
  case (Some r)
  note sel = selectPending_Some [OF Some]
  have kept: "r \<in> set (others t)" using sel(1) Some by (rule assms(2))
  then have "r\<lparr>dispatch_pending := False\<rparr> \<in> set (markDispatched (job_id r) (others t))"
    by (auto simp: markDispatched_def set_update_where)
  moreover have "sent = Some (envelope_of r)"
    "publish (envelope_of r) = Inr () \<and> commitFails = None \<Longrightarrow> res = Inr True \<and> t' = markDispatched (job_id r) (others t)"
    "\<not> (publish (envelope_of r) = Inr () \<and> commitFails = None) \<Longrightarrow> isl res \<and> t' = others t"
    using assms(3) Some by (auto simp: dispatchOne_def Let_def split: sum.splits option.splits)
  ultimately show ?thesis
    using sel kept unfolding \<open>sent = _\<close> option.case by (intro bexI [of _ r] conjI) auto
qed

theorem dispatch_at_least_once_witness:
  "case dispatchOne (\<lambda>_. 0) demo_opts 1 {} (\<lambda>_. Inl RequestAbortedError) None id [demo_job] of
     (t', sent, res) \<Rightarrow> isl res \<and> demo_job \<in> set t'"
proof -
  obtain t' sent res where d: "dispatchOne (\<lambda>_. 0) demo_opts 1 {} (\<lambda>_. Inl RequestAbortedError) None id [demo_job] = (t', sent, res)"
    using prod_cases3 by blast
  have "sent \<noteq> None" using d
    by (auto simp: dispatchOne_def selectPending_def demo_job_def new_row_def demo_opts_def waiting_def)
  moreover have "\<exists>env. sent = Some env" using calculation by simp
  ultimately show ?thesis
    using dispatch_at_least_once [OF demo_table_ok _ d] d by auto
qed

end
