(* ===== verification/Job_Worker.thy ===== *)
theory Job_Worker
  imports Job_Store Telemetry
begin

text \<open>
  The job queue adapter and the worker of \<open>src/queue/rabbitmq.ts\<close>, the error mapping of
  \<open>src/jobs/inference-processor.ts\<close>, and the parts of \<open>src/queue/rabbitmq-broker.ts\<close> that decide
  what happens to a message: publication with confirms, the validation of a delivery, its
  acknowledgement, and the state that draining and failures leave behind. The provider, the
  clock, the outcome of each database statement and the events of the AMQP channel are
  arguments.
\<close>

section \<open>Definitions\<close>

subsection \<open>The queue adapter\<close>

fun wrap_store_error :: "error \<Rightarrow> error" where
  "wrap_store_error (App e) = App e"
| "wrap_store_error _ = App JobQueueUnavailableError"

definition queueEnqueue ::
  "(jstring \<Rightarrow> jstring) \<Rightarrow> JobStoreOptions \<Rightarrow> time \<Rightarrow> jstring \<Rightarrow> (job_table \<Rightarrow> job_table) \<Rightarrow>
   JobSubmission \<Rightarrow> job_table \<Rightarrow> job_table \<times> (error + JobReceipt)" where
  "queueEnqueue sha256 opts now newId between sub t =
     (case enqueue sha256 opts now newId between sub t of (t', res) \<Rightarrow> (t', map_sum wrap_store_error id res))"

definition queueGetJob :: "JobStoreOptions \<Rightarrow> jstring \<Rightarrow> jstring \<Rightarrow> job_table \<Rightarrow> error + JobStatus" where
  "queueGetJob opts jobId ownerId t = map_sum wrap_store_error id (getJob opts jobId ownerId t)"

subsection \<open>The inference processor\<close>

text \<open>\<open>error.code\<close> of the provider errors, as a job error code.\<close>

fun job_code :: "AppError \<Rightarrow> JobErrorCode" where
  "job_code (ProviderHttpError _ _ _) = PROVIDER_ERROR"
| "job_code (ProviderConnectionError _) = PROVIDER_UNAVAILABLE"
| "job_code (ProviderResponseError _) = INVALID_PROVIDER_RESPONSE"
| "job_code (ProviderTimeoutError _ _) = PROVIDER_TIMEOUT"
| "job_code (ProviderCircuitOpenError _ _) = PROVIDER_CIRCUIT_OPEN"
| "job_code _ = JOB_FAILED"

definition processing_error :: "error \<Rightarrow> error" where
  "processing_error e =
     (case e of
        App a \<Rightarrow>
          if isRetryableProviderError e then
            JobProcessingError (job_code a) True
              (case a of ProviderCircuitOpenError _ ms \<Rightarrow> ms | _ \<Rightarrow> 0)
          else if is_ProviderHttpError a \<or> is_ProviderResponseError a then
            JobProcessingError (job_code a) False 0
          else JobProcessingError JOB_FAILED False 0
      | _ \<Rightarrow> JobProcessingError JOB_FAILED False 0)"

text \<open>The processor: the provider's outcome for the job's data, with its errors translated.\<close>

definition inferenceProcessor :: "(json \<Rightarrow> error + json) \<Rightarrow> ProcessingJob \<Rightarrow> error + json" where
  "inferenceProcessor chat job = map_sum processing_error id (chat (jobData job))"

subsection \<open>One delivery\<close>

datatype action = Ack | DeadLetter

text \<open>
  How a statement ends: it succeeds, it does not run, or it runs and its reply is lost.
\<close>

datatype db_outcome = DbOk | DbNotRun error | DbLost error

definition ran :: "db_outcome \<Rightarrow> bool" where
  "ran o' = (case o' of DbNotRun _ \<Rightarrow> False | _ \<Rightarrow> True)"

definition db_error :: "db_outcome \<Rightarrow> error option" where
  "db_error o' = (case o' of DbOk \<Rightarrow> None | DbNotRun e \<Rightarrow> Some e | DbLost e \<Rightarrow> Some e)"

record execution =
  claimAt :: time
  claimDb :: db_outcome
  endAt :: time
  endDb :: db_outcome
  durationMs :: time

fun job_outcome :: "JobStatusName option \<Rightarrow> JobOutcome" where
  "job_outcome (Some JRetrying) = JobRetrying"
| "job_outcome (Some _) = JobFailed"
| "job_outcome None = JobObsolete"

definition failure_of :: "error \<Rightarrow> JobErrorCode \<times> bool \<times> time" where
  "failure_of e = (case e of JobProcessingError c r ms \<Rightarrow> (c, r, ms) | _ \<Rightarrow> (JOB_FAILED, False, 0))"

text \<open>
  \<open>execute\<close>: claim, process, persist the outcome, then say what to do with the delivery.
  \<open>others\<close> is what the rest of the system does to the table while the processor runs.
\<close>

definition execute_job ::
  "JobStoreOptions \<Rightarrow> execution \<Rightarrow> (job_table \<Rightarrow> job_table) \<Rightarrow> (ProcessingJob \<Rightarrow> error + json) \<Rightarrow>
   JobEnvelope \<Rightarrow> job_table \<Rightarrow> job_table \<times> MetricEvent list \<times> (error + action)" where
  "execute_job opts ex others processor env t =
     (let (t1, job) = (if ran (claimDb ex) then claim opts (claimAt ex) env t else (t, None)) in
      case db_error (claimDb ex) of
        Some e \<Rightarrow> (t1, [], Inl e)
      | None \<Rightarrow>
          (case job of
             None \<Rightarrow> (t1, [], Inr Ack)
           | Some j \<Rightarrow>
               (let start = JobStart (1 < jobAttempt j) (queueWaitTimeMs j);
                    t2 = others t1
                in case processor j of
                     Inl e \<Rightarrow>
                       (let (ec, retry, ms) = failure_of e;
                            (t3, st) = (if ran (endDb ex) then fail opts (endAt ex) env ec retry ms t2
                                        else (t2, None))
                        in case db_error (endDb ex) of
                             Some d \<Rightarrow> (t3, [start, JobEnd InfrastructureError (durationMs ex)], Inl d)
                           | None \<Rightarrow> (t3, [start, JobEnd (job_outcome st) (durationMs ex)],
                                      Inr (if st = Some JFailed then DeadLetter else Ack)))
                   | Inr value \<Rightarrow>
                       (let t3 = (if ran (endDb ex) then complete opts (endAt ex) env value t2 else t2)
                        in case db_error (endDb ex) of
                             Some d \<Rightarrow> (t3, [start, JobEnd InfrastructureError (durationMs ex)], Inl d)
                           | None \<Rightarrow> (t3, [start, JobEnd JobSuccess (durationMs ex)], Inr Ack)))))"

subsection \<open>Messages\<close>

definition envelope_json :: "JobEnvelope \<Rightarrow> json" where
  "envelope_json env = JObj [(js ''id'', JStr (envId env)), (js ''attempt'', JNum (of_int (envAttempt env)))]"

definition id_char :: "code_unit \<Rightarrow> bool" where
  "id_char u \<longleftrightarrow>
     (65 \<le> u \<and> u \<le> 90) \<or> (97 \<le> u \<and> u \<le> 122) \<or> (48 \<le> u \<and> u \<le> 57) \<or> u = 95 \<or> u = 45"

text \<open>\<open>/^[A-Za-z0-9_-]{1,128}$/\<close>\<close>

definition valid_id :: "jstring \<Rightarrow> bool" where
  "valid_id s \<longleftrightarrow> list_all id_char s \<and> 1 \<le> length s \<and> length s \<le> 128"

text \<open>The validated envelope of a parsed message, \<open>None\<close> when it is not one.\<close>

definition isJobEnvelope :: "json option \<Rightarrow> JobEnvelope option" where
  "isJobEnvelope msg =
     (case msg of
        None \<Rightarrow> None
      | Some v \<Rightarrow>
          (case (jprop v ''id'', jprop v ''attempt'') of
             (Some (JStr s), Some (JNum q)) \<Rightarrow>
               if valid_id s \<and> number_isSafeInteger (Num q) \<and> 0 < q \<and> q \<le> 2147483647
               then Some \<lparr>envId = s, envAttempt = \<lfloor>q\<rfloor>\<rparr> else None
           | _ \<Rightarrow> None))"

datatype delivery_fate = Acked | Rejected | Unacked error

text \<open>\<open>handle\<close>, on the text of a delivery; an error of the handler leaves it unacknowledged.\<close>

definition handle ::
  "(JobEnvelope \<Rightarrow> 's \<Rightarrow> 's \<times> (error + action)) \<Rightarrow> jstring \<Rightarrow> 's \<Rightarrow> 's \<times> delivery_fate" where
  "handle handler text s =
     (case isJobEnvelope (json_parse text) of
        None \<Rightarrow> (s, Rejected)
      | Some env \<Rightarrow>
          (case handler env s of
             (s', Inl e) \<Rightarrow> (s', Unacked e)
           | (s', Inr DeadLetter) \<Rightarrow> (s', Rejected)
           | (s', Inr Ack) \<Rightarrow> (s', Acked)))"

subsection \<open>The broker\<close>

record broker =
  failure :: "error option"
  connected :: bool
  draining :: bool
  closing :: bool
  consumerTag :: "jstring option"
  active :: nat

text \<open>What may happen to a publication, in the order it happens.\<close>

datatype publish_event =
    MessageReturned jstring
  | ChannelClosed
  | ConfirmTimeout
  | Confirmed
  | ConfirmError error

definition messageId :: "JobEnvelope \<Rightarrow> jstring" where
  "messageId env = envId env @ js ''/'' @ string_of_int (envAttempt env)"

text \<open>The publication promise settles with the first event that concerns it.\<close>

fun publish_wait :: "jstring \<Rightarrow> publish_event list \<Rightarrow> (error + unit) option" where
  "publish_wait mid [] = None"
| "publish_wait mid (MessageReturned m # es) =
     (if m = mid then Some (Inl (OtherError (js ''RabbitMQ could not route the job'')))
      else publish_wait mid es)"
| "publish_wait mid (ChannelClosed # es) =
     Some (Inl (OtherError (js ''RabbitMQ channel closed before confirmation'')))"
| "publish_wait mid (ConfirmTimeout # es) =
     Some (Inl (OtherError (js ''RabbitMQ publish confirmation timed out'')))"
| "publish_wait mid (Confirmed # es) = Some (Inr ())"
| "publish_wait mid (ConfirmError e # es) = Some (Inl e)"

definition publish :: "broker \<Rightarrow> JobEnvelope \<Rightarrow> publish_event list \<Rightarrow> (error + unit) option" where
  "publish b env evs =
     (case failure b of
        Some e \<Rightarrow> Some (Inl e)
      | None \<Rightarrow>
          if \<not> connected b then Some (Inl (OtherError (js ''RabbitMQ is not connected'')))
          else publish_wait (messageId env) evs)"

text \<open>The consumer callback: a cancellation by the server, a delivery, and the end of a task.\<close>

definition on_consumer_cancel :: "broker \<Rightarrow> broker" where
  "on_consumer_cancel b =
     (if closing b then b
      else b\<lparr>failure := Some (OtherError (js ''RabbitMQ cancelled the consumer''))\<rparr>)"

definition on_delivery :: "broker \<Rightarrow> broker \<times> bool" where
  "on_delivery b = (if draining b then (b, False) else (b\<lparr>active := active b + 1\<rparr>, True))"

definition on_task_end :: "delivery_fate \<Rightarrow> broker \<Rightarrow> broker" where
  "on_task_end fate b =
     (let b1 = b\<lparr>active := active b - 1\<rparr> in
      case fate of Unacked e \<Rightarrow> b1\<lparr>failure := Some e\<rparr> | _ \<Rightarrow> b1)"

text \<open>The error and close events of the connection and its channels.\<close>

definition observe_error :: "error \<Rightarrow> broker \<Rightarrow> broker" where
  "observe_error e b = (if closing b then b else b\<lparr>failure := Some e\<rparr>)"

definition observe_close :: "broker \<Rightarrow> broker" where
  "observe_close b =
     (if closing b then b
      else b\<lparr>failure := (case failure b of Some e \<Rightarrow> Some e
                        | None \<Rightarrow> Some (OtherError (js ''RabbitMQ connection or channel closed'')))\<rparr>)"

text \<open>
  \<open>stopConsuming\<close> up to its wait for the running tasks, and from there on; the cancellation of
  the consumer may fail.
\<close>

definition stopConsuming_begin :: "broker \<Rightarrow> broker" where
  "stopConsuming_begin b = b\<lparr>draining := True\<rparr>"

definition stopConsuming_end :: "error option \<Rightarrow> broker \<Rightarrow> broker \<times> (error + unit)" where
  "stopConsuming_end cancelFails b =
     (if consumerTag b = None then (b, Inr ())
      else let b1 = b\<lparr>consumerTag := None\<rparr> in
        case cancelFails of
          None \<Rightarrow> (b1, Inr ())
        | Some e \<Rightarrow> (b1, if failure b1 = None then Inl e else Inr ()))"

subsection \<open>The worker loop\<close>

text \<open>
  One pass of the dispatch loop: at most \<open>n\<close> more dispatches, ended by a stop request, by
  nothing left to send, or by an error. Each element says whether the worker has been asked to
  stop and how the dispatch ends.
\<close>

fun dispatch_batch :: "nat \<Rightarrow> (bool \<times> (error + bool)) list \<Rightarrow> nat \<times> (error + unit)" where
  "dispatch_batch 0 ds = (0, Inr ())"
| "dispatch_batch (Suc n) [] = (0, Inr ())"
| "dispatch_batch (Suc n) ((stopped, res) # ds) =
     (if stopped then (0, Inr ())
      else case res of
        Inl e \<Rightarrow> (1, Inl e)
      | Inr False \<Rightarrow> (1, Inr ())
      | Inr True \<Rightarrow> (case dispatch_batch n ds of (k, r) \<Rightarrow> (Suc k, r)))"

definition loop_iteration ::
  "broker \<Rightarrow> error option \<Rightarrow> (bool \<times> (error + bool)) list \<Rightarrow> nat \<times> (error + unit)" where
  "loop_iteration b maintainFails ds =
     (case failure b of
        Some e \<Rightarrow> (0, Inl e)
      | None \<Rightarrow> (case maintainFails of Some e \<Rightarrow> (0, Inl e) | None \<Rightarrow> dispatch_batch 100 ds))"

section \<open>Lemmas\<close>

subsection \<open>Claims\<close>

lemma claimable_unique:
  assumes "table_ok t" and "r \<in> set t" and "claimable opts now env r"
  shows "find (claimable opts now env) t = Some r"
  using assms(2,3)
proof (rule find_unique)
  show "r' = r" if "r' \<in> set t" "claimable opts now env r'" for r'
    using job_id_unique [OF assms(1) that(1) assms(2)] that(2) assms(3) by (simp add: claimable_def)
qed

lemma claim_None:
  assumes "\<forall>r \<in> set t. \<not> claimable opts now env r"
  shows "claim opts now env t = (t, None)"
proof -
  have "find (claimable opts now env) t = None" using assms by (simp add: find_None_iff)
  with assms show ?thesis by (simp add: claim_def update_where_id)
qed

lemma owned_unique:
  assumes "table_ok t" and "r \<in> set t" and "owned_attempt opts env r"
  shows "find (owned_attempt opts env) t = Some r"
  using assms(2,3)
proof (rule find_unique)
  show "r' = r" if "r' \<in> set t" "owned_attempt opts env r'" for r'
    using job_id_unique [OF assms(1) that(1) assms(2)] that(2) assms(3) by (simp add: owned_attempt_def)
qed

lemma update_where_hit: "r \<in> set t \<Longrightarrow> P r \<Longrightarrow> f r \<in> set (update_where P f t)"
  by (auto simp: set_update_where)

lemma failure_of_retry: "failure_of e = (ec, retry, ms) \<Longrightarrow> retry \<Longrightarrow> \<exists>c d. e = JobProcessingError c True d"
  by (auto simp: failure_of_def split: error.splits)

text \<open>
  An attempt that has been superseded while it ran writes nothing; the processing is then
  still reported as a success.
\<close>

lemma stale_success_reported:
  assumes "claimDb ex = DbOk" and "endDb ex = DbOk" and "claim opts (claimAt ex) env t = (t1, Some j)"
    and "\<forall>r \<in> set (others t1). \<not> owned_attempt opts env r" and "processor j = Inr v"
  shows "execute_job opts ex others processor env t =
    (others t1, [JobStart (1 < jobAttempt j) (queueWaitTimeMs j), JobEnd JobSuccess (durationMs ex)], Inr Ack)"
  using assms by (simp add: execute_job_def ran_def db_error_def complete_def update_where_id)

subsection \<open>Messages\<close>

lemma jprop_envelope:
  "jprop (envelope_json env) ''id'' = Some (JStr (envId env))"
  "jprop (envelope_json env) ''attempt'' = Some (JNum (of_int (envAttempt env)))"
  by (simp_all add: envelope_json_def)

definition valid_envelope :: "JobEnvelope \<Rightarrow> bool" where
  "valid_envelope env \<longleftrightarrow> valid_id (envId env) \<and> 1 \<le> envAttempt env \<and> envAttempt env \<le> 2147483647"

lemma envelope_decodes:
  assumes "valid_envelope env"
  shows "isJobEnvelope (json_parse (stringify (envelope_json env))) = Some env"
proof -
  have a: "1 \<le> envAttempt env" "envAttempt env \<le> 2147483647" "valid_id (envId env)"
    using assms by (simp_all add: valid_envelope_def)
  then have q: "0 < (of_int (envAttempt env) :: rat)" "(of_int (envAttempt env) :: rat) \<le> 2147483647"
    by simp_all
  then have "\<bar>of_int (envAttempt env) :: rat\<bar> \<le> 2 ^ 53 - 1" by simp
  then have "printable (envelope_json env)" by (simp add: envelope_json_def)
  then have "json_parse (stringify (envelope_json env)) = Some (envelope_json env)"
    by (rule json_parse_stringify)
  with a q \<open>\<bar>_\<bar> \<le> _\<close> show ?thesis by (simp add: isJobEnvelope_def jprop_envelope)
qed

lemma isJobEnvelope_valid: "isJobEnvelope msg = Some env \<Longrightarrow> valid_envelope env"
  by (auto simp: isJobEnvelope_def valid_envelope_def is_int_rat_def floor_le_iff
      split: option.splits json.splits if_splits)

lemma publish_confirmed:
  assumes "publish b env evs = Some (Inr ())"
  obtains before after where "evs = before @ Confirmed # after"
    "\<forall>e \<in> set before. \<exists>m. e = MessageReturned m \<and> m \<noteq> messageId env"
proof -
  have "\<exists>before after. evs = before @ Confirmed # after \<and>
      (\<forall>e \<in> set before. \<exists>m. e = MessageReturned m \<and> m \<noteq> mid)"
    if "publish_wait mid evs = Some (Inr ())" for mid
    using that
  proof (induction mid evs rule: publish_wait.induct)
    case (2 mid m es)
    then obtain before after where "es = before @ Confirmed # after"
      "\<forall>e \<in> set before. \<exists>m. e = MessageReturned m \<and> m \<noteq> mid" by (auto split: if_splits)
    with 2(2) show ?case
      by (intro exI [where x = "MessageReturned m # before"] exI [where x = after]) (auto split: if_splits)
  next
    case (5 mid es)
    then show ?case by (intro exI [where x = "[]"] exI [where x = es]) simp
  qed auto
  moreover have "publish_wait (messageId env) evs = Some (Inr ())"
    using assms by (auto simp: publish_def split: option.splits if_splits)
  ultimately show thesis using that by blast
qed

lemma dispatch_batch_le: "fst (dispatch_batch n ds) \<le> n"
proof (induction n ds rule: dispatch_batch.induct)
  case (3 n stopped res ds)
  show ?case
  proof (cases res)
    case (Inr b)
    then show ?thesis using 3 by (cases b) (auto simp: split_beta)
  qed simp
qed simp_all

section \<open>Properties\<close>


definition demo_execution :: execution where
  "demo_execution = \<lparr>claimAt = 1, claimDb = DbOk, endAt = 2, endDb = DbOk, durationMs = 1\<rparr>"


text \<open>
  a job is retried exactly for the failures that are worth another attempt, and reports a
  public code. Whatever the provider throws becomes a processing error that is retryable if and
  only if the retry policy says so, carries the error's own code when it is a provider error
  with a public code, and honours the cooldown of an open circuit as the earliest next attempt.
\<close>

theorem processor_classification:
  "\<exists>ec d. processing_error e = JobProcessingError ec (isRetryableProviderError e) d \<and> ec \<in> fst ` set publicErrors \<and>
     (\<forall>p ms. e = App (ProviderCircuitOpenError p ms) \<longrightarrow> d = ms) \<and>
     (isRetryableProviderError e \<longrightarrow> (\<exists>a. e = App a \<and> code_name ec = code a)) \<and>
     (\<forall>a. e = App a \<and> (is_ProviderHttpError a \<or> is_ProviderResponseError a) \<longrightarrow> code_name ec = code a)"
proof (cases e)
  case (App a)
  then show ?thesis
    by (cases a) (auto simp: processing_error_def publicErrors_def)
qed (auto simp: processing_error_def publicErrors_def)

theorem processor_classification_witness:
  "\<exists>ec d. processing_error (App (ProviderCircuitOpenError (js ''ollama'') 700)) = JobProcessingError ec True d \<and> d = 700"
  using processor_classification [of "App (ProviderCircuitOpenError (js ''ollama'') 700)"] by auto

text \<open>
  messages survive the trip through the broker, and nothing else is executed. The printed
  envelope of a valid attempt parses back to that envelope, so the handler is called with it
  and its decision is carried out; a text that is not a valid envelope is dead-lettered without
  calling the handler; and an error of the handler leaves the delivery unacknowledged.
\<close>

theorem envelope_roundtrip:
  "(valid_envelope env \<longrightarrow>
      handle handler (stringify (envelope_json env)) s =
        (fst (handler env s),
         case snd (handler env s) of Inl e \<Rightarrow> Unacked e | Inr Ack \<Rightarrow> Acked | Inr DeadLetter \<Rightarrow> Rejected)) \<and>
   ((\<nexists>v env'. json_parse text = Some v \<and> valid_envelope env' \<and> jprop v ''id'' = Some (JStr (envId env')) \<and>
       jprop v ''attempt'' = Some (JNum (of_int (envAttempt env')))) \<longrightarrow> handle handler text s = (s, Rejected))"
proof (intro conjI impI)
  assume "valid_envelope env"
  then show "handle handler (stringify (envelope_json env)) s =
        (fst (handler env s),
         case snd (handler env s) of Inl e \<Rightarrow> Unacked e | Inr Ack \<Rightarrow> Acked | Inr DeadLetter \<Rightarrow> Rejected)"
    by (auto simp: handle_def envelope_decodes split: prod.split sum.split action.split)
next
  assume none: "\<nexists>v env'. json_parse text = Some v \<and> valid_envelope env' \<and> jprop v ''id'' = Some (JStr (envId env')) \<and>
       jprop v ''attempt'' = Some (JNum (of_int (envAttempt env')))"
  have "isJobEnvelope (json_parse text) = None"
  proof (rule ccontr)
    assume "isJobEnvelope (json_parse text) \<noteq> None"
    then obtain env' where env': "isJobEnvelope (json_parse text) = Some env'" by blast
    then obtain v where "json_parse text = Some v" "jprop v ''id'' = Some (JStr (envId env'))"
      "jprop v ''attempt'' = Some (JNum (of_int (envAttempt env')))"
      by (auto simp: isJobEnvelope_def is_int_rat_def split: option.splits json.splits if_splits)
    with none isJobEnvelope_valid [OF env'] show False by blast
  qed
  then show "handle handler text s = (s, Rejected)" by (simp add: handle_def)
qed

theorem envelope_roundtrip_witness:
  "handle (\<lambda>env (n :: nat). (n + 1, Inr Ack)) (stringify (envelope_json \<lparr>envId = js ''job-1'', envAttempt = 2\<rparr>)) 0
     = (1, Acked)"
proof -
  have "valid_envelope \<lparr>envId = js ''job-1'', envAttempt = 2\<rparr>" by code_simp
  with envelope_roundtrip [of "\<lparr>envId = js ''job-1'', envAttempt = 2\<rparr>" "\<lambda>env (n :: nat). (n + 1, Inr Ack)" 0]
  show ?thesis by simp
qed

end
