(* ===== verification/Utf8.thy ===== *)
theory Utf8
  imports Prelude
begin

text \<open>
  The streaming UTF-8 decoder of the platform, \<open>new TextDecoder("utf-8", \{ fatal: true \})\<close>, as
  its standard defines it: a byte-driven state machine that throws on malformed input, drops a
  leading byte order mark and emits UTF-16 code units; and the encoder, as the reference the
  decoder is proved against.
\<close>

section \<open>Definitions\<close>

type_synonym byte = "8 word"

record decoder =
  needed :: nat
  lower :: nat
  upper :: nat
  codePoint :: nat
  started :: bool

definition new_decoder :: decoder where
  "new_decoder = \<lparr>needed = 0, lower = 0x80, upper = 0xBF, codePoint = 0, started = False\<rparr>"

text \<open>A code point as UTF-16.\<close>

definition utf16 :: "nat \<Rightarrow> jstring" where
  "utf16 c =
     (if c < 0x10000 then [of_nat c]
      else [of_nat (0xD800 + (c - 0x10000) div 0x400), of_nat (0xDC00 + (c - 0x10000) mod 0x400)])"

definition emit :: "decoder \<Rightarrow> nat \<Rightarrow> decoder \<times> jstring" where
  "emit d c =
     (d\<lparr>needed := 0, lower := 0x80, upper := 0xBF, codePoint := 0, started := True\<rparr>,
      if \<not> started d \<and> c = 0xFEFF then [] else utf16 c)"

definition decode_byte :: "decoder \<Rightarrow> byte \<Rightarrow> (decoder \<times> jstring) option" where
  "decode_byte d b =
     (let n = unat b in
      if needed d = 0 then
        if n < 0x80 then Some (emit d n)
        else if 0xC2 \<le> n \<and> n \<le> 0xDF then Some (d\<lparr>needed := 1, codePoint := n - 0xC0\<rparr>, [])
        else if 0xE0 \<le> n \<and> n \<le> 0xEF then
          Some (d\<lparr>needed := 2, lower := (if n = 0xE0 then 0xA0 else 0x80),
                  upper := (if n = 0xED then 0x9F else 0xBF), codePoint := n - 0xE0\<rparr>, [])
        else if 0xF0 \<le> n \<and> n \<le> 0xF4 then
          Some (d\<lparr>needed := 3, lower := (if n = 0xF0 then 0x90 else 0x80),
                  upper := (if n = 0xF4 then 0x8F else 0xBF), codePoint := n - 0xF0\<rparr>, [])
        else None
      else if n < lower d \<or> upper d < n then None
      else
        (let c = codePoint d * 64 + (n - 0x80) in
         if needed d = 1 then Some (emit d c)
         else Some (d\<lparr>needed := needed d - 1, lower := 0x80, upper := 0xBF, codePoint := c\<rparr>, [])))"

text \<open>\<open>decoder.decode(part, \{ stream: true \})\<close>\<close>

fun decode :: "decoder \<Rightarrow> byte list \<Rightarrow> (decoder \<times> jstring) option" where
  "decode d [] = Some (d, [])"
| "decode d (b # bs) =
     (case decode_byte d b of
        None \<Rightarrow> None
      | Some (d', s) \<Rightarrow> map_option (\<lambda>(d'', t). (d'', s @ t)) (decode d' bs))"

text \<open>\<open>decoder.decode()\<close>: the end of the input.\<close>

definition decode_flush :: "decoder \<Rightarrow> bool" where
  "decode_flush d \<longleftrightarrow> needed d = 0"

text \<open>A whole buffer at once.\<close>

definition decode_all :: "byte list \<Rightarrow> jstring option" where
  "decode_all bs =
     (case decode new_decoder bs of
        Some (d, s) \<Rightarrow> if decode_flush d then Some s else None | None \<Rightarrow> None)"

text \<open>The encoder, on Unicode scalar values.\<close>

definition scalar_value :: "nat \<Rightarrow> bool" where
  "scalar_value c \<longleftrightarrow> c < 0x110000 \<and> \<not> (0xD800 \<le> c \<and> c \<le> 0xDFFF)"

definition utf8 :: "nat \<Rightarrow> byte list" where
  "utf8 c =
     (if c < 0x80 then [of_nat c]
      else if c < 0x800 then [of_nat (0xC0 + c div 64), of_nat (0x80 + c mod 64)]
      else if c < 0x10000 then
        [of_nat (0xE0 + c div 4096), of_nat (0x80 + c div 64 mod 64), of_nat (0x80 + c mod 64)]
      else
        [of_nat (0xF0 + c div 262144), of_nat (0x80 + c div 4096 mod 64),
         of_nat (0x80 + c div 64 mod 64), of_nat (0x80 + c mod 64)])"

text \<open>\<open>Buffer.from(s, "utf8")\<close>: lone surrogates become the replacement character.\<close>

fun scalars :: "jstring \<Rightarrow> nat list" where
  "scalars [] = []"
| "scalars [u] = [if 0xD800 \<le> unat u \<and> unat u \<le> 0xDFFF then 0xFFFD else unat u]"
| "scalars (u # v # us) =
     (if 0xD800 \<le> unat u \<and> unat u \<le> 0xDBFF \<and> 0xDC00 \<le> unat v \<and> unat v \<le> 0xDFFF
      then (0x10000 + (unat u - 0xD800) * 0x400 + (unat v - 0xDC00)) # scalars us
      else (if 0xD800 \<le> unat u \<and> unat u \<le> 0xDFFF then 0xFFFD else unat u) # scalars (v # us))"

definition encode :: "jstring \<Rightarrow> byte list" where
  "encode s = concat (map utf8 (scalars s))"

definition byteLength :: "jstring \<Rightarrow> nat" where
  "byteLength s = length (encode s)"

text \<open>A decoder between two characters, the byte order mark, and strings without lone surrogates.\<close>

definition idle :: "decoder \<Rightarrow> bool" where
  "idle d \<longleftrightarrow> needed d = 0 \<and> lower d = 0x80 \<and> upper d = 0xBF \<and> codePoint d = 0"

definition drop_bom :: "nat list \<Rightarrow> nat list" where
  "drop_bom cs = (if cs \<noteq> [] \<and> hd cs = 0xFEFF then tl cs else cs)"

definition is_surrogate :: "code_unit \<Rightarrow> bool" where
  "is_surrogate u \<longleftrightarrow> 0xD800 \<le> unat u \<and> unat u \<le> 0xDFFF"

text \<open>\<open>String.isWellFormed\<close>\<close>

fun well_formed :: "jstring \<Rightarrow> bool" where
  "well_formed [] = True"
| "well_formed [u] = (\<not> is_surrogate u)"
| "well_formed (u # v # us) =
     (if 0xD800 \<le> unat u \<and> unat u \<le> 0xDBFF \<and> 0xDC00 \<le> unat v \<and> unat v \<le> 0xDFFF
      then well_formed us else \<not> is_surrogate u \<and> well_formed (v # us))"

section \<open>Lemmas\<close>

lemma decode_append:
  "decode d (xs @ ys) =
     (case decode d xs of
        None \<Rightarrow> None
      | Some (d', s) \<Rightarrow> map_option (\<lambda>(d'', t). (d'', s @ t)) (decode d' ys))"
proof (induction xs arbitrary: d)
  case Nil
  show ?case by (cases "decode d ys") auto
next
  case (Cons b xs)
  show ?case
  proof (cases "decode_byte d b")
    case (Some p)
    then show ?thesis using Cons.IH [of "fst p"]
      by (cases "decode (fst p) xs") (auto simp: split_def option.map_comp comp_def)
  qed simp
qed

lemma idle_new [simp]: "idle new_decoder"
  by (simp add: idle_def new_decoder_def)

lemma emit_idle:
  assumes "idle d"
  shows "emit (d\<lparr>needed := n, lower := l, upper := u, codePoint := k\<rparr>) c =
    (d\<lparr>started := True\<rparr>, if \<not> started d \<and> c = 0xFEFF then [] else utf16 c)"
  using assms by (cases d) (simp add: idle_def emit_def)

lemma unat_byte: "n < 256 \<Longrightarrow> unat (of_nat n :: byte) = n"
  by (simp add: unat_of_nat)

text \<open>A continuation byte.\<close>

lemma decode_byte_cont:
  assumes "needed d \<noteq> 0" "k < 64" "lower d \<le> 0x80 + k" "0x80 + k \<le> upper d"
  shows "decode_byte d (of_nat (0x80 + k)) =
    (if needed d = 1 then Some (emit d (codePoint d * 64 + k))
     else Some (d\<lparr>needed := needed d - 1, lower := 0x80, upper := 0xBF,
                   codePoint := codePoint d * 64 + k\<rparr>, []))"
proof -
  have "unat (of_nat (0x80 + k) :: byte) = 0x80 + k" using assms(2) by (intro unat_byte) simp
  with assms show ?thesis by (simp add: decode_byte_def Let_def)
qed

lemma decode_lead2:
  assumes "idle d" "0x80 \<le> c" "c < 0x800"
  shows "decode_byte d (of_nat (0xC0 + c div 64)) =
    Some (d\<lparr>needed := 1, lower := 0x80, upper := 0xBF, codePoint := c div 64\<rparr>, [])"
proof -
  have r: "2 \<le> c div 64" "c div 64 < 32" using assms(2,3) by auto
  then have "unat (of_nat (0xC0 + c div 64) :: byte) = 0xC0 + c div 64" by (intro unat_byte) simp
  with r assms(1) show ?thesis by (cases d) (simp add: decode_byte_def Let_def idle_def)
qed

lemma decode_lead3:
  assumes "idle d" "0x800 \<le> c" "c < 0x10000"
  shows "decode_byte d (of_nat (0xE0 + c div 4096)) =
    Some (d\<lparr>needed := 2, lower := (if c < 0x1000 then 0xA0 else 0x80),
            upper := (if c div 4096 = 0xD then 0x9F else 0xBF), codePoint := c div 4096\<rparr>, [])"
proof -
  have r: "c div 4096 < 16" using assms(3) by auto
  then have "unat (of_nat (0xE0 + c div 4096) :: byte) = 0xE0 + c div 4096"
    by (intro unat_byte) simp
  with r assms(1) show ?thesis
    by (cases d) (auto simp: decode_byte_def Let_def idle_def)
qed

lemma decode_lead4:
  assumes "idle d" "0x10000 \<le> c" "c < 0x110000"
  shows "decode_byte d (of_nat (0xF0 + c div 262144)) =
    Some (d\<lparr>needed := 3, lower := (if c < 0x40000 then 0x90 else 0x80),
            upper := (if c div 262144 = 4 then 0x8F else 0xBF), codePoint := c div 262144\<rparr>, [])"
proof -
  have r: "c div 262144 \<le> 4" using assms(3) by auto
  then have "unat (of_nat (0xF0 + c div 262144) :: byte) = 0xF0 + c div 262144"
    by (intro unat_byte) simp
  with r assms(1) show ?thesis
    by (cases d) (auto simp: decode_byte_def Let_def idle_def)
qed

lemma radix64:
  fixes c :: nat
  shows "c div 64 * 64 + c mod 64 = c"
    "c div 4096 * 64 + c div 64 mod 64 = c div 64"
    "c div 262144 * 64 + c div 4096 mod 64 = c div 4096"
proof -
  have "c div 4096 = c div 64 div 64" "c div 262144 = c div 4096 div 64"
    by (simp_all add: div_mult2_eq [symmetric])
  then show "c div 64 * 64 + c mod 64 = c"
    "c div 4096 * 64 + c div 64 mod 64 = c div 64"
    "c div 262144 * 64 + c div 4096 mod 64 = c div 4096"
    by (simp_all only: div_mult_mod_eq)
qed

text \<open>An idle decoder decodes the encoding of a scalar value to its code units.\<close>

lemma decode_utf8:
  assumes "idle d" "scalar_value c"
  shows "decode d (utf8 c) =
    Some (d\<lparr>started := True\<rparr>, if \<not> started d \<and> c = 0xFEFF then [] else utf16 c)"
proof -
  define r where "r = (if \<not> started d \<and> c = 0xFEFF then [] else utf16 c)"
  have out: "emit (d\<lparr>needed := n, lower := l, upper := u, codePoint := k\<rparr>) c =
      (d\<lparr>started := True\<rparr>, r)" for n l u k
    unfolding r_def using assms(1) by (rule emit_idle)
  consider (one) "c < 0x80" | (two) "0x80 \<le> c" "c < 0x800" | (three) "0x800 \<le> c" "c < 0x10000"
    | (four) "0x10000 \<le> c" "c < 0x110000"
    using assms(2) by (fastforce simp: scalar_value_def)
  then have "decode d (utf8 c) = Some (d\<lparr>started := True\<rparr>, r)"
  proof cases
    case one
    have "decode_byte d (of_nat c) = Some (emit d c)"
      using assms(1) one by (simp add: decode_byte_def idle_def unat_byte)
    moreover have "emit d c = (d\<lparr>started := True\<rparr>, r)"
      using assms(1) by (cases d) (simp add: idle_def emit_def r_def)
    ultimately show ?thesis using one by (simp add: utf8_def)
  next
    case two
    then show ?thesis
      using assms(1)
      by (simp add: utf8_def decode_lead2 decode_byte_cont out radix64
        del: of_nat_add)
  next
    case three
    have "0xA0 \<le> 0x80 + c div 64 mod 64" if "c < 0x1000"
      using three that by auto
    moreover have "0x80 + c div 64 mod 64 \<le> 0x9F" if "c div 4096 = 0xD"
    proof -
      have "c < 0xD800"
        using that assms(2) by (auto simp: scalar_value_def)
      then have "c div 64 < 0x360" by auto
      with that show ?thesis using radix64(2) [of c] by linarith
    qed
    ultimately obtain lo up where "decode_byte d (of_nat (0xE0 + c div 4096)) =
        Some (d\<lparr>needed := 2, lower := lo, upper := up, codePoint := c div 4096\<rparr>, [])"
      and "lo \<le> 0x80 + c div 64 mod 64" "0x80 + c div 64 mod 64 \<le> up"
      using decode_lead3 [OF assms(1) three] by (auto split: if_splits)
    with three show ?thesis
      by (simp add: utf8_def decode_byte_cont out radix64 del: of_nat_add)
  next
    case four
    have "0x90 \<le> 0x80 + c div 4096 mod 64" if "c < 0x40000"
      using four that by auto
    moreover have "0x80 + c div 4096 mod 64 \<le> 0x8F" if "c div 262144 = 4"
    proof -
      have "c div 4096 < 0x110" using four by auto
      with that show ?thesis using radix64(3) [of c] by linarith
    qed
    ultimately obtain lo up where "decode_byte d (of_nat (0xF0 + c div 262144)) =
        Some (d\<lparr>needed := 3, lower := lo, upper := up, codePoint := c div 262144\<rparr>, [])"
      and "lo \<le> 0x80 + c div 4096 mod 64" "0x80 + c div 4096 mod 64 \<le> up"
      using decode_lead4 [OF assms(1) four] by (auto split: if_splits)
    with four show ?thesis
      by (simp add: utf8_def decode_byte_cont out radix64 del: of_nat_add)
  qed
  then show ?thesis by (simp add: r_def)
qed

lemma decode_utf8s:
  assumes "idle d" "started d" "list_all scalar_value cs"
  shows "decode d (concat (map utf8 cs)) = Some (d, concat (map utf16 cs))"
  using assms(3)
proof (induction cs)
  case (Cons c cs)
  have st: "d\<lparr>started := True\<rparr> = d" using assms(2) by (cases d) simp
  from Cons assms(1,2) show ?case by (simp add: decode_append decode_utf8 st)
qed simp

lemma decode_all_utf8s:
  assumes "list_all scalar_value cs"
  shows "decode_all (concat (map utf8 cs)) = Some (concat (map utf16 (drop_bom cs)))"
proof (cases cs)
  case Nil
  then show ?thesis
    by (simp add: decode_all_def decode_flush_def new_decoder_def drop_bom_def)
next
  case (Cons c cs')
  let ?d = "new_decoder\<lparr>started := True\<rparr>"
  have "decode new_decoder (concat (map utf8 cs)) = Some (?d, concat (map utf16 (drop_bom cs)))"
    using Cons assms
    by (auto simp: decode_append decode_utf8 decode_utf8s idle_def new_decoder_def drop_bom_def)
  then show ?thesis by (simp add: decode_all_def decode_flush_def new_decoder_def)
qed

text \<open>
  The code points of a string are scalar values, and a string without lone surrogates is their
  UTF-16.
\<close>

lemma scalars_scalar: "list_all scalar_value (scalars s)"
proof (induction s rule: scalars.induct)
  case (2 u)
  have "unat u < 0x10000" using unsigned_less [of u] by simp
  then show ?case by (auto simp: scalar_value_def)
next
  case (3 u v us)
  have "unat u < 0x10000" "unat v < 0x10000" using unsigned_less [of u] unsigned_less [of v] by simp_all
  with 3 show ?case by (auto simp: scalar_value_def)
qed simp

lemma well_formed_append:
  "well_formed xs \<Longrightarrow> well_formed ys \<Longrightarrow> well_formed (xs @ ys)"
proof (induction xs rule: well_formed.induct)
  case (2 u)
  then show ?case by (cases ys) (auto simp: is_surrogate_def)
qed (auto split: if_splits)

lemma well_formed_small:
  "\<forall>u \<in> set s. unat u < 0xD800 \<Longrightarrow> well_formed s"
  by (induction s rule: well_formed.induct) (auto simp: is_surrogate_def)

lemma well_formed_js: "well_formed (js s)"
proof (rule well_formed_small, rule ballI)
  fix u
  assume "u \<in> set (js s)"
  then obtain c where "u = unit_of_char c" by (auto simp: js_def)
  moreover have "(of_char c :: nat) < 0xD800" using of_char_less [of c] by linarith
  ultimately show "unat u < 0xD800" by (simp add: unat_unit_of_char)
qed

lemma utf16_unit: "utf16 (unat u) = [u]"
proof -
  have "unat u < 0x10000" using unsigned_less [of u] by simp
  then show ?thesis by (simp add: utf16_def)
qed

lemma utf16_pair:
  fixes u v :: code_unit
  assumes "0xD800 \<le> unat u" "unat u \<le> 0xDBFF" "0xDC00 \<le> unat v" "unat v \<le> 0xDFFF"
  shows "utf16 (0x10000 + (unat u - 0xD800) * 0x400 + (unat v - 0xDC00)) = [u, v]"
proof -
  define a b where "a = unat u - 0xD800" and "b = unat v - 0xDC00"
  have "b < 0x400" using assms by (simp add: b_def)
  then have "(a * 0x400 + b) div 0x400 = a" "(a * 0x400 + b) mod 0x400 = b" by simp_all
  moreover have "0xD800 + a = unat u" "0xDC00 + b = unat v" using assms by (simp_all add: a_def b_def)
  ultimately have "utf16 (0x10000 + a * 0x400 + b) = [of_nat (unat u), of_nat (unat v)]"
    by (simp add: utf16_def del: of_nat_add)
  then show ?thesis by (simp add: a_def b_def)
qed

lemma utf16_scalars:
  assumes "well_formed s"
  shows "concat (map utf16 (scalars s)) = s"
  using assms
proof (induction s rule: scalars.induct)
  case (3 u v us)
  show ?case
  proof (cases "0xD800 \<le> unat u \<and> unat u \<le> 0xDBFF \<and> 0xDC00 \<le> unat v \<and> unat v \<le> 0xDFFF")
    case True
    then have "scalars (u # v # us) =
        (0x10000 + (unat u - 0xD800) * 0x400 + (unat v - 0xDC00)) # scalars us"
      by simp
    moreover have "concat (map utf16 (scalars us)) = us" using 3 True by simp
    ultimately show ?thesis using True by (simp only: list.map concat.simps utf16_pair) simp
  next
    case False
    then show ?thesis using 3 by (auto simp: is_surrogate_def utf16_unit)
  qed
qed (auto simp: is_surrogate_def utf16_unit)

lemma bom_unat: "unat (u :: code_unit) = 0xFEFF \<longleftrightarrow> u = 0xFEFF"
proof -
  have "unat (0xFEFF :: code_unit) = 0xFEFF" by simp
  then show ?thesis by (metis unsigned_word_eqI)
qed

text \<open>Encoding and decoding a well-formed string gives it back, less a leading byte order mark.\<close>

lemma decode_all_encode:
  assumes "well_formed s" "take 1 s \<noteq> [0xFEFF]"
  shows "decode_all (encode s) = Some s"
proof -
  have "drop_bom (scalars s) = scalars s"
  proof (cases s rule: scalars.cases)
    case (2 u)
    then show ?thesis using assms by (auto simp: drop_bom_def is_surrogate_def bom_unat)
  next
    case (3 u v us)
    then show ?thesis using assms by (auto simp: drop_bom_def is_surrogate_def bom_unat)
  qed (simp add: drop_bom_def)
  with assms(1) show ?thesis
    by (simp add: encode_def decode_all_utf8s scalars_scalar utf16_scalars)
qed

end
