(* ===== verification/Wire_Text.thy ===== *)
theory Wire_Text
  imports Utf8 Json
begin

text \<open>
  Printed JSON as bytes: the text has no control characters, so it is one line, and no lone
  surrogates, so its UTF-8 decodes to itself. The event stream and the answer cache rest on it.
\<close>

section \<open>Definitions\<close>

text \<open>Text without control characters and lone surrogates.\<close>

definition clean :: "jstring \<Rightarrow> bool" where
  "clean s \<longleftrightarrow> well_formed s \<and> (\<forall>u \<in> set s. 32 \<le> unat u)"

section \<open>Lemmas\<close>

lemma clean_Nil [simp]: "clean []"
  by (simp add: clean_def)

lemma clean_append: "clean xs \<Longrightarrow> clean ys \<Longrightarrow> clean (xs @ ys)"
  by (auto simp: clean_def well_formed_append)

lemma clean_small: "\<forall>u \<in> set s. 32 \<le> unat u \<and> unat u < 0xD800 \<Longrightarrow> clean s"
  by (auto simp: clean_def intro: well_formed_small)

lemma clean_pair:
  assumes "is_high u" "is_low v" "clean us"
  shows "clean (u # v # us)"
proof -
  have "0xD800 \<le> unat u" "unat u \<le> 0xDBFF" "0xDC00 \<le> unat v" "unat v \<le> 0xDFFF"
    using assms by (simp_all add: is_high_def is_low_def word_le_nat_alt)
  with assms(3) show ?thesis by (auto simp: clean_def)
qed

lemma clean_js:
  assumes "list_all (\<lambda>c. 32 \<le> (of_char c :: nat)) s"
  shows "clean (js s)"
proof (rule clean_small, rule ballI)
  fix u
  assume "u \<in> set (js s)"
  then obtain c where "c \<in> set s" "u = unit_of_char c" by (auto simp: js_def)
  moreover have "(of_char c :: nat) < 0xD800" using of_char_less [of c] by linarith
  ultimately show "32 \<le> unat u \<and> unat u < 0xD800"
    using assms by (auto simp: unat_unit_of_char list_all_iff)
qed

lemma clean_hex4: "clean (hex4 v)"
proof -
  have "32 \<le> unat (hex_digit n) \<and> unat (hex_digit n) < 0xD800" if "n < 16" for n
    using that by (auto simp: hex_digit_def unat_of_nat)
  then show ?thesis by (intro clean_small) (simp add: hex4_def Let_def)
qed

lemma clean_one: "32 \<le> unat u \<Longrightarrow> \<not> is_surrogate u \<Longrightarrow> clean [u]"
  by (simp add: clean_def)

lemma clean_punctuation [simp]:
  "clean [34]" "clean [44]" "clean [58]" "clean [91]" "clean [93]" "clean [123]" "clean [125]"
  "clean [92, 34]" "clean [92, 92]" "clean [92, 117]"
  by (auto intro!: clean_small)

lemma clean_escape_unit: "clean (escape_unit u)"
proof (cases "32 \<le> unat u \<and> \<not> is_surrogate u")
  case True
  then have "\<not> u < 32" "\<not> is_high u" "\<not> is_low u"
    by (auto simp: is_high_def is_low_def is_surrogate_def word_le_nat_alt word_less_nat_alt)
  moreover have "clean [u]" using True by (intro clean_one) auto
  ultimately show ?thesis
    by (auto simp: escape_unit_def intro!: clean_js)
next
  case False
  have "clean ([92, 117] @ hex4 u)" by (intro clean_append clean_hex4 clean_punctuation)
  moreover have "u < 32 \<or> is_high u \<or> is_low u"
    using False by (auto simp: is_high_def is_low_def is_surrogate_def word_le_nat_alt word_less_nat_alt)
  moreover have "u \<noteq> 34" "u \<noteq> 92" using False by (auto simp: is_surrogate_def)
  ultimately show ?thesis
    by (auto simp: escape_unit_def intro!: clean_js)
qed

lemma clean_quote: "clean (quote s)"
proof -
  have "clean (quote_units s)"
    by (induction s rule: quote_units.induct)
      (auto simp: clean_escape_unit intro!: clean_append clean_pair)
  then show ?thesis
    unfolding quote_def by (intro clean_append) simp_all
qed

lemma clean_string_of_int: "clean (string_of_int i)"
proof -
  have "list_all (\<lambda>c. 32 \<le> (of_char c :: nat)) (string_of_nat n)" for n
    by (induction n rule: string_of_nat.induct) (subst string_of_nat.simps, simp)
  then show ?thesis unfolding string_of_int_def by (intro clean_js) auto
qed

lemma clean_join_comma: "\<forall>x \<in> set xs. clean x \<Longrightarrow> clean (join_comma xs)"
proof (induction xs rule: join_comma.induct)
  case (3 x y xs)
  then show ?case unfolding join_comma.simps by (intro clean_append) auto
qed auto

lemma clean_stringify: "clean (stringify v)"
proof (induction v rule: stringify.induct)
  case (5 vs)
  then have "clean (join_comma (map stringify vs))" by (intro clean_join_comma) auto
  then show ?case by (simp only: stringify.simps) (intro clean_append, simp_all)
next
  case (6 kvs)
  have "clean (quote k @ [58] @ stringify v)" if "(k, v) \<in> set kvs" for k v
    using 6 [OF that refl] by (intro clean_append clean_quote) simp_all
  then have "clean (join_comma (map (\<lambda>(k, v). quote k @ [58] @ stringify v) kvs))"
    by (intro clean_join_comma) auto
  then show ?case by (simp only: stringify.simps) (intro clean_append, simp_all)
qed (auto simp: clean_quote clean_string_of_int intro!: clean_js)

lemma decode_stringify:
  "decode_all (encode (stringify (JObj kvs))) = Some (stringify (JObj kvs))"
proof (rule decode_all_encode)
  show "well_formed (stringify (JObj kvs))" using clean_stringify [of "JObj kvs"] unfolding clean_def ..
  show "take 1 (stringify (JObj kvs)) \<noteq> [0xFEFF]" by simp
qed

end
