(* ===== verification/Chat_Cache.thy ===== *)
theory Chat_Cache
  imports Canonical_Hash App_Errors Wire_Text
begin

text \<open>
  The answer cache of \<open>src/cache/redis-chat-cache.ts\<close>. Redis is a map from keys to a value with
  its expiry; its replies and their loss, the time limit and the caller's abort are the fate of a
  command: what settles the race in \<open>command\<close> first. A command whose reply is lost may have been
  carried out by the server, so \<open>put\<close> also takes whether it was.
\<close>

section \<open>Definitions\<close>

record RedisChatCacheOptions =
  namespace :: jstring
  ttlSeconds :: int
  maxEntryBytes :: int
  cacheTimeoutMs :: int

definition valid_option :: "number \<Rightarrow> bool" where
  "valid_option n \<longleftrightarrow>
     \<not> (\<not> number_isSafeInteger n \<or> number_less n (Num 1) \<or> number_less (Num 2147483647) n)"

definition option_error :: "string \<Rightarrow> error" where
  "option_error name = OtherError (js (''Cache '' @ name @ '' must be a positive integer''))"

definition newRedisChatCache ::
  "jstring \<Rightarrow> number \<Rightarrow> number \<Rightarrow> number \<Rightarrow> error + RedisChatCacheOptions" where
  "newRedisChatCache ns ttl maxBytes timeout =
     (if \<not> valid_option ttl then Inl (option_error ''ttlSeconds'')
      else if \<not> valid_option maxBytes then Inl (option_error ''maxEntryBytes'')
      else if \<not> valid_option timeout then Inl (option_error ''timeoutMs'')
      else if ns = [] then Inl (OtherError (js ''Cache namespace is required''))
      else Inr \<lparr>namespace = ns, ttlSeconds = int_of_number ttl, maxEntryBytes = int_of_number maxBytes,
                cacheTimeoutMs = int_of_number timeout\<rparr>)"

subsection \<open>Redis\<close>

record cache_entry =
  entryBytes :: "byte list"
  expiresAt :: time

type_synonym redis = "jstring \<rightharpoonup> cache_entry"

definition live :: "time \<Rightarrow> redis \<Rightarrow> jstring \<Rightarrow> cache_entry option" where
  "live now R key =
     (case R key of Some e \<Rightarrow> if now < expiresAt e then Some e else None | None \<Rightarrow> None)"

text \<open>\<open>GETRANGE key 0 end\<close>: the end is inclusive, a missing key is the empty string.\<close>

definition getrange :: "time \<Rightarrow> redis \<Rightarrow> jstring \<Rightarrow> nat \<Rightarrow> byte list" where
  "getrange now R key last_index =
     (case live now R key of Some e \<Rightarrow> take (Suc last_index) (entryBytes e) | None \<Rightarrow> [])"

text \<open>\<open>SET key value EX ttl NX\<close>\<close>

definition set_nx :: "time \<Rightarrow> jstring \<Rightarrow> byte list \<Rightarrow> int \<Rightarrow> redis \<Rightarrow> redis" where
  "set_nx now key v ttl R =
     (if live now R key \<noteq> None then R
      else R(key \<mapsto> \<lparr>entryBytes = v, expiresAt = now + 1000 * of_int ttl\<rparr>))"

subsection \<open>Operations\<close>

datatype fate = Replied | CommandRejected error | TimedOut | CommandCancelled

definition command :: "bool \<Rightarrow> fate \<Rightarrow> 'a \<Rightarrow> error + 'a" where
  "command aborted f reply =
     (case throwIfCancelled aborted of
        Inl e \<Rightarrow> Inl e
      | Inr _ \<Rightarrow>
          (case f of
             Replied \<Rightarrow> Inr reply
           | CommandRejected e \<Rightarrow> Inl e
           | TimedOut \<Rightarrow> Inl (OtherError (js ''Chat cache timed out''))
           | CommandCancelled \<Rightarrow> Inl RequestAbortedError))"

definition json_of_response :: "ChatResponse \<Rightarrow> json" where
  "json_of_response r =
     JObj [(js ''message'', JObj [(js ''role'', JStr (js ''assistant'')), (js ''content'', JStr (answer r))])]"

definition isChatResponse :: "json \<Rightarrow> bool" where
  "isChatResponse v \<longleftrightarrow>
     (case jprop v ''message'' of
        Some m \<Rightarrow>
          jprop m ''role'' = Some (JStr (js ''assistant'')) \<and>
          (case jprop m ''content'' of Some (JStr _) \<Rightarrow> True | _ \<Rightarrow> False)
      | None \<Rightarrow> False)"

text \<open>\<open>value.message.content\<close> of a value that is a chat response.\<close>

definition response_content :: "json \<Rightarrow> jstring" where
  "response_content v =
     (case jprop v ''message'' of
        Some m \<Rightarrow> (case jprop m ''content'' of Some (JStr c) \<Rightarrow> c | _ \<Rightarrow> []) | None \<Rightarrow> [])"

text \<open>What a stored value is worth: anything malformed is a miss.\<close>

definition decode_entry :: "nat \<Rightarrow> byte list \<Rightarrow> ChatResponse option" where
  "decode_entry maxBytes data =
     (if length data = 0 \<or> length data > maxBytes then None
      else case decode_all data of
        None \<Rightarrow> None
      | Some s \<Rightarrow>
          (case json_parse s of
             None \<Rightarrow> None
           | Some v \<Rightarrow> if isChatResponse v then Some \<lparr>answer = response_content v\<rparr> else None))"

definition cache_get ::
  "(jstring \<Rightarrow> jstring) \<Rightarrow> RedisChatCacheOptions \<Rightarrow> jstring \<Rightarrow> ChatRequest \<Rightarrow> bool \<Rightarrow> fate \<Rightarrow> time \<Rightarrow> redis \<Rightarrow>
   error + ChatResponse option" where
  "cache_get sha256 opts ownerId request aborted f now R =
     map_sum id (decode_entry (nat (maxEntryBytes opts)))
       (command aborted f
         (getrange now R (chatCacheKey sha256 (namespace opts) ownerId request) (nat (maxEntryBytes opts))))"

definition cache_put ::
  "(jstring \<Rightarrow> jstring) \<Rightarrow> RedisChatCacheOptions \<Rightarrow> jstring \<Rightarrow> ChatRequest \<Rightarrow> ChatResponse \<Rightarrow> bool \<Rightarrow> fate \<Rightarrow>
   bool \<Rightarrow> time \<Rightarrow> redis \<Rightarrow> (error + unit) \<times> redis" where
  "cache_put sha256 opts ownerId request response aborted f applied now R =
     (case throwIfCancelled aborted of
        Inl e \<Rightarrow> (Inl e, R)
      | Inr _ \<Rightarrow>
          if \<not> isChatResponse (json_of_response response) then (Inr (), R)
          else if int (byteLength (answer response)) > maxEntryBytes opts then (Inr (), R)
          else
            (let v = stringify (json_of_response response) in
             if int (byteLength v) > maxEntryBytes opts then (Inr (), R)
             else
               (let key = chatCacheKey sha256 (namespace opts) ownerId request in
                (command aborted f (),
                 if f = Replied \<or> applied then set_nx now key (encode v) (ttlSeconds opts) R else R))))"

section \<open>Lemmas\<close>

lemma isChatResponse_response [simp]: "isChatResponse (json_of_response r)"
  by (simp add: isChatResponse_def json_of_response_def)

lemma response_content_response [simp]: "response_content (json_of_response r) = answer r"
  by (simp add: response_content_def json_of_response_def)

lemma printable_response [simp]: "printable (json_of_response r)"
  by (simp add: json_of_response_def)

lemma decode_entry_response:
  assumes "length (encode (stringify (json_of_response r))) \<le> n"
  shows "decode_entry n (encode (stringify (json_of_response r))) = Some r"
proof -
  have decoded: "decode_all (encode (stringify (json_of_response r))) = Some (stringify (json_of_response r))"
    unfolding json_of_response_def by (rule decode_stringify)
  moreover have "stringify (json_of_response r) \<noteq> []" by (simp add: json_of_response_def)
  ultimately have "encode (stringify (json_of_response r)) \<noteq> []"
    by (auto simp: decode_all_def decode_flush_def split: if_splits)
  with assms decoded show ?thesis by (simp add: decode_entry_def json_parse_stringify)
qed

lemma set_nx_live: "live now R key \<noteq> None \<Longrightarrow> set_nx now key v ttl R = R"
  by (simp add: set_nx_def)

lemma set_nx_other: "k \<noteq> key \<Longrightarrow> set_nx now key v ttl R k = R k"
  by (simp add: set_nx_def)

lemma cache_put_cases:
  obtains (unchanged) "snd (cache_put sha256 opts ownerId request r aborted f applied now R) = R"
  | (written) "int (byteLength (answer r)) \<le> maxEntryBytes opts"
      "int (byteLength (stringify (json_of_response r))) \<le> maxEntryBytes opts"
      "snd (cache_put sha256 opts ownerId request r aborted f applied now R) =
         set_nx now (chatCacheKey sha256 (namespace opts) ownerId request)
           (encode (stringify (json_of_response r))) (ttlSeconds opts) R"
  by (cases "snd (cache_put sha256 opts ownerId request r aborted f applied now R) = R")
    (auto simp: cache_put_def throwIfCancelled_def Let_def split: if_splits)

section \<open>Properties\<close>

text \<open>
  C35: What the cache stores is what it returns: after a stored answer that fits, a lookup of the
  same request by the same owner within the time to live returns exactly that answer, whatever
  characters it holds; the first answer wins, so a later store of any answer before the expiry
  changes neither the entry nor its lifetime; no other key is touched; and an answer that does not
  fit is not stored at all.
\<close>

theorem cache_round_trip:
  assumes "0 < maxEntryBytes opts" and "0 < ttlSeconds opts"
    and "live now R key = None" and "key = chatCacheKey sha256 (namespace opts) ownerId request"
    and "R' = snd (cache_put sha256 opts ownerId request r False Replied applied now R)"
    and "now \<le> later" and "later < now + 1000 * of_int (ttlSeconds opts)"
  shows "(if int (byteLength (answer r)) \<le> maxEntryBytes opts
            \<and> int (byteLength (stringify (json_of_response r))) \<le> maxEntryBytes opts
          then cache_get sha256 opts ownerId request False Replied later R' = Inr (Some r) \<and>
            snd (cache_put sha256 opts ownerId request r' aborted f applied' later R') = R'
          else R' = R) \<and>
    (\<forall>k. k \<noteq> key \<longrightarrow> R' k = R k)"
proof (cases "int (byteLength (answer r)) \<le> maxEntryBytes opts
            \<and> int (byteLength (stringify (json_of_response r))) \<le> maxEntryBytes opts")
  case True
  let ?bytes = "encode (stringify (json_of_response r))"
  have R': "R' = R(key \<mapsto> \<lparr>entryBytes = ?bytes, expiresAt = now + 1000 * of_int (ttlSeconds opts)\<rparr>)"
    using True assms(3-5) by (simp add: cache_put_def throwIfCancelled_def Let_def set_nx_def)
  then have live: "live later R' key = Some \<lparr>entryBytes = ?bytes, expiresAt = now + 1000 * of_int (ttlSeconds opts)\<rparr>"
    using assms(7) by (simp add: live_def)
  have len: "length ?bytes \<le> nat (maxEntryBytes opts)"
    using True by (simp add: byteLength_def le_nat_iff)
  have "cache_get sha256 opts ownerId request False Replied later R' = Inr (Some r)"
    using live len assms(4) decode_entry_response [OF len]
    by (simp add: cache_get_def command_def throwIfCancelled_def getrange_def)
  moreover have "snd (cache_put sha256 opts ownerId request r' aborted f applied' later R') = R'"
    by (rule cache_put_cases [of sha256 opts ownerId request r' aborted f applied' later R'])
      (use live assms(4) in \<open>simp_all add: set_nx_live\<close>)
  ultimately show ?thesis using True R' by simp
next
  case False
  then have "R' = R" using assms(5) by (auto simp: cache_put_def throwIfCancelled_def Let_def)
  with False show ?thesis by auto
qed

theorem cache_round_trip_witness:
  "let opts = \<lparr>namespace = js ''n'', ttlSeconds = 300, maxEntryBytes = 65536, cacheTimeoutMs = 100\<rparr>;
       request = \<lparr>model = js ''m'', messages = []\<rparr>;
       R' = snd (cache_put (\<lambda>s. s) opts (js ''o'') request \<lparr>answer = [0xD800]\<rparr> False Replied True 0 Map.empty)
   in cache_get (\<lambda>s. s) opts (js ''o'') request False Replied 1000 R' = Inr (Some \<lparr>answer = [0xD800]\<rparr>)"
proof -
  let ?opts = "\<lparr>namespace = js ''n'', ttlSeconds = 300, maxEntryBytes = 65536, cacheTimeoutMs = 100\<rparr>"
  let ?request = "\<lparr>model = js ''m'', messages = []\<rparr>"
  have "byteLength [0xD800] = 3"
    by (simp add: byteLength_def encode_def utf8_def)
  moreover have "byteLength (stringify (json_of_response \<lparr>answer = [0xD800]\<rparr>)) \<le> 65536"
    by (simp add: json_of_response_def quote_def js_def escape_unit_def is_high_def is_low_def
        unit_of_char_def hex4_def hex_digit_def byteLength_def encode_def utf8_def)
  moreover have "live 0 Map.empty (chatCacheKey (\<lambda>s. s) (namespace ?opts) (js ''o'') ?request) = None"
    by (simp add: live_def)
  ultimately show ?thesis
    using cache_round_trip [of ?opts 0 Map.empty _ "\<lambda>s. s" "js ''o''" ?request _ "\<lparr>answer = [0xD800]\<rparr>" True 1000]
    by (simp add: Let_def)
qed

end
