(* ===== verification/Schemas.thy ===== *)
theory Schemas
  imports Job_Worker Chat_Cache Provider_Router
begin

text \<open>
  The JSON schemas of the routes: \<open>src/routes/chat-schema.ts\<close> and the schemas inside
  \<open>src/routes/jobs.ts\<close>, \<open>src/routes/providers.ts\<close> and \<open>src/routes/chat.ts\<close>, as data, with
  what a value must be to conform to one. The validator itself belongs to the HTTP framework; it
  may coerce and drop what it is given, and the model relies only on its result conforming to
  the schema. The properties: a conforming body is a complete chat request, and what the
  handlers return conforms to the schema they publish.
\<close>

section \<open>Definitions\<close>

subsection \<open>Schemas\<close>

text \<open>
  A pattern \<open>^[\<dots>]+$\<close> is the list of the characters of its class; \<open>minLength\<close> of a schema
  without one is zero.
\<close>

datatype schema =
    StringSchema (minLength: nat) (maxLength: "nat option") (charClass: "jstring option") (enumOf: "jstring list option")
  | NumberSchema (onlyInteger: bool) (minimum: "rat option")
  | ArraySchema (minItems: nat) (itemSchema: schema)
  | ObjectSchema (required: "jstring list") (additional: bool) (properties: "(jstring \<times> schema) list")

text \<open>The length of a string in code points.\<close>

fun code_points :: "jstring \<Rightarrow> nat" where
  "code_points (u # v # us) = (if is_high u \<and> is_low v then 1 + code_points us else 1 + code_points (v # us))"
| "code_points us = length us"

definition string_ok :: "nat \<Rightarrow> nat option \<Rightarrow> jstring option \<Rightarrow> jstring list option \<Rightarrow> jstring \<Rightarrow> bool" where
  "string_ok mn mx cls en s \<longleftrightarrow>
     mn \<le> code_points s \<and>
     (case mx of None \<Rightarrow> True | Some n \<Rightarrow> code_points s \<le> n) \<and>
     (case cls of None \<Rightarrow> True | Some cs \<Rightarrow> s \<noteq> [] \<and> list_all (\<lambda>u. u \<in> set cs) s) \<and>
     (case en of None \<Rightarrow> True | Some vs \<Rightarrow> s \<in> set vs)"

fun conforms :: "schema \<Rightarrow> json \<Rightarrow> bool" where
  "conforms (StringSchema mn mx cls en) v = (case v of JStr s \<Rightarrow> string_ok mn mx cls en s | _ \<Rightarrow> False)"
| "conforms (NumberSchema whole mn) v =
     (case v of
        JNum q \<Rightarrow> (whole \<longrightarrow> is_int_rat q) \<and> (case mn of None \<Rightarrow> True | Some b \<Rightarrow> b \<le> q)
      | _ \<Rightarrow> False)"
| "conforms (ArraySchema mn sc) v =
     (case v of JArr vs \<Rightarrow> mn \<le> length vs \<and> list_all (conforms sc) vs | _ \<Rightarrow> False)"
| "conforms (ObjectSchema req extra props) v =
     (case v of
        JObj kvs \<Rightarrow>
          list_all (\<lambda>k. map_of kvs k \<noteq> None) req \<and>
          (extra \<or> list_all (\<lambda>(k, _). k \<in> set (map fst props)) kvs) \<and>
          list_all (\<lambda>(k, sc). case map_of kvs k of None \<Rightarrow> True | Some w \<Rightarrow> conforms sc w) props
      | _ \<Rightarrow> False)"

subsection \<open>The schemas of the routes\<close>

definition anyString :: schema where
  "anyString = StringSchema 0 None None None"

definition enumString :: "string list \<Rightarrow> schema" where
  "enumString vs = StringSchema 0 None None (Some (map js vs))"

definition messageSchema :: schema where
  "messageSchema =
     ObjectSchema [js ''role'', js ''content''] False
       [(js ''role'', enumString [''system'', ''user'', ''assistant'']),
        (js ''content'', StringSchema 1 None None None)]"

definition chatRequestSchema :: schema where
  "chatRequestSchema =
     ObjectSchema [js ''model'', js ''messages''] False
       [(js ''model'', StringSchema 1 None None None), (js ''messages'', ArraySchema 1 messageSchema)]"

definition chatResponseSchema :: schema where
  "chatResponseSchema =
     ObjectSchema [js ''message''] False
       [(js ''message'', ObjectSchema [js ''role'', js ''content''] False
           [(js ''role'', enumString [''assistant'']), (js ''content'', anyString)])]"

definition chatHeadersSchema :: schema where
  "chatHeadersSchema = ObjectSchema [] True [(js ''x-cache-mode'', enumString [''use'', ''bypass''])]"

definition alphanumeric :: jstring where
  "alphanumeric = map (\<lambda>n. of_nat n) ([65..<91] @ [97..<123] @ [48..<58])"

definition idempotencyKeySchema :: schema where
  "idempotencyKeySchema = StringSchema 1 (Some 128) (Some (alphanumeric @ js ''._-'')) None"

definition jobHeadersSchema :: schema where
  "jobHeadersSchema = ObjectSchema [js ''idempotency-key''] True [(js ''idempotency-key'', idempotencyKeySchema)]"

definition receiptProperties :: "(jstring \<times> schema) list" where
  "receiptProperties = [(js ''id'', anyString), (js ''requestId'', anyString)]"

definition receiptSchema :: schema where
  "receiptSchema = ObjectSchema [js ''id'', js ''requestId''] False receiptProperties"

definition jobIdSchema :: schema where
  "jobIdSchema = StringSchema 1 (Some 128) (Some (alphanumeric @ js ''_-'')) None"

definition jobParamsSchema :: schema where
  "jobParamsSchema = ObjectSchema [js ''id''] True [(js ''id'', jobIdSchema)]"

definition jobStatusSchema :: schema where
  "jobStatusSchema =
     ObjectSchema (map js [''id'', ''requestId'', ''status'', ''attemptsMade'']) False
       (receiptProperties @
        [(js ''status'', enumString [''queued'', ''active'', ''retrying'', ''completed'', ''failed'']),
         (js ''attemptsMade'', NumberSchema True None),
         (js ''response'', chatResponseSchema),
         (js ''error'', ObjectSchema [js ''code'', js ''message''] False
            [(js ''code'', anyString), (js ''message'', anyString)])])"

definition healthSchema :: schema where
  "healthSchema =
     ObjectSchema (map js [''name'', ''state'', ''consecutiveFailures'', ''retryAfterMs'']) False
       [(js ''name'', anyString), (js ''state'', enumString [''closed'', ''open'', ''half-open'']),
        (js ''consecutiveFailures'', NumberSchema True (Some 0)),
        (js ''retryAfterMs'', NumberSchema False (Some 0))]"

definition providersSchema :: schema where
  "providersSchema =
     ObjectSchema [js ''scope'', js ''providers''] False
       [(js ''scope'', enumString [''process'']), (js ''providers'', ArraySchema 0 healthSchema)]"

subsection \<open>Values\<close>

text \<open>The body of a chat request, read as the record the handlers use.\<close>

definition role_of :: "json option \<Rightarrow> ChatRole option" where
  "role_of v =
     (if v = Some (JStr (js ''system'')) then Some SystemRole
      else if v = Some (JStr (js ''user'')) then Some UserRole
      else if v = Some (JStr (js ''assistant'')) then Some AssistantRole else None)"

definition message_of_json :: "json \<Rightarrow> ChatMessage option" where
  "message_of_json v =
     (case (role_of (jprop v ''role''), jprop v ''content'') of
        (Some r, Some (JStr c)) \<Rightarrow> Some \<lparr>role = r, content = c\<rparr> | _ \<Rightarrow> None)"

definition request_of_json :: "json \<Rightarrow> ChatRequest option" where
  "request_of_json v =
     (case (jprop v ''model'', jprop v ''messages'') of
        (Some (JStr m), Some (JArr vs)) \<Rightarrow>
          map_option (\<lambda>ms. \<lparr>model = m, messages = ms\<rparr>) (those (map message_of_json vs))
      | _ \<Rightarrow> None)"

fun status_name :: "JobStatusName \<Rightarrow> string" where
  "status_name JQueued = ''queued''"
| "status_name JActive = ''active''"
| "status_name JRetrying = ''retrying''"
| "status_name JCompleted = ''completed''"
| "status_name JFailed = ''failed''"

definition json_of_receipt :: "JobReceipt \<Rightarrow> json" where
  "json_of_receipt r = JObj [(js ''id'', JStr (receiptId r)), (js ''requestId'', JStr (receiptRequestId r))]"

definition json_of_status :: "JobStatus \<Rightarrow> json" where
  "json_of_status s =
     JObj ([(js ''id'', JStr (receiptId s)), (js ''requestId'', JStr (receiptRequestId s)),
            (js ''status'', JStr (js (status_name (jobStatus s)))),
            (js ''attemptsMade'', JNum (of_int (attemptsMade s)))] @
           (case jobResponse s of None \<Rightarrow> [] | Some v \<Rightarrow> [(js ''response'', v)]) @
           (case jobError s of
              None \<Rightarrow> []
            | Some (c, m) \<Rightarrow> [(js ''error'', JObj [(js ''code'', JStr (js (code_name c))), (js ''message'', JStr (js m))])]))"

fun state_name :: "CircuitState \<Rightarrow> string" where
  "state_name Closed = ''closed''"
| "state_name Open = ''open''"
| "state_name HalfOpen = ''half-open''"

definition json_of_health :: "jstring \<times> CircuitSnapshot \<Rightarrow> json" where
  "json_of_health p =
     JObj [(js ''name'', JStr (fst p)), (js ''state'', JStr (js (state_name (snapState (snd p))))),
           (js ''consecutiveFailures'', JNum (of_int (snapFailures (snd p)))),
           (js ''retryAfterMs'', JNum (retryAfterMs (snd p)))]"

text \<open>The handler of \<open>/v1/providers\<close>.\<close>

definition providersReply :: "(jstring \<times> CircuitSnapshot) list \<Rightarrow> json" where
  "providersReply ps =
     JObj [(js ''scope'', JStr (js ''process'')), (js ''providers'', JArr (map json_of_health ps))]"

section \<open>Lemmas\<close>

lemma code_points_pos [simp]: "Suc 0 \<le> code_points s \<longleftrightarrow> s \<noteq> []"
  by (induction s rule: code_points.induct) auto

lemma code_points_le: "code_points s \<le> length s"
  by (induction s rule: code_points.induct) auto

lemma not_surrogate: "\<not> is_high u \<Longrightarrow> code_points (u # us) = Suc (code_points us)"
  by (cases us) simp_all

lemma code_points_bmp: "list_all (\<lambda>u. \<not> is_high u) s \<Longrightarrow> code_points s = length s"
  by (induction s) (simp_all add: not_surrogate)

lemma string_ok_any [simp]: "string_ok 0 None None None s"
  by (simp add: string_ok_def)

lemma string_ok_nonempty [simp]: "string_ok (Suc 0) None None None s \<longleftrightarrow> s \<noteq> []"
  by (simp add: string_ok_def)

lemma string_ok_enum [simp]: "string_ok 0 None None (Some vs) s \<longleftrightarrow> s \<in> set vs"
  by (simp add: string_ok_def)

lemmas schema_simps = anyString_def enumString_def receiptProperties_def

subsection \<open>Chat requests\<close>

lemma role_of_json_of_role [simp]: "role_of (Some (json_of_role r)) = Some r"
  by (cases r) (simp_all add: role_of_def)

lemma role_of_enum:
  assumes "s \<in> set (map js [''system'', ''user'', ''assistant''])"
  obtains r where "role_of (Some (JStr s)) = Some r" "JStr s = json_of_role r"
proof -
  have "\<exists>r. JStr s = json_of_role r" using assms by simp (metis json_of_role.simps)
  then show ?thesis using that by (metis role_of_json_of_role)
qed

text \<open>An object with two known properties and no other is the object in the order of the source.\<close>

lemma two_properties_same:
  assumes "map_of kvs a = Some x" and "map_of kvs b = Some y" and "list_all (\<lambda>(k, _). k \<in> {a, b}) kvs"
    and "a \<noteq> b" and "same_value x x'" and "same_value y y'"
  shows "same_value (JObj kvs) (JObj [(a, x'), (b, y')])"
proof (rule same_obj)
  fix k
  have "map_of kvs k = None" if "k \<noteq> a" "k \<noteq> b"
    using assms(3) that by (auto simp: map_of_eq_None_iff list_all_iff)
  then show "rel_option same_value (map_of kvs k) (map_of [(a, x'), (b, y')] k)"
    using assms(1,2,4,5,6) by (cases "k = a"; cases "k = b") auto
qed

lemma conforms_message:
  assumes "conforms messageSchema v"
  obtains m where "message_of_json v = Some m" "same_value v (json_of_message m)" "content m \<noteq> []"
proof -
  obtain kvs where v: "v = JObj kvs" using assms by (cases v) (auto simp: messageSchema_def)
  obtain x y where x: "map_of kvs (js ''role'') = Some x" and y: "map_of kvs (js ''content'') = Some y"
    using assms by (auto simp: messageSchema_def v)
  have "conforms (enumString [''system'', ''user'', ''assistant'']) x" "conforms (StringSchema 1 None None None) y"
    "list_all (\<lambda>(k, _). k \<in> {js ''role'', js ''content''}) kvs"
    using assms x y by (simp_all add: messageSchema_def v)
  then obtain s c where s: "x = JStr s" "s \<in> set (map js [''system'', ''user'', ''assistant''])"
    and c: "y = JStr c" "c \<noteq> []"
    by (cases x; cases y) (auto simp: enumString_def)
  from role_of_enum [OF s(2)] obtain r where r: "role_of (Some x) = Some r" "x = json_of_role r"
    unfolding s(1) by blast
  have "same_value x x" "same_value y y" by (simp_all add: s c same_value.intros)
  then have "same_value v (json_of_message \<lparr>role = r, content = c\<rparr>)"
    unfolding v json_of_message_def using x y r c \<open>list_all _ kvs\<close>
    by (auto intro!: two_properties_same)
  with that [of "\<lparr>role = r, content = c\<rparr>"] show ?thesis
    using x y r c by (simp add: message_of_json_def v)
qed

lemma conforms_messages:
  assumes "list_all (conforms messageSchema) vs"
  obtains ms where "those (map message_of_json vs) = Some ms" "list_all2 same_value vs (map json_of_message ms)"
    "list_all (\<lambda>m. content m \<noteq> []) ms"
  using assms
proof (induction vs arbitrary: thesis)
  case (Cons v vs)
  then obtain ms where "those (map message_of_json vs) = Some ms"
    "list_all2 same_value vs (map json_of_message ms)" "list_all (\<lambda>m. content m \<noteq> []) ms"
    by auto
  moreover obtain m where "message_of_json v = Some m" "same_value v (json_of_message m)" "content m \<noteq> []"
    using Cons.prems(2) by (auto elim: conforms_message)
  ultimately show ?case using Cons.prems(1) [of "m # ms"] by simp
qed simp

lemma message_of_json_of_message [simp]: "message_of_json (json_of_message m) = Some m"
  by (cases m) (simp add: message_of_json_def json_of_message_def)

lemma those_messages [simp]: "those (map message_of_json (map json_of_message ms)) = Some ms"
  by (induction ms) simp_all

lemma conforms_role [simp]: "conforms (enumString [''system'', ''user'', ''assistant'']) (json_of_role r)"
  by (cases r) (simp_all add: enumString_def)

lemma conforms_json_of_message: "conforms messageSchema (json_of_message m) \<longleftrightarrow> content m \<noteq> []"
  by (simp add: messageSchema_def json_of_message_def)

lemma conforms_request:
  assumes "conforms chatRequestSchema v"
  obtains req where "request_of_json v = Some req" "same_value v (json_of_request req)"
    "model req \<noteq> []" "messages req \<noteq> []" "list_all (\<lambda>m. content m \<noteq> []) (messages req)"
proof -
  obtain kvs where v: "v = JObj kvs" using assms by (cases v) (auto simp: chatRequestSchema_def)
  obtain x y where x: "map_of kvs (js ''model'') = Some x" and y: "map_of kvs (js ''messages'') = Some y"
    using assms by (auto simp: chatRequestSchema_def v)
  have *: "conforms (StringSchema 1 None None None) x" "conforms (ArraySchema 1 messageSchema) y"
    "list_all (\<lambda>(k, _). k \<in> {js ''model'', js ''messages''}) kvs"
    using assms x y by (simp_all add: chatRequestSchema_def v)
  obtain m where m: "x = JStr m" "m \<noteq> []" using *(1) by (cases x) auto
  obtain vs where vs: "y = JArr vs" "vs \<noteq> []" "list_all (conforms messageSchema) vs"
    using *(2) by (cases y) (auto simp: Suc_le_eq)
  from conforms_messages [OF vs(3)] obtain ms where ms: "those (map message_of_json vs) = Some ms"
    "list_all2 same_value vs (map json_of_message ms)" "list_all (\<lambda>m. content m \<noteq> []) ms" .
  let ?req = "\<lparr>model = m, messages = ms\<rparr>"
  have "same_value x (JStr m)" "same_value y (JArr (map json_of_message ms))"
    using m(1) vs(1) ms(2) by (auto intro: same_value.intros)
  then have "same_value v (json_of_request ?req)"
    unfolding v json_of_request_def using x y *(3) by (auto intro!: two_properties_same)
  moreover have "request_of_json v = Some ?req"
    using x y m(1) vs(1) ms(1) by (simp add: request_of_json_def v)
  moreover have "ms \<noteq> []" using vs(2) ms(2) by auto
  ultimately show ?thesis using that [of ?req] m(2) ms(3) by simp
qed

subsection \<open>Replies\<close>

lemma conforms_response: "conforms chatResponseSchema (json_of_response r)"
  by (simp add: chatResponseSchema_def json_of_response_def schema_simps)

lemma conforms_receipt: "conforms receiptSchema (json_of_receipt r)"
  by (simp add: receiptSchema_def json_of_receipt_def schema_simps)

lemma conforms_status:
  assumes "\<And>v. jobResponse s = Some v \<Longrightarrow> conforms chatResponseSchema v"
  shows "conforms jobStatusSchema (json_of_status s)"
proof -
  have "js (status_name st) \<in> set (map js [''queued'', ''active'', ''retrying'', ''completed'', ''failed''])" for st
    by (cases st) simp_all
  then show ?thesis using assms
    by (cases "jobResponse s"; cases "jobError s")
      (auto simp: jobStatusSchema_def json_of_status_def schema_simps simp del: set_map)
qed

lemma snapshot_bounds:
  assumes "breaker_wf b"
  shows "0 \<le> snapFailures (snapshot now b)" and "0 \<le> retryAfterMs (snapshot now b)"
  using assms by (simp_all add: snapshot_def breaker_wf_def)

lemma conforms_health:
  assumes "0 \<le> snapFailures (snd p)" and "0 \<le> retryAfterMs (snd p)"
  shows "conforms healthSchema (json_of_health p)"
  using assms by (cases "snapState (snd p)") (simp_all add: healthSchema_def json_of_health_def schema_simps)

lemma conforms_providers:
  assumes "\<And>p. p \<in> set ps \<Longrightarrow> 0 \<le> snapFailures (snd p) \<and> 0 \<le> retryAfterMs (snd p)"
  shows "conforms providersSchema (providersReply ps)"
proof -
  have "list_all (conforms healthSchema) (map json_of_health ps)"
    using assms conforms_health unfolding list_all_iff by auto
  then show ?thesis by (simp add: providersSchema_def providersReply_def enumString_def)
qed

lemma router_snapshot_bounds:
  assumes "fresh_breakers bs" and "p \<in> set (routerSnapshot r now (run (router_step r) (new_router bs) evs))"
  shows "0 \<le> snapFailures (snd p) \<and> 0 \<le> retryAfterMs (snd p)"
proof -
  let ?s = "run (router_step r) (new_router bs) evs"
  have "breaker_wf (circuits ?s t)" for t
    using breaker_sys.reachable_inv [OF circuit_view_init [OF assms(1)] circuit_view_run, of t r evs]
    by (auto simp: circuit_view_def dest: breaker_invD(1))
  with assms(2) snapshot_bounds show ?thesis by (auto simp: routerSnapshot_def split: if_splits)
qed

section \<open>Properties\<close>

text \<open>
  C39: the schema admits exactly the chat requests. A body that conforms to it, with its
  properties in any order, is one complete chat request: a model, at least one message, every
  role known and no content empty; every such request conforms in the order the program prints
  it, and is read back as itself.
\<close>

theorem request_schema_exact:
  "(conforms chatRequestSchema v \<longrightarrow>
     (\<exists>req. request_of_json v = Some req \<and> same_value v (json_of_request req) \<and>
        model req \<noteq> [] \<and> messages req \<noteq> [] \<and> (\<forall>m \<in> set (messages req). content m \<noteq> []))) \<and>
   (conforms chatRequestSchema (json_of_request req) \<longleftrightarrow>
      model req \<noteq> [] \<and> messages req \<noteq> [] \<and> (\<forall>m \<in> set (messages req). content m \<noteq> [])) \<and>
   request_of_json (json_of_request req) = Some req"
proof -
  have "conforms chatRequestSchema v \<Longrightarrow> \<exists>req. request_of_json v = Some req \<and> same_value v (json_of_request req) \<and>
        model req \<noteq> [] \<and> messages req \<noteq> [] \<and> (\<forall>m \<in> set (messages req). content m \<noteq> [])"
    by (elim conforms_request) (auto simp: list_all_iff)
  moreover have "conforms chatRequestSchema (json_of_request req) \<longleftrightarrow>
      model req \<noteq> [] \<and> messages req \<noteq> [] \<and> (\<forall>m \<in> set (messages req). content m \<noteq> [])"
    by (auto simp: chatRequestSchema_def json_of_request_def list_all_iff conforms_json_of_message Suc_le_eq)
  moreover have "request_of_json (json_of_request req) = Some req"
    by (simp add: request_of_json_def json_of_request_def del: map_map)
  ultimately show ?thesis by blast
qed

lemma request_schema_exact_witness:
  "\<exists>req. request_of_json (JObj [(js ''messages'', JArr [json_of_message \<lparr>role = UserRole, content = js ''hi''\<rparr>]),
       (js ''model'', JStr (js ''m''))]) = Some req \<and> messages req \<noteq> []"
proof -
  have "conforms chatRequestSchema (JObj [(js ''messages'', JArr [json_of_message \<lparr>role = UserRole, content = js ''hi''\<rparr>]),
       (js ''model'', JStr (js ''m''))])"
    by (simp add: chatRequestSchema_def conforms_json_of_message)
  with request_schema_exact show ?thesis by blast
qed

text \<open>
  the handlers answer what they publish. Every receipt conforms to the schema of the
  submission route; the status of a job conforms to the schema of the polling route wherever the
  stored responses are chat responses; and after any interleaving of routing passes the report
  on the providers conforms to its schema, with no negative count or waiting time.
\<close>

theorem replies_conform:
  assumes "fresh_breakers bs"
    and "\<And>row v. row \<in> set t \<Longrightarrow> response row = Some v \<Longrightarrow> \<exists>a. v = json_of_response a"
    and "queueGetJob opts jobId ownerId t = Inr st"
  shows "conforms receiptSchema (json_of_receipt receipt) \<and> conforms jobStatusSchema (json_of_status st) \<and>
    conforms providersSchema (providersReply (routerSnapshot r now (run (router_step r) (new_router bs) evs)))"
proof -
  have g: "getJob opts jobId ownerId t = Inr st"
    using assms(3) by (cases "getJob opts jobId ownerId t") (simp_all add: queueGetJob_def)
  then obtain row where find: "find (\<lambda>r. job_id r = jobId \<and> owner_id r = ownerId \<and> queue_name r = optName opts) t = Some row"
    and row: "jobResponse st = (if status row = JCompleted then response row else None)"
    unfolding getJob_def by (auto split: option.splits)
  have "row \<in> set t" using find by (auto simp: find_Some_iff)
  have "conforms jobStatusSchema (json_of_status st)"
  proof (rule conforms_status)
    fix v assume "jobResponse st = Some v"
    with row have "response row = Some v" by (auto split: if_splits)
    with assms(2) [OF \<open>row \<in> set t\<close>] show "conforms chatResponseSchema v" using conforms_response by blast
  qed
  moreover have "conforms providersSchema (providersReply (routerSnapshot r now (run (router_step r) (new_router bs) evs)))"
    using router_snapshot_bounds [OF assms(1)] by (rule conforms_providers)
  ultimately show ?thesis using conforms_receipt by blast
qed

lemma replies_conform_witness:
  "\<exists>st. queueGetJob demo_opts (js ''job-1'') (owner_id demo_job) [demo_job] = Inr st \<and>
    conforms jobStatusSchema (json_of_status st) \<and>
    conforms providersSchema (providersReply (routerSnapshot demo_router 9 (run (router_step demo_router)
      (new_router (\<lambda>_. demo_breaker)) demo_events)))"
proof -
  obtain st where st: "queueGetJob demo_opts (js ''job-1'') (owner_id demo_job) [demo_job] = Inr st"
    by (simp add: queueGetJob_def getJob_def demo_job_def demo_opts_def demo_sub_def new_row_def)
  have "conforms jobStatusSchema (json_of_status st) \<and>
    conforms providersSchema (providersReply (routerSnapshot demo_router 9 (run (router_step demo_router)
      (new_router (\<lambda>_. demo_breaker)) demo_events)))"
    using replies_conform [OF demo_fresh _ st] by (simp add: demo_job_def new_row_def)
  with st show ?thesis by blast
qed

end
