(* ===== verification/Token_Bucket.thy ===== *)
theory Token_Bucket
  imports App_Errors
begin

text \<open>
  The distributed rate limiter of \<open>src/rate-limit/redis-token-bucket.ts\<close>: the Lua script
  that Redis evaluates atomically per request, and \<open>consume\<close> around it. Of Redis the model
  has what the script uses: the server clock, a hash with an expiry per key (a key is gone
  once the clock has passed its expiry), and whether EXPIRE accepts a time to live, which is
  the parameter \<open>expireOk\<close>; a command that fails aborts the script and keeps the writes made
  before it. Lua numbers are exact rationals.
\<close>

section \<open>Definitions\<close>

record RateLimitPolicy =
  capacity :: number
  refillPerSecond :: number

record RateLimitDecision =
  allowed :: bool
  remaining :: number
  decisionRetryAfterSeconds :: number

record bucket =
  tokens :: rat
  updated_at_ms :: int
  expires_at_ms :: "int option"

type_synonym redis_store = "jstring \<rightharpoonup> bucket"

text \<open>\<open>tonumber(redis_time[1]) * 1000 + math.floor(tonumber(redis_time[2]) / 1000)\<close>\<close>

definition redis_now_ms :: "int \<Rightarrow> int \<Rightarrow> int" where
  "redis_now_ms secs usecs = secs * 1000 + usecs div 1000"

definition live_bucket :: "int \<Rightarrow> bucket option \<Rightarrow> bucket option" where
  "live_bucket now st =
     (case st of
        None \<Rightarrow> None
      | Some b \<Rightarrow> (case expires_at_ms b of
                    None \<Rightarrow> Some b
                  | Some x \<Rightarrow> if x < now then None else Some b))"

text \<open>The tokens after the refill: a missing key counts as a full bucket.\<close>

definition refilled :: "int \<Rightarrow> rat \<Rightarrow> int \<Rightarrow> bucket option \<Rightarrow> rat" where
  "refilled cap refill now st =
     (let toks = (case st of None \<Rightarrow> of_int cap | Some b \<Rightarrow> tokens b);
          updated = (case st of None \<Rightarrow> now | Some b \<Rightarrow> updated_at_ms b);
          elapsed = max 0 (now - updated)
      in min (of_int cap) (toks + (of_int elapsed / 1000) * refill))"

definition ttl_seconds :: "int \<Rightarrow> rat \<Rightarrow> int" where
  "ttl_seconds cap refill = max 1 \<lceil>(of_int cap / refill) * 2\<rceil>"

definition tokenBucketScript ::
  "(int \<Rightarrow> bool) \<Rightarrow> int \<Rightarrow> rat \<Rightarrow> int \<Rightarrow> bucket option \<Rightarrow> bucket \<times> (int \<times> int \<times> int) option" where
  "tokenBucketScript expireOk cap refill now st =
     (let cost = 1;
          cur = live_bucket now st;
          toks = refilled cap refill now cur;
          ok = toks \<ge> cost;
          toks' = (if ok then toks - cost else toks);
          retry = (if ok then 0 else max 1 \<lceil>(cost - toks) / refill\<rceil>);
          hset = \<lparr>tokens = toks', updated_at_ms = now,
                  expires_at_ms = (case cur of None \<Rightarrow> None | Some b \<Rightarrow> expires_at_ms b)\<rparr>;
          ttl = ttl_seconds cap refill
      in if expireOk ttl
         then (hset\<lparr>expires_at_ms := Some (now + ttl * 1000)\<rparr>,
               Some (if ok then 1 else 0, \<lfloor>toks'\<rfloor>, retry))
         else (hset, None))"

definition validatePolicy :: "RateLimitPolicy \<Rightarrow> error + unit" where
  "validatePolicy p =
     (if \<not> number_isInteger (capacity p) \<or> number_less (capacity p) (Num 1) \<or>
         \<not> number_isFinite (refillPerSecond p) \<or> number_le (refillPerSecond p) (Num 0)
      then Inl (App RateLimiterUnavailableError) else Inr ())"

text \<open>What the client sees of \<open>redis.eval\<close>: a reply, or a rejection before or after it ran.\<close>

datatype eval_outcome = Replied | NotRun | ReplyLost

definition isTokenBucketResult :: "number list option \<Rightarrow> bool" where
  "isTokenBucketResult v =
     (case v of None \<Rightarrow> False | Some xs \<Rightarrow> length xs = 3 \<and> list_all number_isFinite xs)"

definition bucket_key :: "jstring \<Rightarrow> jstring" where
  "bucket_key subject = js ''modelmux:rate-limit:{'' @ subject @ js ''}''"

definition evalScript ::
  "(int \<Rightarrow> bool) \<Rightarrow> eval_outcome \<Rightarrow> int \<Rightarrow> int \<Rightarrow> jstring \<Rightarrow> int \<Rightarrow> rat \<Rightarrow> redis_store \<Rightarrow>
   redis_store \<times> number list option" where
  "evalScript expireOk out secs usecs key cap refill store =
     (if out = NotRun then (store, None)
      else case tokenBucketScript expireOk cap refill (redis_now_ms secs usecs) (store key) of
             (b, reply) \<Rightarrow>
               (store(key \<mapsto> b),
                case reply of
                  None \<Rightarrow> None
                | Some (a, rem, retry) \<Rightarrow>
                    if out = Replied then Some [Num (of_int a), Num (of_int rem), Num (of_int retry)]
                    else None))"

definition consume ::
  "(int \<Rightarrow> bool) \<Rightarrow> eval_outcome \<Rightarrow> int \<Rightarrow> int \<Rightarrow> jstring \<Rightarrow> RateLimitPolicy \<Rightarrow> redis_store \<Rightarrow>
   redis_store \<times> (error + RateLimitDecision)" where
  "consume expireOk out secs usecs subject policy store =
     (case validatePolicy policy of
        Inl e \<Rightarrow> (store, Inl e)
      | Inr _ \<Rightarrow>
          (case evalScript expireOk out secs usecs (bucket_key subject)
                  (int_of_number (capacity policy)) (rat_of_number (refillPerSecond policy)) store of
             (store', result) \<Rightarrow>
               (store',
                if \<not> isTokenBucketResult result then Inl (App RateLimiterUnavailableError)
                else case result of
                       Some [a, rem, retry] \<Rightarrow>
                         Inr \<lparr>allowed = (a = Num 1), remaining = rem,
                              decisionRetryAfterSeconds = retry\<rparr>
                     | _ \<Rightarrow> Inl (App RateLimiterUnavailableError))))"

subsection \<open>A sequence of requests for one key\<close>

text \<open>The requests reach Redis at the given times; the result says which were allowed.\<close>

fun bucket_requests ::
  "int \<Rightarrow> rat \<Rightarrow> bucket option \<Rightarrow> int list \<Rightarrow> bucket option \<times> bool list" where
  "bucket_requests cap refill st [] = (st, [])"
| "bucket_requests cap refill st (now # ts) =
     (case tokenBucketScript (\<lambda>_. True) cap refill now st of
        (b, reply) \<Rightarrow>
          (case bucket_requests cap refill (Some b) ts of
             (st', oks) \<Rightarrow> (st', (case reply of Some (a, _, _) \<Rightarrow> a = 1 | None \<Rightarrow> False) # oks)))"

definition allowed_count :: "bool list \<Rightarrow> nat" where
  "allowed_count oks = length (filter id oks)"

subsection \<open>Invariant\<close>

text \<open>
  A stored bucket holds between 0 and \<open>cap\<close> tokens and lives at least until it would have
  been full again.
\<close>

definition bucket_wf :: "int \<Rightarrow> rat \<Rightarrow> bucket \<Rightarrow> bool" where
  "bucket_wf cap refill b \<longleftrightarrow>
     0 \<le> tokens b \<and> tokens b \<le> of_int cap \<and>
     (\<forall>x. expires_at_ms b = Some x \<longrightarrow>
        of_int cap \<le> of_int (x - updated_at_ms b) / 1000 * refill)"

section \<open>Lemmas\<close>

lemma ttl_seconds_covers:
  assumes "cap \<ge> 1" and "refill > 0"
  shows "2 * of_int cap \<le> of_int (ttl_seconds cap refill) * refill"
proof -
  have "(of_int cap / refill) * 2 \<le> of_int \<lceil>(of_int cap / refill) * 2\<rceil>" by (rule le_of_int_ceiling)
  also have "\<dots> \<le> of_int (ttl_seconds cap refill)" by (simp add: ttl_seconds_def)
  finally show ?thesis using assms by (simp add: field_simps)
qed

lemma refilled_bounds:
  assumes "cap \<ge> 1" and "refill > 0" and "\<And>b. st = Some b \<Longrightarrow> tokens b \<ge> 0"
  shows "0 \<le> refilled cap refill now st" and "refilled cap refill now st \<le> of_int cap"
  using assms by (auto simp: refilled_def Let_def split: option.split)

lemma tokenBucketScript_wf:
  assumes "cap \<ge> 1" and "refill > 0" and "\<And>b. st = Some b \<Longrightarrow> tokens b \<ge> 0"
    and "tokenBucketScript (\<lambda>_. True) cap refill now st = (b, reply)"
  shows "bucket_wf cap refill b" and "updated_at_ms b = now"
proof -
  let ?cur = "live_bucket now st"
  have "\<And>b. ?cur = Some b \<Longrightarrow> tokens b \<ge> 0"
    using assms(3) by (auto simp: live_bucket_def split: option.splits if_splits)
  note refilled_bounds [OF assms(1,2) this, of ?cur now]
  moreover have "2 * of_int cap \<le> of_int (ttl_seconds cap refill) * refill"
    using assms(1,2) by (rule ttl_seconds_covers)
  ultimately show "bucket_wf cap refill b" and "updated_at_ms b = now"
    using assms(1,4) by (auto simp: bucket_wf_def tokenBucketScript_def Let_def)
qed

text \<open>The outcome of one request in terms of the refilled level.\<close>

abbreviation level :: "int \<Rightarrow> rat \<Rightarrow> int \<Rightarrow> bucket option \<Rightarrow> rat" where
  "level cap refill now st \<equiv> refilled cap refill now (live_bucket now st)"

lemma script_allowed:
  assumes "1 \<le> level cap refill now st"
  shows "tokenBucketScript (\<lambda>_. True) cap refill now st =
    (\<lparr>tokens = level cap refill now st - 1, updated_at_ms = now,
      expires_at_ms = Some (now + ttl_seconds cap refill * 1000)\<rparr>,
     Some (1, \<lfloor>level cap refill now st - 1\<rfloor>, 0))"
  using assms by (simp add: tokenBucketScript_def Let_def)

lemma script_denied:
  assumes "level cap refill now st < 1"
  shows "tokenBucketScript (\<lambda>_. True) cap refill now st =
    (\<lparr>tokens = level cap refill now st, updated_at_ms = now,
      expires_at_ms = Some (now + ttl_seconds cap refill * 1000)\<rparr>,
     Some (0, \<lfloor>level cap refill now st\<rfloor>, max 1 \<lceil>(1 - level cap refill now st) / refill\<rceil>))"
  using assms by (simp add: tokenBucketScript_def Let_def)

lemma script_reply:
  "snd (tokenBucketScript expireOk cap refill now st) =
     (if expireOk (ttl_seconds cap refill) then
        Some (if 1 \<le> level cap refill now st then (1, \<lfloor>level cap refill now st - 1\<rfloor>, 0)
              else (0, \<lfloor>level cap refill now st\<rfloor>, max 1 \<lceil>(1 - level cap refill now st) / refill\<rceil>))
      else None)"
  by (simp add: tokenBucketScript_def Let_def)

text \<open>An expired bucket would have been full: losing it changes nothing.\<close>

lemma level_expired:
  assumes "cap \<ge> 1" and "refill > 0" and "bucket_wf cap refill b"
  shows "level cap refill now (Some b) = refilled cap refill now (Some b)"
proof (cases "\<exists>x. expires_at_ms b = Some x \<and> x < now")
  case True
  then obtain x where x: "expires_at_ms b = Some x" "x < now" by blast
  have "of_int cap \<le> of_int (x - updated_at_ms b) / 1000 * refill"
    using assms(3) x(1) by (simp add: bucket_wf_def)
  also have "\<dots> \<le> of_int (max 0 (now - updated_at_ms b)) / 1000 * refill"
    using x(2) assms(2) by (intro mult_right_mono divide_right_mono) (simp_all add: less_imp_le)
  finally show ?thesis
    using x assms(3) by (simp add: live_bucket_def refilled_def Let_def bucket_wf_def)
next
  case False
  then show ?thesis by (auto simp: live_bucket_def split: option.split)
qed

lemma level_le_refill:
  assumes "cap \<ge> 1" and "refill > 0" and "bucket_wf cap refill b" and "updated_at_ms b \<le> now"
  shows "level cap refill now (Some b) \<le> tokens b + of_int (now - updated_at_ms b) / 1000 * refill"
  using assms by (simp only: level_expired) (simp add: refilled_def Let_def)

lemma level_le_capacity: "level cap refill now st \<le> of_int cap"
  by (simp add: refilled_def Let_def)

subsection \<open>Budget of a sequence of requests\<close>

lemma script_budget:
  assumes "cap \<ge> 1" and "refill > 0"
    and "tokenBucketScript (\<lambda>_. True) cap refill now st = (b, reply)"
  shows "tokens b + (case reply of Some (a, _, _) \<Rightarrow> if a = 1 then 1 else 0 | None \<Rightarrow> 0)
    = level cap refill now st"
  using assms
  by (cases "1 \<le> level cap refill now st") (auto simp: script_allowed script_denied not_le)

lemma allowed_count_Cons [simp]:
  "allowed_count [] = 0"
  "allowed_count (a # oks) = (if a then 1 else 0) + allowed_count oks"
  by (simp_all add: allowed_count_def)

lemma bucket_requests_budget:
  assumes "cap \<ge> 1" and "refill > 0" and "bucket_wf cap refill b"
    and "sorted (updated_at_ms b # ts)"
    and "bucket_requests cap refill (Some b) ts = (st', oks)"
  shows "of_nat (allowed_count oks)
    \<le> tokens b + of_int (last (updated_at_ms b # ts) - updated_at_ms b) / 1000 * refill"
  using assms(3-5)
proof (induction ts arbitrary: b oks st')
  case Nil
  then show ?case by (simp add: bucket_wf_def)
next
  case (Cons now ts)
  obtain b1 reply where script: "tokenBucketScript (\<lambda>_. True) cap refill now (Some b) = (b1, reply)"
    by fastforce
  obtain st2 oks1 where rest: "bucket_requests cap refill (Some b1) ts = (st2, oks1)" by fastforce
  have wf: "bucket_wf cap refill b1" and upd: "updated_at_ms b1 = now"
    using tokenBucketScript_wf [OF assms(1,2) _ script] Cons.prems(1)
    by (auto simp: bucket_wf_def)
  let ?a = "case reply of Some (a, _, _) \<Rightarrow> a = 1 | None \<Rightarrow> False"
  have "of_nat (allowed_count oks1)
      \<le> tokens b1 + of_int (last (now # ts) - now) / 1000 * refill"
    using Cons.IH [OF wf _ rest] Cons.prems(2) upd by simp
  moreover have "tokens b1 + (if ?a then 1 else 0)
      \<le> tokens b + of_int (now - updated_at_ms b) / 1000 * refill"
    using script_budget [OF assms(1,2) script] level_le_refill [OF assms(1,2) Cons.prems(1), of now]
      Cons.prems(2) by (auto split: option.splits prod.splits)
  moreover have "oks = ?a # oks1" using Cons.prems(3) script rest by simp
  moreover have "of_int (last (updated_at_ms b # now # ts) - updated_at_ms b) / 1000 * refill
      = of_int (now - updated_at_ms b) / 1000 * refill + of_int (last (now # ts) - now) / 1000 * refill"
    by (simp add: algebra_simps diff_divide_distrib)
  moreover have "of_nat (allowed_count (x # oks1)) = (if x then 1 else 0) + (of_nat (allowed_count oks1) :: rat)"
    for x by simp
  ultimately show ?case by (simp only:)
qed

subsection \<open>Policies\<close>

lemma validatePolicy_ok:
  assumes "validatePolicy p = Inr ()"
  shows "int_of_number (capacity p) \<ge> 1" and "rat_of_number (refillPerSecond p) > 0"
  using assms
  by (cases "capacity p"; cases "refillPerSecond p";
      auto simp: validatePolicy_def int_of_number_def is_int_rat_def split: if_splits)+

lemma bucket_key_eq [simp]: "bucket_key a = bucket_key b \<longleftrightarrow> a = b"
  by (simp add: bucket_key_def)

section \<open>Properties\<close>

text \<open>
  C8: the rate limit holds. Over any sequence of requests for one key at non-decreasing
  times, starting from a missing key or from a bucket the script stored, the number of
  allowed requests is at most the capacity plus what is refilled between the first and the
  last of them, keys that expire in between included.
\<close>

theorem bucket_rate_bound:
  assumes "cap \<ge> 1" and "refill > 0" and "sorted (t # ts)"
    and "st = None \<or> (\<exists>b. st = Some b \<and> bucket_wf cap refill b)"
  shows "of_nat (allowed_count (snd (bucket_requests cap refill st (t # ts))))
    \<le> of_int cap + of_int (last (t # ts) - t) / 1000 * refill"
proof -
  obtain b reply where script: "tokenBucketScript (\<lambda>_. True) cap refill t st = (b, reply)" by fastforce
  obtain st' oks where rest: "bucket_requests cap refill (Some b) ts = (st', oks)" by fastforce
  have wf: "bucket_wf cap refill b" and upd: "updated_at_ms b = t"
    using tokenBucketScript_wf [OF assms(1,2) _ script] assms(4) by (auto simp: bucket_wf_def)
  have "of_nat (allowed_count oks) \<le> tokens b + of_int (last (t # ts) - t) / 1000 * refill"
    using bucket_requests_budget [OF assms(1,2) wf _ rest] assms(3) upd by simp
  moreover have "tokens b + (case reply of Some (a, _, _) \<Rightarrow> if a = 1 then 1 else 0 | None \<Rightarrow> 0)
      \<le> of_int cap"
    using script_budget [OF assms(1,2) script] level_le_capacity [of cap refill t st] by simp
  ultimately show ?thesis
    using script rest by (auto split: option.splits)
qed

theorem bucket_rate_bound_witness:
  "of_nat (allowed_count (snd (bucket_requests 2 1 None [0, 0, 0, 1000]))) \<le> (3 :: rat)"
  using bucket_rate_bound [of 2 1 0 "[0, 0, 1000]" None] by simp

text \<open>
  the expiry of a key is invisible. A bucket the script stored answers every later
  request as the same bucket without an expiry would: by the time Redis drops the key, the
  bucket would have been full again.
\<close>

theorem bucket_expiry_invisible:
  assumes "cap \<ge> 1" and "refill > 0" and "bucket_wf cap refill b"
  shows "tokenBucketScript (\<lambda>_. True) cap refill now (Some b)
    = tokenBucketScript (\<lambda>_. True) cap refill now (Some (b\<lparr>expires_at_ms := None\<rparr>))"
proof -
  have "level cap refill now (Some (b\<lparr>expires_at_ms := None\<rparr>)) = level cap refill now (Some b)"
    using level_expired [OF assms]
    by (simp add: live_bucket_def refilled_def split: option.splits if_splits)
  then show ?thesis
    by (cases "1 \<le> level cap refill now (Some b)") (simp_all add: script_allowed script_denied not_le)
qed

theorem bucket_expiry_invisible_witness:
  "snd (tokenBucketScript (\<lambda>_. True) 2 1 5000
     (Some \<lparr>tokens = 0, updated_at_ms = 0, expires_at_ms = Some 4000\<rparr>)) = Some (1, 1, 0)"
  using bucket_expiry_invisible [of 2 1 "\<lparr>tokens = 0, updated_at_ms = 0, expires_at_ms = Some 4000\<rparr>" 5000]
  by (simp add: bucket_wf_def tokenBucketScript_def live_bucket_def refilled_def Let_def)



text \<open>
  C23: \<open>consume\<close> decides from the level of the caller's own bucket and otherwise fails closed.
  With a valid policy, a reply and an accepted expiry the request is allowed exactly when a
  whole token is left after the refill, and the remaining count reported lies between 0 and
  the capacity; in every other case the result is \<open>RateLimiterUnavailableError\<close>. In no case
  is the bucket of another subject touched.
\<close>

theorem consume_decision:
  assumes "\<And>b. store (bucket_key subject) = Some b \<Longrightarrow> tokens b \<ge> 0"
    and "cap = int_of_number (capacity policy)"
    and "refill = rat_of_number (refillPerSecond policy)"
    and "lv = level cap refill (redis_now_ms secs usecs) (store (bucket_key subject))"
    and "consume expireOk out secs usecs subject policy store = (store', result)"
  shows "(if validatePolicy policy = Inr () \<and> out = Replied \<and> expireOk (ttl_seconds cap refill)
          then \<exists>d rem. result = Inr d \<and> allowed d = (1 \<le> lv) \<and>
                 remaining d = Num (of_int rem) \<and> 0 \<le> rem \<and> rem \<le> cap
          else result = Inl (App RateLimiterUnavailableError)) \<and>
         (\<forall>other. other \<noteq> subject \<longrightarrow> store' (bucket_key other) = store (bucket_key other))"
proof (cases "validatePolicy policy = Inr ()")
  case False
  then have "validatePolicy policy = Inl (App RateLimiterUnavailableError)"
    by (auto simp: validatePolicy_def split: if_splits)
  with assms(5) show ?thesis by (auto simp: consume_def)
next
  case True
  note pol = validatePolicy_ok [OF True, folded assms(2,3)]
  have "\<And>b. live_bucket now (store (bucket_key subject)) = Some b \<Longrightarrow> tokens b \<ge> 0" for now
    using assms(1) by (auto simp: live_bucket_def split: option.splits if_splits)
  then have lv: "0 \<le> lv" "lv \<le> of_int cap"
    unfolding assms(4) using refilled_bounds [OF pol] by blast+
  obtain b reply where script:
    "tokenBucketScript expireOk cap refill (redis_now_ms secs usecs) (store (bucket_key subject)) = (b, reply)"
    by fastforce
  have reply: "reply = (if expireOk (ttl_seconds cap refill) then
        Some (if 1 \<le> lv then (1, \<lfloor>lv - 1\<rfloor>, 0) else (0, \<lfloor>lv\<rfloor>, max 1 \<lceil>(1 - lv) / refill\<rceil>))
      else None)"
    using script_reply [of expireOk cap refill "redis_now_ms secs usecs" "store (bucket_key subject)"]
      script assms(4) by simp
  have consume: "store' = (if out = NotRun then store else store(bucket_key subject \<mapsto> b))"
    "result = (case reply of None \<Rightarrow> Inl (App RateLimiterUnavailableError)
       | Some (a, rem, retry) \<Rightarrow> if out = Replied
           then Inr \<lparr>allowed = (a = 1), remaining = Num (of_int rem),
                     decisionRetryAfterSeconds = Num (of_int retry)\<rparr>
           else Inl (App RateLimiterUnavailableError))"
    using assms(5) True script
    by (cases out; auto simp: consume_def evalScript_def isTokenBucketResult_def assms(2,3)
        split: option.splits)+
  have "0 \<le> \<lfloor>lv\<rfloor>" "\<lfloor>lv\<rfloor> \<le> cap" "1 \<le> lv \<Longrightarrow> 0 \<le> \<lfloor>lv - 1\<rfloor>" "\<lfloor>lv - 1\<rfloor> \<le> cap"
    using lv by linarith+
  then show ?thesis using True unfolding consume reply
    by (cases "1 \<le> lv") (auto simp del: floor_diff_one)
qed

theorem consume_decision_witness:
  "\<exists>d rem. snd (consume (\<lambda>_. True) Replied 7 0 (js ''key'')
      \<lparr>capacity = Num 10, refillPerSecond = Num 1\<rparr> Map.empty) = Inr d \<and> allowed d \<and>
      remaining d = Num (of_int rem) \<and> 0 \<le> rem \<and> rem \<le> 10"
proof -
  obtain store' result where c: "consume (\<lambda>_. True) Replied 7 0 (js ''key'')
      \<lparr>capacity = Num 10, refillPerSecond = Num 1\<rparr> Map.empty = (store', result)" by fastforce
  from consume_decision [OF _ refl refl refl c] c show ?thesis
    by (auto simp: validatePolicy_def int_of_number_def live_bucket_def refilled_def)
qed

end
