(* ===== verification/Api_Keys.thy ===== *)
theory Api_Keys
  imports Token_Bucket Telemetry
begin

text \<open>
  Authentication and the guard of the protected routes: the bearer token and the key lookup
  of \<open>src/auth/api-keys.ts\<close>, the table lookup of \<open>src/auth/postgres-api-key-store.ts\<close>, and
  the \<open>onRequest\<close> hook of \<open>src/auth/guard.ts\<close>, which authenticates, consumes one token and
  sets the rate-limit headers. SHA-256 is a parameter (\<open>sha256\<close>, from a string to the hex
  digest of its UTF-8 bytes); the rate limiter the guard is given is an argument.
\<close>

section \<open>Definitions\<close>

record ApiKeyPrincipal =
  principalId :: jstring
  principalName :: jstring
  keyPrefix :: jstring
  rateLimit :: RateLimitPolicy

record ApiKeyRow =
  row_id :: jstring
  row_name :: jstring
  key_prefix :: jstring
  key_hash :: jstring
  rate_limit_capacity :: number
  rate_limit_refill_per_second :: number
  enabled :: bool

text \<open>\<open>/^Bearer\s+(\S+)$/i\<close>, with the captured token as the result.\<close>

definition parseBearerToken :: "jstring option \<Rightarrow> error + jstring" where
  "parseBearerToken header =
     (case header of
        None \<Rightarrow> Inl (App AuthenticationError)
      | Some h \<Rightarrow>
          (let rest = drop 6 h;
               space = takeWhile is_js_space rest;
               token = dropWhile is_js_space rest
           in if map ascii_lower (take 6 h) = js ''bearer'' \<and> space \<noteq> [] \<and> token \<noteq> [] \<and>
                 list_all (\<lambda>u. \<not> is_js_space u) token
              then Inr token else Inl (App AuthenticationError)))"

definition hashApiKey :: "(jstring \<Rightarrow> jstring) \<Rightarrow> jstring \<Rightarrow> jstring" where
  "hashApiKey sha256 rawApiKey = sha256 rawApiKey"

text \<open>
  The lookup in the table \<open>api_keys\<close>; \<open>dbFails\<close> says whether the query is rejected.
\<close>

definition findEnabledByHash ::
  "bool \<Rightarrow> ApiKeyRow list \<Rightarrow> jstring \<Rightarrow> error + ApiKeyPrincipal option" where
  "findEnabledByHash dbFails rows keyHash =
     (if dbFails then Inl (App ApiKeyStoreUnavailableError)
      else case find (\<lambda>r. key_hash r = keyHash \<and> enabled r) rows of
        None \<Rightarrow> Inr None
      | Some r \<Rightarrow>
          if \<not> number_isInteger (rate_limit_capacity r) \<or>
             number_less (rate_limit_capacity r) (Num 1) \<or>
             \<not> number_isFinite (rate_limit_refill_per_second r) \<or>
             number_le (rate_limit_refill_per_second r) (Num 0)
          then Inl (App ApiKeyStoreUnavailableError)
          else Inr (Some \<lparr>principalId = row_id r, principalName = row_name r,
                          keyPrefix = key_prefix r,
                          rateLimit = \<lparr>capacity = rate_limit_capacity r,
                                       refillPerSecond = rate_limit_refill_per_second r\<rparr>\<rparr>))"

definition authenticate ::
  "(jstring \<Rightarrow> jstring) \<Rightarrow> (jstring \<Rightarrow> error + ApiKeyPrincipal option) \<Rightarrow> jstring option \<Rightarrow>
   error + ApiKeyPrincipal" where
  "authenticate sha256 store header =
     (case parseBearerToken header of
        Inl e \<Rightarrow> Inl e
      | Inr rawApiKey \<Rightarrow>
          (case store (hashApiKey sha256 rawApiKey) of
             Inl e \<Rightarrow> Inl e
           | Inr None \<Rightarrow> Inl (App AuthenticationError)
           | Inr (Some apiKey) \<Rightarrow> Inr apiKey))"

text \<open>The two rate-limit headers the guard sets on the reply.\<close>

record RateLimitHeaders =
  x_ratelimit_limit :: number
  x_ratelimit_remaining :: number

record guard_result =
  guard_outcome :: "error + ApiKeyPrincipal"
  guard_headers :: "RateLimitHeaders option"
  guard_metrics :: "MetricEvent list"

text \<open>
  The \<open>onRequest\<close> hook. Its dependencies are arguments: the authenticator, and the limiter
  as a function of its own state.
\<close>

definition apiKeyGuard ::
  "(jstring option \<Rightarrow> error + ApiKeyPrincipal) \<Rightarrow>
   (jstring \<Rightarrow> RateLimitPolicy \<Rightarrow> 's \<Rightarrow> 's \<times> (error + RateLimitDecision)) \<Rightarrow>
   jstring option \<Rightarrow> 's \<Rightarrow> 's \<times> guard_result" where
  "apiKeyGuard authenticator limiter header s =
     (case authenticator header of
        Inl e \<Rightarrow> (s, \<lparr>guard_outcome = Inl e, guard_headers = None, guard_metrics = []\<rparr>)
      | Inr apiKey \<Rightarrow>
          (case limiter (principalId apiKey) (rateLimit apiKey) s of
             (s', Inl e) \<Rightarrow> (s', \<lparr>guard_outcome = Inl e, guard_headers = None, guard_metrics = []\<rparr>)
           | (s', Inr decision) \<Rightarrow>
               (let hs = Some \<lparr>x_ratelimit_limit = capacity (rateLimit apiKey),
                               x_ratelimit_remaining = remaining decision\<rparr>
                in if \<not> allowed decision then
                     (s', \<lparr>guard_outcome = Inl (App (RateLimitExceededError
                              (int_of_number (decisionRetryAfterSeconds decision)))),
                           guard_headers = hs, guard_metrics = [RateLimitRejection]\<rparr>)
                   else (s', \<lparr>guard_outcome = Inr apiKey, guard_headers = hs,
                              guard_metrics = []\<rparr>))))"

section \<open>Lemmas\<close>

subsection \<open>The bearer pattern\<close>

lemma takeWhile_dropWhile_split:
  assumes "list_all P xs" and "list_all (\<lambda>x. \<not> P x) ys" and "ys \<noteq> []"
  shows "takeWhile P (xs @ ys) = xs" and "dropWhile P (xs @ ys) = ys"
proof -
  have "takeWhile P ys = []" "dropWhile P ys = ys" using assms(2,3) by (cases ys; simp)+
  moreover have "\<forall>x \<in> set xs. P x" using assms(1) by (simp add: list_all_iff)
  ultimately show "takeWhile P (xs @ ys) = xs" and "dropWhile P (xs @ ys) = ys" by simp_all
qed

lemma parseBearerToken_match:
  assumes "length scheme = 6" and "map ascii_lower scheme = js ''bearer''"
    and "sp \<noteq> []" and "list_all is_js_space sp"
    and "token \<noteq> []" and "list_all (\<lambda>u. \<not> is_js_space u) token"
  shows "parseBearerToken (Some (scheme @ sp @ token)) = Inr token"
proof -
  have "take 6 (scheme @ sp @ token) = scheme" "drop 6 (scheme @ sp @ token) = sp @ token"
    using assms(1) by simp_all
  then show ?thesis
    unfolding parseBearerToken_def Let_def option.case
    by (simp only: takeWhile_dropWhile_split [OF assms(4,6,5)] assms(2,3,5,6) simp_thms if_True)
qed

lemma parseBearerToken_Inr:
  assumes "parseBearerToken header = Inr token"
  obtains scheme sp where "header = Some (scheme @ sp @ token)"
    "map ascii_lower scheme = js ''bearer''" "sp \<noteq> []" "list_all is_js_space sp"
    "token \<noteq> []" "list_all (\<lambda>u. \<not> is_js_space u) token"
proof -
  from assms obtain h where h: "header = Some h"
    by (cases header) (auto simp: parseBearerToken_def)
  let ?sp = "takeWhile is_js_space (drop 6 h)"
  have token: "dropWhile is_js_space (drop 6 h) = token"
    using assms h by (simp add: parseBearerToken_def Let_def split: if_splits)
  have "take 6 h @ ?sp @ token = h"
    by (simp only: token [symmetric] takeWhile_dropWhile_id append_take_drop_id)
  moreover have "list_all is_js_space ?sp" by (auto simp: list_all_iff dest: set_takeWhileD)
  moreover have "map ascii_lower (take 6 h) = js ''bearer''" "?sp \<noteq> []" "token \<noteq> []"
    "list_all (\<lambda>u. \<not> is_js_space u) token"
    using assms h by (auto simp: parseBearerToken_def Let_def split: if_splits)
  ultimately show thesis using h that by metis
qed

lemma findEnabledByHash_Some:
  assumes "findEnabledByHash dbFails rows h = Inr (Some p)"
  obtains r where "r \<in> set rows" "key_hash r = h" "enabled r" "principalId p = row_id r"
    "validatePolicy (rateLimit p) = Inr ()"
proof -
  from assms obtain r where r: "find (\<lambda>r. key_hash r = h \<and> enabled r) rows = Some r"
    by (auto simp: findEnabledByHash_def split: if_splits option.splits)
  then have "r \<in> set rows" "key_hash r = h" "enabled r" by (auto simp: find_Some_iff)
  moreover have "principalId p = row_id r" "validatePolicy (rateLimit p) = Inr ()"
    using assms by (auto simp: findEnabledByHash_def validatePolicy_def r split: if_splits)
  ultimately show thesis by (rule that)
qed

subsection \<open>The contract of a rate limiter\<close>

text \<open>
  What the guard relies on: the only error of a limiter is that it is unavailable, and a
  decision for one subject leaves what every other subject sees as it was.
\<close>

locale rate_limiter =
  fixes limit :: "jstring \<Rightarrow> RateLimitPolicy \<Rightarrow> 's \<Rightarrow> 's \<times> (error + RateLimitDecision)"
    and view :: "jstring \<Rightarrow> 's \<Rightarrow> 'b"
  assumes fails_closed: "limit subject policy s = (s', Inl e) \<Longrightarrow> e = App RateLimiterUnavailableError"
    and isolated: "limit subject policy s = (s', r) \<Longrightarrow> other \<noteq> subject \<Longrightarrow> view other s' = view other s"
begin

lemma guard_passes:
  assumes "apiKeyGuard auth limit header s = (s', res)" and "guard_outcome res = Inr p"
  shows "auth header = Inr p"
    and "\<exists>d. limit (principalId p) (rateLimit p) s = (s', Inr d) \<and> allowed d"
  using assms by (auto simp: apiKeyGuard_def Let_def split: sum.splits prod.splits if_splits)

lemma guard_unauthenticated:
  assumes "auth header = Inl e"
  shows "apiKeyGuard auth limit header s =
    (s, \<lparr>guard_outcome = Inl e, guard_headers = None, guard_metrics = []\<rparr>)"
  using assms by (simp add: apiKeyGuard_def)

lemma guard_rejects:
  assumes "apiKeyGuard auth limit header s = (s', res)" and "guard_outcome res = Inl e"
    and "auth header = Inr p"
  shows "e = App RateLimiterUnavailableError \<or> (\<exists>n. e = App (RateLimitExceededError n))"
  using assms
  by (auto simp: apiKeyGuard_def Let_def dest: fails_closed split: sum.splits prod.splits if_splits)

lemma guard_isolated:
  assumes "apiKeyGuard auth limit header s = (s', res)"
    and "\<And>p. auth header = Inr p \<Longrightarrow> other \<noteq> principalId p"
  shows "view other s' = view other s"
  using assms
  by (auto simp: apiKeyGuard_def Let_def split: sum.splits prod.splits if_splits
      dest: isolated [where other = other])

end

lemma consume_error:
  assumes "consume expireOk out secs usecs subject policy store = (store', Inl e)"
  shows "e = App RateLimiterUnavailableError"
  using assms
  by (auto simp: consume_def validatePolicy_def split: sum.splits prod.splits if_splits
      option.splits list.splits)

lemma consume_isolated:
  assumes "consume expireOk out secs usecs subject policy store = (store', r)" and "other \<noteq> subject"
  shows "store' (bucket_key other) = store (bucket_key other)"
  using assms
  by (auto simp: consume_def evalScript_def split: sum.splits prod.splits if_splits)

interpretation redis_limiter: rate_limiter
  "consume expireOk out secs usecs" "\<lambda>subject store. store (bucket_key subject)"
  for expireOk out secs usecs
  by unfold_locales (fact consume_error, rule consume_isolated)

lemma authenticate_Inr:
  assumes "authenticate sha256 (findEnabledByHash dbFails rows) header = Inr p"
  obtains token r where "parseBearerToken header = Inr token" "r \<in> set rows"
    "key_hash r = sha256 token" "enabled r" "principalId p = row_id r"
    "validatePolicy (rateLimit p) = Inr ()"
proof -
  from assms obtain token where "parseBearerToken header = Inr token"
    and "findEnabledByHash dbFails rows (sha256 token) = Inr (Some p)"
    by (auto simp: authenticate_def hashApiKey_def split: sum.splits option.splits)
  with findEnabledByHash_Some [OF this(2)] that show thesis by blast
qed

lemma authenticate_Inl:
  assumes "authenticate sha256 (findEnabledByHash dbFails rows) header = Inl e"
  shows "e = App AuthenticationError \<or> e = App ApiKeyStoreUnavailableError"
  using assms
  by (auto simp: authenticate_def findEnabledByHash_def parseBearerToken_def Let_def
      split: sum.splits option.splits if_splits)

definition demo_row :: ApiKeyRow where
  "demo_row = \<lparr>row_id = js ''id'', row_name = js ''demo'', key_prefix = js ''mmx'',
     key_hash = js ''secret'', rate_limit_capacity = Num 10,
     rate_limit_refill_per_second = Num 1, enabled = True\<rparr>"

section \<open>Properties\<close>

text \<open>
  C4: the guard of the protected routes fails closed. A request passes only when its header
  carries a bearer token whose digest belongs to an enabled row with a valid policy and the
  limiter granted it a token of that row's own bucket. A request that does not authenticate
  is answered 401 or 503 and consumes nothing; an authenticated one that does not pass is
  answered with the limiter's unavailability or a rate-limit rejection that is counted once;
  and whatever happens no bucket but the authenticated key's changes.
\<close>

theorem guard_fail_closed:
  assumes "apiKeyGuard (authenticate sha256 (findEnabledByHash dbFails rows))
             (consume expireOk out secs usecs) header store = (store', res)"
  shows "(case guard_outcome res of
     Inr p \<Rightarrow>
       (\<exists>token. \<exists>r \<in> set rows. parseBearerToken header = Inr token \<and> key_hash r = sha256 token \<and>
          enabled r \<and> principalId p = row_id r \<and> validatePolicy (rateLimit p) = Inr ()) \<and>
       (\<exists>d. consume expireOk out secs usecs (principalId p) (rateLimit p) store = (store', Inr d) \<and>
          allowed d) \<and>
       (\<forall>other. other \<noteq> principalId p \<longrightarrow> store' (bucket_key other) = store (bucket_key other))
   | Inl e \<Rightarrow>
       (e = App AuthenticationError \<or> e = App ApiKeyStoreUnavailableError) \<and> store' = store \<or>
       (\<exists>p. authenticate sha256 (findEnabledByHash dbFails rows) header = Inr p \<and>
          (e = App RateLimiterUnavailableError \<or> (\<exists>n. e = App (RateLimitExceededError n)) \<and>
             guard_metrics res = [RateLimitRejection]) \<and>
          (\<forall>other. other \<noteq> principalId p \<longrightarrow> store' (bucket_key other) = store (bucket_key other))))"
proof (cases "authenticate sha256 (findEnabledByHash dbFails rows) header")
  case (Inl e)
  with assms authenticate_Inl [OF Inl] show ?thesis
    by (auto simp: redis_limiter.guard_unauthenticated)
next
  case (Inr p)
  have frame: "store' (bucket_key other) = store (bucket_key other)" if "other \<noteq> principalId p" for other
    using redis_limiter.guard_isolated [OF assms] that Inr by auto
  show ?thesis
  proof (cases "guard_outcome res")
    case (Inl e)
    have "e = App RateLimiterUnavailableError \<or> (\<exists>n. e = App (RateLimitExceededError n))"
      by (rule redis_limiter.guard_rejects [OF assms Inl Inr])
    moreover have "guard_metrics res = [RateLimitRejection]" if "e \<noteq> App RateLimiterUnavailableError"
      using assms Inl Inr that
      by (auto simp: apiKeyGuard_def Let_def dest: consume_error split: sum.splits prod.splits if_splits)
    ultimately show ?thesis using Inl Inr frame by auto
  next
    case (Inr q)
    note pass = redis_limiter.guard_passes [OF assms Inr]
    with \<open>authenticate _ _ header = Inr p\<close> have "q = p" by simp
    with Inr pass frame authenticate_Inr [OF pass(1)] show ?thesis
      by (simp del: sum.case_eq_if) blast
  qed
qed

theorem guard_fail_closed_witness:
  "\<exists>store' res p. apiKeyGuard (authenticate id (findEnabledByHash False [demo_row]))
     (consume (\<lambda>_. True) Replied 7 0) (Some (js ''Bearer secret'')) Map.empty = (store', res) \<and>
     guard_outcome res = Inr p \<and> (\<exists>r \<in> set [demo_row]. principalId p = row_id r \<and> enabled r)"
proof -
  obtain store' res where g: "apiKeyGuard (authenticate id (findEnabledByHash False [demo_row]))
     (consume (\<lambda>_. True) Replied 7 0) (Some (js ''Bearer secret'')) Map.empty = (store', res)"
    by fastforce
  have "parseBearerToken (Some (js ''Bearer secret'')) = Inr (js ''secret'')" by code_simp
  then have "\<exists>p. guard_outcome res = Inr p" using g
    by (auto simp: apiKeyGuard_def authenticate_def hashApiKey_def findEnabledByHash_def demo_row_def
        consume_def validatePolicy_def evalScript_def tokenBucketScript_def live_bucket_def
        refilled_def int_of_number_def isTokenBucketResult_def Let_def)
  with guard_fail_closed [OF g] g show ?thesis by auto
qed

text \<open>
  the bearer token is exactly what the documented pattern captures. A header parses to a
  token if and only if it is the word \<open>bearer\<close> in any case, at least one white space
  character, and the token, non-empty and free of white space, up to the end of the header;
  every other header, a missing one included, is an authentication error.
\<close>

theorem bearer_pattern:
  "(parseBearerToken header = Inr token) =
     (\<exists>scheme sp. header = Some (scheme @ sp @ token) \<and> map ascii_lower scheme = js ''bearer'' \<and>
        sp \<noteq> [] \<and> list_all is_js_space sp \<and>
        token \<noteq> [] \<and> list_all (\<lambda>u. \<not> is_js_space u) token) \<and>
   (isl (parseBearerToken header) = (parseBearerToken header = Inl (App AuthenticationError)))"
proof
  have "length scheme = 6" if "map ascii_lower scheme = js ''bearer''" for scheme
    using arg_cong [OF that, of length] by simp
  then show "(parseBearerToken header = Inr token) =
     (\<exists>scheme sp. header = Some (scheme @ sp @ token) \<and> map ascii_lower scheme = js ''bearer'' \<and>
        sp \<noteq> [] \<and> list_all is_js_space sp \<and>
        token \<noteq> [] \<and> list_all (\<lambda>u. \<not> is_js_space u) token)"
    using parseBearerToken_match parseBearerToken_Inr [of header token] by metis
  show "isl (parseBearerToken header) = (parseBearerToken header = Inl (App AuthenticationError))"
    by (auto simp: parseBearerToken_def Let_def split: option.splits if_splits)
qed

end
