(* ===== verification/Http_Api.thy ===== *)
theory Http_Api
  imports Schemas Api_Keys
begin

text \<open>
  The HTTP application of \<open>src/app.ts\<close> with the handlers of \<open>src/routes/jobs.ts\<close> and
  \<open>src/routes/providers.ts\<close>: a request meets the hooks of its route, the guard of the protected
  ones among them, then the validation of its parts, then its handler, and an error anywhere is
  answered by the error handler. The framework's part is its documented order of these steps and
  a validator (\<open>validate\<close>) that returns the errors, or the value it hands on. The chat handlers are
  machines of their own; here the application hands them the authenticated request.
\<close>

section \<open>Definitions\<close>

datatype route = HealthRoute | ChatRoute | ChatStreamRoute | JobSubmitRoute | JobStatusRoute | ProvidersRoute

text \<open>
  The routes \<open>buildApp\<close> registers, with whether they are registered inside the guarded plugin;
  the report on the providers is there only when the application is given one.
\<close>

definition routeTable :: "bool \<Rightarrow> ((jstring \<times> jstring) \<times> route \<times> bool) list" where
  "routeTable providerHealth =
     [((js ''GET'', js ''/health''), HealthRoute, False),
      ((js ''POST'', js ''/v1/chat''), ChatRoute, True),
      ((js ''POST'', js ''/v1/chat/stream''), ChatStreamRoute, True),
      ((js ''POST'', js ''/v1/jobs''), JobSubmitRoute, True),
      ((js ''GET'', js ''/v1/jobs/:id''), JobStatusRoute, True)] @
     (if providerHealth then [((js ''GET'', js ''/v1/providers''), ProvidersRoute, True)] else [])"

text \<open>
  A request with the route pattern it matched; the parts to validate are objects.
\<close>

record http_request =
  reqMethod :: jstring
  reqUrl :: jstring
  reqId :: jstring
  authorization :: "jstring option"
  reqParams :: json
  reqBody :: json
  reqHeaders :: json

fun paramsSchema :: "route \<Rightarrow> schema option" where
  "paramsSchema JobStatusRoute = Some jobParamsSchema"
| "paramsSchema _ = None"

fun bodySchema :: "route \<Rightarrow> schema option" where
  "bodySchema ChatRoute = Some chatRequestSchema"
| "bodySchema ChatStreamRoute = Some chatRequestSchema"
| "bodySchema JobSubmitRoute = Some chatRequestSchema"
| "bodySchema _ = None"

fun headersSchema :: "route \<Rightarrow> schema option" where
  "headersSchema ChatRoute = Some chatHeadersSchema"
| "headersSchema JobSubmitRoute = Some jobHeadersSchema"
| "headersSchema _ = None"

type_synonym validator = "schema \<Rightarrow> json \<Rightarrow> (jstring \<times> jstring option) list + json"

definition validatePart :: "validator \<Rightarrow> string \<Rightarrow> schema option \<Rightarrow> json \<Rightarrow> handled_error + json" where
  "validatePart validate part sc v =
     (case sc of
        None \<Rightarrow> Inr v
      | Some sc' \<Rightarrow>
          (case validate sc' v of Inl errs \<Rightarrow> Inl (ValidationError (Some (js part)) errs) | Inr w \<Rightarrow> Inr w))"

definition validateRequest :: "validator \<Rightarrow> route \<Rightarrow> http_request \<Rightarrow> handled_error + http_request" where
  "validateRequest validate rt req =
     bind_sum (validatePart validate ''params'' (paramsSchema rt) (reqParams req)) (\<lambda>ps.
     bind_sum (validatePart validate ''body'' (bodySchema rt) (reqBody req)) (\<lambda>b.
     bind_sum (validatePart validate ''headers'' (headersSchema rt) (reqHeaders req)) (\<lambda>hs.
     Inr (req\<lparr>reqParams := ps, reqBody := b, reqHeaders := hs\<rparr>))))"

text \<open>\<open>request.headers[name]\<close> and \<open>request.params[name]\<close> of a validated string.\<close>

definition string_prop :: "json \<Rightarrow> string \<Rightarrow> jstring" where
  "string_prop v k = (case jprop v k of Some (JStr s) \<Rightarrow> s | _ \<Rightarrow> [])"

subsection \<open>Handlers\<close>

record http_reply =
  httpStatus :: int
  httpHeaders :: "(string \<times> jstring) list"
  httpBody :: json

text \<open>
  What the job handlers need of their environment: the store's configuration, and for a
  submission the random identifier and the work of other sessions.
\<close>

record job_env =
  envSha256 :: "jstring \<Rightarrow> jstring"
  envOptions :: JobStoreOptions
  envNow :: time
  envNewId :: jstring
  envBetween :: "job_table \<Rightarrow> job_table"

definition submitJob ::
  "job_env \<Rightarrow> ApiKeyPrincipal option \<Rightarrow> http_request \<Rightarrow> job_table \<Rightarrow> job_table \<times> (error + http_reply)" where
  "submitJob env apiKey req t =
     (case apiKey of
        None \<Rightarrow> (t, Inl (App AuthenticationError))
      | Some p \<Rightarrow>
          (let sub = \<lparr>subOwnerId = principalId p, subRequestId = reqId req,
                      subIdempotencyKey = string_prop (reqHeaders req) ''idempotency-key'',
                      subData = reqBody req\<rparr>
           in case queueEnqueue (envSha256 env) (envOptions env) (envNow env) (envNewId env) (envBetween env) sub t of
                (t', Inl e) \<Rightarrow> (t', Inl e)
              | (t', Inr job) \<Rightarrow>
                  (t', Inr \<lparr>httpStatus = 202,
                            httpHeaders = [(''location'', js ''/v1/jobs/'' @ receiptId job)],
                            httpBody = json_of_receipt job\<rparr>)))"

text \<open>The header is set before the lookup, so an error reply carries it too.\<close>

definition pollJob ::
  "job_env \<Rightarrow> ApiKeyPrincipal option \<Rightarrow> http_request \<Rightarrow> job_table \<Rightarrow>
   (string \<times> jstring) list \<times> (error + http_reply)" where
  "pollJob env apiKey req t =
     (case apiKey of
        None \<Rightarrow> ([], Inl (App AuthenticationError))
      | Some p \<Rightarrow>
          ([(''cache-control'', js ''no-store'')],
           map_sum id (\<lambda>st. \<lparr>httpStatus = 200, httpHeaders = [], httpBody = json_of_status st\<rparr>)
             (queueGetJob (envOptions env) (string_prop (reqParams req) ''id'') (principalId p) t)))"

definition healthReply :: http_reply where
  "healthReply = \<lparr>httpStatus = 200, httpHeaders = [], httpBody = JObj [(js ''status'', JStr (js ''ok''))]\<rparr>"

definition providersHandler :: "(jstring \<times> CircuitSnapshot) list \<Rightarrow> http_reply" where
  "providersHandler ps =
     \<lparr>httpStatus = 200, httpHeaders = [(''cache-control'', js ''no-store'')], httpBody = providersReply ps\<rparr>"

subsection \<open>The application\<close>

text \<open>
  What becomes of a request: no route, a reply, an error reply, or the chat handler (streaming or
  not) of the authenticated client.
\<close>

datatype app_outcome =
    NoRoute
  | Answered http_reply
  | Refused "(string \<times> jstring) list" error_reply
  | ToChat bool ApiKeyPrincipal "ChatRequest option"

record 's app =
  appAuthenticator :: "jstring option \<Rightarrow> error + ApiKeyPrincipal"
  appLimiter :: "jstring \<Rightarrow> RateLimitPolicy \<Rightarrow> 's \<Rightarrow> 's \<times> (error + RateLimitDecision)"
  appValidate :: validator
  appJobs :: job_env
  appHealth :: "(jstring \<times> CircuitSnapshot) list option"

record 's app_state =
  limiterState :: 's
  jobTable :: job_table

text \<open>The headers of the guard's decision.\<close>

definition limit_headers :: "RateLimitHeaders option \<Rightarrow> (string \<times> jstring) list" where
  "limit_headers h =
     (case h of
        None \<Rightarrow> []
      | Some x \<Rightarrow> [(''x-ratelimit-limit'', string_of_int (int_of_number (x_ratelimit_limit x))),
                   (''x-ratelimit-remaining'', string_of_int (int_of_number (x_ratelimit_remaining x)))])"

definition request_headers :: "http_request \<Rightarrow> (string \<times> jstring) list" where
  "request_headers req = [(''x-request-id'', reqId req)]"

text \<open>The error handler's reply, after the headers the hooks have set.\<close>

definition refuse :: "http_request \<Rightarrow> (string \<times> jstring) list \<Rightarrow> handled_error \<Rightarrow> app_outcome" where
  "refuse req hs e = Refused (request_headers req @ hs @ reply_headers (errorHandler e (reqId req))) (errorHandler e (reqId req))"

definition answer_with :: "http_request \<Rightarrow> (string \<times> jstring) list \<Rightarrow> error + http_reply \<Rightarrow> app_outcome" where
  "answer_with req hs res =
     (case res of
        Inl e \<Rightarrow> refuse req hs (Thrown e)
      | Inr r \<Rightarrow> Answered (r\<lparr>httpHeaders := request_headers req @ hs @ httpHeaders r\<rparr>))"

text \<open>The handler of a route, on the validated request.\<close>

definition runHandler ::
  "'s app \<Rightarrow> route \<Rightarrow> ApiKeyPrincipal option \<Rightarrow> (string \<times> jstring) list \<Rightarrow> http_request \<Rightarrow> job_table \<Rightarrow>
   job_table \<times> app_outcome" where
  "runHandler a rt apiKey hs req t =
     (case rt of
        HealthRoute \<Rightarrow> (t, answer_with req hs (Inr healthReply))
      | ChatRoute \<Rightarrow>
          (t, case apiKey of Some p \<Rightarrow> ToChat False p (request_of_json (reqBody req))
              | None \<Rightarrow> refuse req hs (Thrown (OtherError (js ''apiKey is null''))))
      | ChatStreamRoute \<Rightarrow>
          (t, case apiKey of Some p \<Rightarrow> ToChat True p (request_of_json (reqBody req))
              | None \<Rightarrow> refuse req hs (Thrown (OtherError (js ''apiKey is null''))))
      | JobSubmitRoute \<Rightarrow>
          (case submitJob (appJobs a) apiKey req t of (t', res) \<Rightarrow> (t', answer_with req hs res))
      | JobStatusRoute \<Rightarrow>
          (case pollJob (appJobs a) apiKey req t of (hs', res) \<Rightarrow> (t, answer_with req (hs @ hs') res))
      | ProvidersRoute \<Rightarrow>
          (t, answer_with req hs (Inr (providersHandler (case appHealth a of Some ps \<Rightarrow> ps | None \<Rightarrow> [])))))"

text \<open>Validation and the handler, once the hooks have passed.\<close>

definition serve ::
  "'s app \<Rightarrow> route \<Rightarrow> ApiKeyPrincipal option \<Rightarrow> (string \<times> jstring) list \<Rightarrow> http_request \<Rightarrow> 's app_state \<Rightarrow>
   's app_state \<times> app_outcome" where
  "serve a rt apiKey hs req s =
     (case validateRequest (appValidate a) rt req of
        Inl e \<Rightarrow> (s, refuse req hs e)
      | Inr req' \<Rightarrow>
          (case runHandler a rt apiKey hs req' (jobTable s) of (t', out) \<Rightarrow> (s\<lparr>jobTable := t'\<rparr>, out)))"

definition handleRequest :: "'s app \<Rightarrow> http_request \<Rightarrow> 's app_state \<Rightarrow> 's app_state \<times> app_outcome" where
  "handleRequest a req s =
     (case map_of (routeTable (appHealth a \<noteq> None)) (reqMethod req, reqUrl req) of
        None \<Rightarrow> (s, NoRoute)
      | Some (rt, guarded) \<Rightarrow>
          if \<not> guarded then serve a rt None [] req s
          else case apiKeyGuard (appAuthenticator a) (appLimiter a) (authorization req) (limiterState s) of
            (l, res) \<Rightarrow>
              (case guard_outcome res of
                 Inl e \<Rightarrow> (s\<lparr>limiterState := l\<rparr>, refuse req (limit_headers (guard_headers res)) (Thrown e))
               | Inr p \<Rightarrow> serve a rt (Some p) (limit_headers (guard_headers res)) req (s\<lparr>limiterState := l\<rparr>)))"

section \<open>Lemmas\<close>

definition valid_request :: "ChatRequest \<Rightarrow> bool" where
  "valid_request q \<longleftrightarrow> model q \<noteq> [] \<and> messages q \<noteq> [] \<and> (\<forall>m \<in> set (messages q). content m \<noteq> [])"

lemma conforms_valid_request:
  "conforms chatRequestSchema v \<Longrightarrow> \<exists>q. request_of_json v = Some q \<and> valid_request q"
  by (elim conforms_request) (auto simp: valid_request_def list_all_iff)

lemma validatePart_Inr:
  "validatePart validate part sc v = Inr w \<longleftrightarrow>
     (case sc of None \<Rightarrow> w = v | Some sc' \<Rightarrow> validate sc' v = Inr w)"
  by (auto simp: validatePart_def split: option.split sum.split)

lemma validateRequest_Inr:
  assumes "validateRequest validate rt req = Inr req'"
  obtains ps b hs where "validatePart validate ''params'' (paramsSchema rt) (reqParams req) = Inr ps"
    "validatePart validate ''body'' (bodySchema rt) (reqBody req) = Inr b"
    "validatePart validate ''headers'' (headersSchema rt) (reqHeaders req) = Inr hs"
    "req' = req\<lparr>reqParams := ps, reqBody := b, reqHeaders := hs\<rparr>"
  using assms by (auto simp: validateRequest_def bind_sum_Inr)

lemma validateRequest_id: "validateRequest validate rt req = Inr req' \<Longrightarrow> reqId req' = reqId req"
  by (elim validateRequest_Inr) simp

text \<open>What every reply carries.\<close>

fun traced :: "jstring \<Rightarrow> app_outcome \<Rightarrow> bool" where
  "traced rid NoRoute = True"
| "traced rid (Answered r) = ((''x-request-id'', rid) \<in> set (httpHeaders r))"
| "traced rid (Refused hs e) =
     ((''x-request-id'', rid) \<in> set hs \<and> reply_requestId e = rid \<and> 400 \<le> reply_status e \<and> reply_status e < 600)"
| "traced rid (ToChat _ _ _) = True"

lemma errorHandler_traced:
  "reply_requestId (errorHandler e rid) = rid \<and> 400 \<le> reply_status (errorHandler e rid) \<and>
   reply_status (errorHandler e rid) < 600"
proof -
  have "400 \<le> statusCode x" "statusCode x < 600" for x
    using statusCode_range [of x] by linarith+
  then show ?thesis
    by (cases "(e, rid)" rule: errorHandler.cases) (simp_all add: internal_error_reply_def)
qed

lemma traced_refuse [simp]: "traced rid (refuse req hs e) \<longleftrightarrow> reqId req = rid"
  using errorHandler_traced by (auto simp: refuse_def request_headers_def)

lemma traced_answer [simp]: "reqId req = rid \<Longrightarrow> traced rid (answer_with req hs res)"
  by (auto simp: answer_with_def request_headers_def split: sum.split)

lemma outcome_of_refuse [simp]: "refuse req hs e \<noteq> ToChat st p q" "refuse req hs e \<noteq> Answered r"
  "refuse req hs e \<noteq> NoRoute"
  by (simp_all add: refuse_def)

lemma outcome_of_answer [simp]: "answer_with req hs res \<noteq> ToChat st p q" "answer_with req hs res \<noteq> NoRoute"
  by (simp_all add: answer_with_def split: sum.split)

text \<open>The submission the route makes for a client.\<close>

definition submits :: "'s app \<Rightarrow> ApiKeyPrincipal \<Rightarrow> http_request \<Rightarrow> job_table \<Rightarrow> job_table \<Rightarrow> bool" where
  "submits a p req t t' \<longleftrightarrow>
     (\<exists>sub. subOwnerId sub = principalId p \<and> subRequestId sub = reqId req \<and> conforms chatRequestSchema (subData sub) \<and>
        t' = fst (queueEnqueue (envSha256 (appJobs a)) (envOptions (appJobs a)) (envNow (appJobs a))
               (envNewId (appJobs a)) (envBetween (appJobs a)) sub t))"

lemma serve_traced: "serve a rt k hs req s = (s', out) \<Longrightarrow> traced (reqId req) out"
  by (auto simp: serve_def runHandler_def validateRequest_id split: sum.splits prod.splits route.splits option.splits)

lemma serve_limiter: "serve a rt k hs req s = (s', out) \<Longrightarrow> limiterState s' = limiterState s \<and> out \<noteq> NoRoute"
  by (auto simp: serve_def runHandler_def split: sum.splits prod.splits route.splits option.splits)

lemma serve_health: "serve a HealthRoute k hs req s = (s', out) \<Longrightarrow> s' = s \<and> (\<forall>st p q. out \<noteq> ToChat st p q)"
  by (auto simp: serve_def runHandler_def split: sum.splits)

lemma serve_guarded:
  assumes "serve a rt (Some p) hs req s = (s', out)"
    and "\<And>sc v w. appValidate a sc v = Inr w \<Longrightarrow> conforms sc w"
  shows "jobTable s' = jobTable s \<or> submits a p req (jobTable s) (jobTable s')"
    and "out = ToChat st p' q \<Longrightarrow> p' = p \<and> (\<exists>r. q = Some r \<and> valid_request r) \<and> jobTable s' = jobTable s"
proof -
  have *: "(jobTable s' = jobTable s \<or> submits a p req (jobTable s) (jobTable s')) \<and>
    (out = ToChat st p' q \<longrightarrow> p' = p \<and> (\<exists>r. q = Some r \<and> valid_request r) \<and> jobTable s' = jobTable s)"
  proof (cases "validateRequest (appValidate a) rt req")
    case (Inl e)
    then show ?thesis using assms(1) by (auto simp: serve_def)
  next
    case (Inr req')
    then obtain ps b hd where r: "req' = req\<lparr>reqParams := ps, reqBody := b, reqHeaders := hd\<rparr>"
      and "validatePart (appValidate a) ''body'' (bodySchema rt) (reqBody req) = Inr b"
      by (elim validateRequest_Inr)
    then have b: "bodySchema rt = Some sc \<Longrightarrow> conforms sc b" for sc
      using assms(2) by (simp add: validatePart_Inr)
    show ?thesis
    proof (cases rt)
      case JobSubmitRoute
      let ?sub = "\<lparr>subOwnerId = principalId p, subRequestId = reqId req,
        subIdempotencyKey = string_prop hd ''idempotency-key'', subData = b\<rparr>"
      have "jobTable s' = fst (queueEnqueue (envSha256 (appJobs a)) (envOptions (appJobs a)) (envNow (appJobs a))
          (envNewId (appJobs a)) (envBetween (appJobs a)) ?sub (jobTable s)) \<and> (\<forall>st p q. out \<noteq> ToChat st p q)"
        using assms(1) Inr JobSubmitRoute
        by (auto simp: serve_def runHandler_def submitJob_def Let_def r split: prod.splits sum.splits)
      moreover have "conforms chatRequestSchema b" using b JobSubmitRoute by simp
      ultimately show ?thesis unfolding submits_def by (intro conjI disjI2 exI [of _ ?sub]) auto
    next
      case ChatRoute
      then have "\<exists>r. request_of_json b = Some r \<and> valid_request r" using b conforms_valid_request by simp
      with ChatRoute show ?thesis using assms(1) Inr by (auto simp: serve_def runHandler_def r)
    next
      case ChatStreamRoute
      then have "\<exists>r. request_of_json b = Some r \<and> valid_request r" using b conforms_valid_request by simp
      with ChatStreamRoute show ?thesis using assms(1) Inr by (auto simp: serve_def runHandler_def r)
    qed (use assms(1) Inr in \<open>auto simp: serve_def runHandler_def split: prod.splits\<close>)
  qed
  then show "jobTable s' = jobTable s \<or> submits a p req (jobTable s) (jobTable s')"
    and "out = ToChat st p' q \<Longrightarrow> p' = p \<and> (\<exists>r. q = Some r \<and> valid_request r) \<and> jobTable s' = jobTable s"
    by blast+
qed

lemma routeTable_guarded:
  assumes "map_of (routeTable h) (m, u) = Some (rt, g)"
  shows "g \<longleftrightarrow> rt \<noteq> HealthRoute" and "rt = HealthRoute \<longleftrightarrow> u = js ''/health''"
  using assms by (auto simp: routeTable_def split: if_splits)

subsection \<open>Submitting and polling\<close>

definition submit_request :: "jstring \<Rightarrow> jstring option \<Rightarrow> jstring \<Rightarrow> ChatRequest \<Rightarrow> http_request" where
  "submit_request rid auth key q =
     \<lparr>reqMethod = js ''POST'', reqUrl = js ''/v1/jobs'', reqId = rid, authorization = auth, reqParams = JObj [],
      reqBody = json_of_request q, reqHeaders = JObj [(js ''idempotency-key'', JStr key)]\<rparr>"

definition poll_request :: "jstring \<Rightarrow> jstring option \<Rightarrow> jstring \<Rightarrow> http_request" where
  "poll_request rid auth jobId =
     \<lparr>reqMethod = js ''GET'', reqUrl = js ''/v1/jobs/:id'', reqId = rid, authorization = auth,
      reqParams = JObj [(js ''id'', JStr jobId)], reqBody = JNull, reqHeaders = JObj []\<rparr>"

abbreviation guard_of :: "'s app \<Rightarrow> http_request \<Rightarrow> 's app_state \<Rightarrow> 's \<times> guard_result" where
  "guard_of a req s \<equiv> apiKeyGuard (appAuthenticator a) (appLimiter a) (authorization req) (limiterState s)"

lemma handle_guarded:
  assumes "map_of (routeTable (appHealth a \<noteq> None)) (reqMethod req, reqUrl req) = Some (rt, True)"
    and "guard_outcome (snd (guard_of a req s)) = Inr p"
  shows "handleRequest a req s =
    serve a rt (Some p) (limit_headers (guard_headers (snd (guard_of a req s)))) req
      (s\<lparr>limiterState := fst (guard_of a req s)\<rparr>)"
  using assms by (cases "guard_of a req s") (simp add: handleRequest_def)

lemma find_append: "find P (xs @ ys) = (case find P xs of None \<Rightarrow> find P ys | Some x \<Rightarrow> Some x)"
  by (induction xs) simp_all

lemma handle_submit:
  assumes "\<And>sc v. conforms sc v \<Longrightarrow> appValidate a sc v = Inr v"
    and "valid_request q" and "conforms idempotencyKeySchema (JStr key)"
    and "guard_outcome (snd (guard_of a (submit_request rid auth key q) s)) = Inr p"
    and "queueEnqueue (envSha256 (appJobs a)) (envOptions (appJobs a)) (envNow (appJobs a)) (envNewId (appJobs a))
      (envBetween (appJobs a)) \<lparr>subOwnerId = principalId p, subRequestId = rid, subIdempotencyKey = key,
         subData = json_of_request q\<rparr> (jobTable s) = (t', Inr job)"
    and "handleRequest a (submit_request rid auth key q) s = (s', out)"
  shows "jobTable s' = t' \<and> (\<exists>hs. out = Answered \<lparr>httpStatus = 202,
      httpHeaders = (''x-request-id'', rid) # hs @ [(''location'', js ''/v1/jobs/'' @ receiptId job)],
      httpBody = json_of_receipt job\<rparr>)"
proof -
  let ?req = "submit_request rid auth key q"
  have "map_of (routeTable (appHealth a \<noteq> None)) (reqMethod ?req, reqUrl ?req) = Some (JobSubmitRoute, True)"
    by (simp add: submit_request_def routeTable_def)
  note h = handle_guarded [OF this assms(4)]
  have "conforms chatRequestSchema (json_of_request q)"
    using assms(2) by (auto simp: valid_request_def chatRequestSchema_def json_of_request_def list_all_iff
        conforms_json_of_message Suc_le_eq)
  moreover have "conforms jobHeadersSchema (JObj [(js ''idempotency-key'', JStr key)])"
    using assms(3) by (simp add: jobHeadersSchema_def)
  ultimately have "validateRequest (appValidate a) JobSubmitRoute ?req = Inr ?req"
    using assms(1) by (simp add: validateRequest_def validatePart_def submit_request_def)
  moreover have "string_prop (reqHeaders ?req) ''idempotency-key'' = key" "reqBody ?req = json_of_request q"
    "reqId ?req = rid"
    by (simp_all add: submit_request_def string_prop_def)
  ultimately show ?thesis using assms(5,6) h
    by (auto simp: serve_def runHandler_def submitJob_def answer_with_def request_headers_def)
qed

lemma handle_poll:
  assumes "\<And>sc v. conforms sc v \<Longrightarrow> appValidate a sc v = Inr v"
    and "conforms jobIdSchema (JStr jobId)"
    and "guard_outcome (snd (guard_of a (poll_request rid auth jobId) s)) = Inr p"
    and "handleRequest a (poll_request rid auth jobId) s = (s', out)"
  shows "jobTable s' = jobTable s \<and>
    (case queueGetJob (envOptions (appJobs a)) jobId (principalId p) (jobTable s) of
       Inr st \<Rightarrow> \<exists>hs. out = Answered \<lparr>httpStatus = 200, httpHeaders = (''x-request-id'', rid) # hs @ [(''cache-control'', js ''no-store'')],
                          httpBody = json_of_status st\<rparr>
     | Inl e \<Rightarrow> \<exists>hs. out = Refused hs (errorHandler (Thrown e) rid))"
proof -
  let ?req = "poll_request rid auth jobId"
  have "map_of (routeTable (appHealth a \<noteq> None)) (reqMethod ?req, reqUrl ?req) = Some (JobStatusRoute, True)"
    by (simp add: poll_request_def routeTable_def)
  note h = handle_guarded [OF this assms(3)]
  have "conforms jobParamsSchema (JObj [(js ''id'', JStr jobId)])"
    using assms(2) by (simp add: jobParamsSchema_def)
  then have "validateRequest (appValidate a) JobStatusRoute ?req = Inr ?req"
    using assms(1) by (simp add: validateRequest_def validatePart_def poll_request_def)
  moreover have "string_prop (reqParams ?req) ''id'' = jobId" "reqId ?req = rid"
    by (simp_all add: poll_request_def string_prop_def)
  ultimately show ?thesis using assms(4) h
    by (auto simp: serve_def runHandler_def pollJob_def answer_with_def request_headers_def refuse_def split: sum.split)
qed

lemma fresh_submission:
  assumes "1 \<le> optMaxAttempts opts" and "1 \<le> optBackoffMs opts" and "jobId \<notin> job_id ` set t"
    and "\<forall>r \<in> set t. \<not> same_submission (optName opts) (subOwnerId sub) (hash sha256 (JStr (subIdempotencyKey sub))) r"
  shows "queueEnqueue sha256 opts now jobId between sub t =
    (t @ [new_row sha256 opts now jobId sub], Inr \<lparr>receiptId = jobId, receiptRequestId = subRequestId sub\<rparr>)"
proof -
  let ?row = "new_row sha256 opts now jobId sub"
  have "\<not> list_ex (same_submission (queue_name ?row) (owner_id ?row) (idempotency_hash ?row)) t"
    "\<not> list_ex (\<lambda>r'. job_id r' = job_id ?row) t"
    using assms(3,4) by (auto simp: list_ex_iff new_row_def)
  then have "insertJob now ?row t = Inr (t @ [?row], Some ?row)"
    using assms(1,2) by (simp add: insertJob_def) (simp add: new_row_def)
  then have "enqueue sha256 opts now jobId between sub t =
      (t @ [?row], Inr \<lparr>receiptId = jobId, receiptRequestId = subRequestId sub\<rparr>)"
    by (simp add: enqueue_def Let_def receipt_of_def) (simp add: new_row_def)
  then show ?thesis by (simp add: queueEnqueue_def)
qed

lemma fresh_job_status:
  assumes "jobId \<notin> job_id ` set t"
  shows "queueGetJob opts jobId owner (t @ [new_row sha256 opts now jobId sub]) =
    (if owner = subOwnerId sub
     then Inr \<lparr>receiptId = jobId, receiptRequestId = subRequestId sub, jobStatus = JQueued, attemptsMade = 0,
       jobResponse = None, jobError = None\<rparr>
     else Inl (App JobNotFoundError))"
proof -
  have "find (\<lambda>r. job_id r = jobId \<and> owner_id r = owner \<and> queue_name r = optName opts) t = None"
    using assms by (auto simp: find_None_iff)
  then show ?thesis by (simp add: queueGetJob_def getJob_def find_append) (simp add: new_row_def)
qed

section \<open>Properties\<close>



subsection \<open>Witnesses\<close>

text \<open>
  An application whose keys are their own identifiers, with a limiter that admits everybody and
  a validator that takes exactly the conforming values.
\<close>

definition demo_app :: "unit app" where
  "demo_app =
     \<lparr>appAuthenticator = (\<lambda>h. case h of
          None \<Rightarrow> Inl (App AuthenticationError)
        | Some k \<Rightarrow> Inr \<lparr>principalId = k, principalName = k, keyPrefix = k,
            rateLimit = \<lparr>capacity = Num 10, refillPerSecond = Num 1\<rparr>\<rparr>),
      appLimiter = (\<lambda>_ _ s. (s, Inr \<lparr>allowed = True, remaining = Num 9, decisionRetryAfterSeconds = Num 0\<rparr>)),
      appValidate = (\<lambda>sc v. if conforms sc v then Inr v else Inl []),
      appJobs = \<lparr>envSha256 = (\<lambda>x. x), envOptions = demo_opts, envNow = 5, envNewId = js ''job-2'',
        envBetween = (\<lambda>t. t)\<rparr>,
      appHealth = None\<rparr>"

definition demo_app_state :: "unit app_state" where
  "demo_app_state = \<lparr>limiterState = (), jobTable = []\<rparr>"

definition demo_chat :: ChatRequest where
  "demo_chat = \<lparr>model = js ''m'', messages = [\<lparr>role = UserRole, content = js ''hi''\<rparr>]\<rparr>"

lemma demo_validate: "conforms sc v \<Longrightarrow> appValidate demo_app sc v = Inr v"
  "appValidate demo_app sc v = Inr w \<Longrightarrow> conforms sc w"
  by (auto simp: demo_app_def split: if_splits)

lemma demo_guard:
  "guard_outcome (snd (guard_of demo_app (submit_request rid (Some k) key q) s)) =
     Inr \<lparr>principalId = k, principalName = k, keyPrefix = k, rateLimit = \<lparr>capacity = Num 10, refillPerSecond = Num 1\<rparr>\<rparr>"
  "guard_outcome (snd (guard_of demo_app (poll_request rid (Some k) jobId) s)) =
     Inr \<lparr>principalId = k, principalName = k, keyPrefix = k, rateLimit = \<lparr>capacity = Num 10, refillPerSecond = Num 1\<rparr>\<rparr>"
  by (simp_all add: apiKeyGuard_def demo_app_def submit_request_def poll_request_def Let_def)

lemma demo_strings:
  "conforms idempotencyKeySchema (JStr (js ''k1''))" "conforms jobIdSchema (JStr (js ''job-2''))"
  by (simp_all add: idempotencyKeySchema_def jobIdSchema_def string_ok_def alphanumeric_def js_def
      unit_of_char_def is_high_def is_low_def)



end
