(* ===== verification/Worker_Process.thy ===== *)
theory Worker_Process
  imports Job_Worker
begin

text \<open>
  The life of a worker over its broker connection: \<open>connect\<close>, \<open>consume\<close> and \<open>close\<close> of
  \<open>src/queue/rabbitmq-broker.ts\<close> and \<open>run\<close>, \<open>loop\<close>, \<open>close\<close> and \<open>drain\<close> of
  \<open>src/queue/rabbitmq.ts\<close>, as one machine. Each awaited AMQP command is issued in one step and
  settles in a later one, so that deliveries, connection failures and a request to close may fall
  anywhere between. The commands are logged in the order they are issued.
\<close>

section \<open>Definitions\<close>

subsection \<open>AMQP commands\<close>

record RabbitMqOptions =
  rabbitUrl :: jstring
  rabbitQuery :: "(jstring \<times> jstring) list"
  rabbitName :: jstring
  rabbitConcurrency :: int

datatype amqp_command =
    Connect jstring "(jstring \<times> jstring) list" time
  | CreateConfirmChannel
  | CreateChannel
  | AssertQueue jstring bool "(string \<times> json) list"
  | Prefetch int
  | Consume jstring bool
  | CancelConsumer jstring
  | CloseConnection

text \<open>The query of the connection URL, with a heartbeat unless it has one.\<close>

definition withHeartbeat :: "(jstring \<times> jstring) list \<Rightarrow> (jstring \<times> jstring) list" where
  "withHeartbeat qs = (if js ''heartbeat'' \<in> fst ` set qs then qs else qs @ [(js ''heartbeat'', js ''10'')])"

definition failedQueue :: "jstring \<Rightarrow> jstring" where
  "failedQueue name = name @ js ''.failed''"

definition failedQueueArguments :: "(string \<times> json) list" where
  "failedQueueArguments = [(''x-queue-type'', JStr (js ''quorum'')), (''x-message-ttl'', JNum 86400000)]"

definition queueArguments :: "jstring \<Rightarrow> (string \<times> json) list" where
  "queueArguments name =
     [(''x-queue-type'', JStr (js ''quorum'')), (''x-single-active-consumer'', JBool True),
      (''x-dead-letter-exchange'', JStr []), (''x-dead-letter-routing-key'', JStr (failedQueue name)),
      (''x-dead-letter-strategy'', JStr (js ''at-least-once'')), (''x-overflow'', JStr (js ''reject-publish'')),
      (''x-delivery-limit'', JNum (- 1))]"

text \<open>The commands of \<open>connect\<close>, each awaited before the next.\<close>

definition connectPlan :: "RabbitMqOptions \<Rightarrow> amqp_command list" where
  "connectPlan opts =
     [Connect (rabbitUrl opts) (withHeartbeat (rabbitQuery opts)) 5000,
      CreateConfirmChannel,
      CreateChannel,
      AssertQueue (failedQueue (rabbitName opts)) True failedQueueArguments,
      AssertQueue (rabbitName opts) True (queueArguments (rabbitName opts)),
      Prefetch (rabbitConcurrency opts)]"

subsection \<open>State\<close>

text \<open>
  Where the promise of \<open>loop\<close> stands: not started, awaiting a command of \<open>connect\<close> (with the
  commands still to come), awaiting \<open>consume\<close>, in the loop, or settled.
\<close>

datatype loop_phase =
    LoopIdle
  | LoopConnecting amqp_command "amqp_command list"
  | LoopConsuming
  | LoopBody
  | LoopDone "error + unit"

text \<open>
  Where the promise of \<open>drain\<close> stands: not started, waiting for the running tasks, waiting for
  the loop, about to close the broker (each with what \<open>stopConsuming\<close> threw), or settled.
\<close>

datatype drain_phase =
    DrainIdle
  | DrainTasks
  | DrainLoop
  | DrainBroker "error + unit"
  | Drained "error + unit"

record worker =
  wBroker :: broker
  wConnection :: bool
  wConsumer :: bool
  wStop :: bool
  wLoop :: loop_phase
  wDrain :: drain_phase
  wLog :: "amqp_command list"

definition newBroker :: broker where
  "newBroker = \<lparr>failure = None, connected = False, draining = False, closing = False, consumerTag = None, active = 0\<rparr>"

definition newWorker :: worker where
  "newWorker = \<lparr>wBroker = newBroker, wConnection = False, wConsumer = False, wStop = False, wLoop = LoopIdle,
     wDrain = DrainIdle, wLog = []\<rparr>"

subsection \<open>The loop\<close>

definition issue :: "amqp_command \<Rightarrow> worker \<Rightarrow> worker" where
  "issue c w = w\<lparr>wLog := wLog w @ [c]\<rparr>"

text \<open>\<open>run\<close>: the first call starts the loop with the first command of \<open>connect\<close>.\<close>

definition runWorker :: "RabbitMqOptions \<Rightarrow> worker \<Rightarrow> worker" where
  "runWorker opts w =
     (if wLoop w = LoopIdle
      then (case connectPlan opts of
              [] \<Rightarrow> w
            | c # cs \<Rightarrow> (issue c w)\<lparr>wLoop := LoopConnecting c cs\<rparr>)
      else w)"

text \<open>What a settled command of \<open>connect\<close> leaves in the broker.\<close>

fun opened :: "amqp_command \<Rightarrow> worker \<Rightarrow> worker" where
  "opened (Connect _ _ _) w = w\<lparr>wConnection := True\<rparr>"
| "opened CreateConfirmChannel w = w\<lparr>wBroker := (wBroker w)\<lparr>connected := True\<rparr>\<rparr>"
| "opened CreateChannel w = w\<lparr>wConsumer := True\<rparr>"
| "opened _ w = w"

text \<open>
  The continuation of the loop after a settled command of \<open>connect\<close>: the next one, or, after
  the last, the end when the worker is to stop and \<open>consume\<close> otherwise.
\<close>

definition connectSettled :: "RabbitMqOptions \<Rightarrow> error + unit \<Rightarrow> worker \<Rightarrow> worker" where
  "connectSettled opts res w =
     (case wLoop w of
        LoopConnecting c cs \<Rightarrow>
          (case res of
             Inl e \<Rightarrow> w\<lparr>wLoop := LoopDone (Inl e)\<rparr>
           | Inr _ \<Rightarrow>
               (let w1 = opened c w in
                case cs of
                  c' # cs' \<Rightarrow> (issue c' w1)\<lparr>wLoop := LoopConnecting c' cs'\<rparr>
                | [] \<Rightarrow>
                    if wStop w1 then w1\<lparr>wLoop := LoopDone (Inr ())\<rparr>
                    else if \<not> wConsumer w1 then
                      w1\<lparr>wLoop := LoopDone (Inl (OtherError (js ''RabbitMQ is not connected'')))\<rparr>
                    else (issue (Consume (rabbitName opts) False) w1)\<lparr>wLoop := LoopConsuming\<rparr>))
      | _ \<Rightarrow> w)"

definition consumeSettled :: "error + jstring \<Rightarrow> worker \<Rightarrow> worker" where
  "consumeSettled res w =
     (if wLoop w = LoopConsuming
      then (case res of
              Inl e \<Rightarrow> w\<lparr>wLoop := LoopDone (Inl e)\<rparr>
            | Inr tag \<Rightarrow> w\<lparr>wBroker := (wBroker w)\<lparr>consumerTag := Some tag\<rparr>, wLoop := LoopBody\<rparr>)
      else w)"

text \<open>
  One pass of the loop, from its condition to the end of the delay; an error of the delay counts
  only when the worker has not been asked to stop meanwhile.
\<close>

definition loopPass ::
  "error option \<Rightarrow> (bool \<times> (error + bool)) list \<Rightarrow> error option \<Rightarrow> worker \<Rightarrow> worker" where
  "loopPass maintainFails ds delayFails w =
     (if wLoop w \<noteq> LoopBody then w
      else if wStop w then w\<lparr>wLoop := LoopDone (Inr ())\<rparr>
      else case snd (loop_iteration (wBroker w) maintainFails ds) of
        Inl e \<Rightarrow> w\<lparr>wLoop := LoopDone (Inl e)\<rparr>
      | Inr _ \<Rightarrow> (case delayFails of None \<Rightarrow> w | Some e \<Rightarrow> w\<lparr>wLoop := LoopDone (Inl e)\<rparr>))"

subsection \<open>Closing\<close>

text \<open>\<open>close\<close>: the first call starts \<open>drain\<close>, up to the wait for the running tasks.\<close>

definition closeWorker :: "worker \<Rightarrow> worker" where
  "closeWorker w =
     (if wDrain w = DrainIdle
      then w\<lparr>wStop := True, wBroker := stopConsuming_begin (wBroker w), wDrain := DrainTasks\<rparr>
      else w)"

text \<open>\<open>stopConsuming\<close> from there on, with the command it issues.\<close>

definition stopConsumer :: "error option \<Rightarrow> worker \<Rightarrow> worker \<times> (error + unit)" where
  "stopConsumer cancelFails w =
     (case stopConsuming_end cancelFails (wBroker w) of
        (b, res) \<Rightarrow>
          ((case consumerTag (wBroker w) of None \<Rightarrow> w | Some tag \<Rightarrow> issue (CancelConsumer tag) w)\<lparr>wBroker := b\<rparr>, res))"

definition tasksSettled :: "error option \<Rightarrow> worker \<Rightarrow> worker" where
  "tasksSettled cancelFails w =
     (if wDrain w = DrainTasks \<and> active (wBroker w) = 0
      then (case stopConsumer cancelFails w of
              (w1, Inr _) \<Rightarrow> w1\<lparr>wDrain := DrainLoop\<rparr>
            | (w1, Inl e) \<Rightarrow> w1\<lparr>wDrain := DrainBroker (Inl e)\<rparr>)
      else w)"

text \<open>\<open>await this.running?.catch(\<dots>)\<close>\<close>

definition loopAwaited :: "worker \<Rightarrow> worker" where
  "loopAwaited w =
     (if wDrain w = DrainLoop \<and> (wLoop w = LoopIdle \<or> (\<exists>r. wLoop w = LoopDone r))
      then w\<lparr>wDrain := DrainBroker (Inr ())\<rparr> else w)"

text \<open>
  \<open>broker.close\<close> in the \<open>finally\<close> of \<open>drain\<close>: it stops the consumer once more, since a
  \<open>consume\<close> may have settled meanwhile, and closes the connection whatever that does.
\<close>

definition closeBroker :: "error option \<Rightarrow> error option \<Rightarrow> worker \<Rightarrow> worker" where
  "closeBroker cancelFails closeFails w =
     (case wDrain w of
        DrainBroker before \<Rightarrow>
          if active (wBroker w) \<noteq> 0 then w
          else
            (let w1 = w\<lparr>wBroker := stopConsuming_begin ((wBroker w)\<lparr>closing := True\<rparr>)\<rparr> in
             case stopConsumer cancelFails w1 of
               (w2, stopped) \<Rightarrow>
                 (let w3 = (if wConnection w2 then issue CloseConnection w2 else w2);
                      closed = (case closeFails of
                                  Some e \<Rightarrow> if wConnection w2 \<and> failure (wBroker w2) = None then Inl e else stopped
                                | None \<Rightarrow> stopped)
                  in w3\<lparr>wDrain := Drained (case closed of Inl e \<Rightarrow> Inl e | Inr _ \<Rightarrow> before)\<rparr>))
      | _ \<Rightarrow> w)"

subsection \<open>The machine\<close>

datatype worker_event =
    RunCalled
  | CloseCalled
  | ConnectSettled "error + unit"
  | ConsumeSettled "error + jstring"
  | LoopPass "error option" "(bool \<times> (error + bool)) list" "error option"
  | Delivery
  | TaskEnded delivery_fate
  | ConsumerCancelled
  | ConnectionError error
  | ConnectionClosed
  | TasksSettled "error option"
  | LoopAwaited
  | BrokerClosed "error option" "error option"

text \<open>The server delivers, and cancels the consumer, once \<open>consume\<close> has been issued.\<close>

definition consuming :: "worker \<Rightarrow> bool" where
  "consuming w \<longleftrightarrow> wLoop w = LoopConsuming \<or> consumerTag (wBroker w) \<noteq> None"

fun worker_step :: "RabbitMqOptions \<Rightarrow> worker \<Rightarrow> worker_event \<Rightarrow> worker" where
  "worker_step opts w RunCalled = runWorker opts w"
| "worker_step opts w CloseCalled = closeWorker w"
| "worker_step opts w (ConnectSettled res) = connectSettled opts res w"
| "worker_step opts w (ConsumeSettled res) = consumeSettled res w"
| "worker_step opts w (LoopPass mf ds df) = loopPass mf ds df w"
| "worker_step opts w Delivery =
     (if consuming w then w\<lparr>wBroker := fst (on_delivery (wBroker w))\<rparr> else w)"
| "worker_step opts w (TaskEnded fate) =
     (if active (wBroker w) = 0 then w else w\<lparr>wBroker := on_task_end fate (wBroker w)\<rparr>)"
| "worker_step opts w ConsumerCancelled =
     (if consuming w then w\<lparr>wBroker := on_consumer_cancel (wBroker w)\<rparr> else w)"
| "worker_step opts w (ConnectionError e) =
     (if wConnection w then w\<lparr>wBroker := observe_error e (wBroker w)\<rparr> else w)"
| "worker_step opts w ConnectionClosed =
     (if wConnection w then w\<lparr>wBroker := observe_close (wBroker w)\<rparr> else w)"
| "worker_step opts w (TasksSettled cf) = tasksSettled cf w"
| "worker_step opts w LoopAwaited = loopAwaited w"
| "worker_step opts w (BrokerClosed cf xf) = closeBroker cf xf w"

section \<open>Lemmas\<close>

subsection \<open>The log\<close>

text \<open>
  The commands of the loop come in the order of the protocol; what closing adds comes after
  them, when the loop issues no more.
\<close>

definition protocol :: "RabbitMqOptions \<Rightarrow> amqp_command list" where
  "protocol opts = connectPlan opts @ [Consume (rabbitName opts) False]"

fun loop_log :: "RabbitMqOptions \<Rightarrow> loop_phase \<Rightarrow> amqp_command list \<Rightarrow> bool" where
  "loop_log opts LoopIdle l = (l = [])"
| "loop_log opts (LoopConnecting c cs) l = (\<exists>pre. connectPlan opts = pre @ c # cs \<and> l = pre @ [c])"
| "loop_log opts LoopConsuming l = (l = protocol opts)"
| "loop_log opts LoopBody l = (l = protocol opts)"
| "loop_log opts (LoopDone _) l = prefix l (protocol opts)"

fun quiescent :: "loop_phase \<Rightarrow> bool" where
  "quiescent LoopBody = True"
| "quiescent (LoopDone _) = True"
| "quiescent _ = False"

fun cancelling :: "drain_phase \<Rightarrow> bool" where
  "cancelling DrainIdle = False"
| "cancelling DrainTasks = False"
| "cancelling _ = True"

definition is_drained :: "drain_phase \<Rightarrow> bool" where
  "is_drained d \<longleftrightarrow> (\<exists>r. d = Drained r)"

definition closing_log :: "amqp_command list \<Rightarrow> amqp_command list \<Rightarrow> bool" where
  "closing_log cancels ends \<longleftrightarrow>
     (cancels = [] \<or> (\<exists>tag. cancels = [CancelConsumer tag])) \<and> (ends = [] \<or> ends = [CloseConnection])"

definition log_inv :: "RabbitMqOptions \<Rightarrow> worker \<Rightarrow> bool" where
  "log_inv opts w \<longleftrightarrow>
     (\<exists>l cancels ends. wLog w = l @ cancels @ ends \<and> loop_log opts (wLoop w) l \<and> closing_log cancels ends \<and>
        (cancels \<noteq> [] \<longrightarrow> quiescent (wLoop w) \<and> consumerTag (wBroker w) = None \<and> cancelling (wDrain w)) \<and>
        (ends \<noteq> [] \<longleftrightarrow> is_drained (wDrain w) \<and> wConnection w))"

definition phase_inv :: "worker \<Rightarrow> bool" where
  "phase_inv w \<longleftrightarrow>
     (wDrain w \<noteq> DrainIdle \<longrightarrow> wStop w \<and> draining (wBroker w)) \<and>
     (cancelling (wDrain w) \<longrightarrow> active (wBroker w) = 0) \<and>
     (consumerTag (wBroker w) \<noteq> None \<longrightarrow> quiescent (wLoop w) \<and> \<not> is_drained (wDrain w)) \<and>
     ((\<exists>before. wDrain w = DrainBroker before) \<or> is_drained (wDrain w) \<longrightarrow> quiescent (wLoop w) \<or> wLoop w = LoopIdle)"

definition worker_inv :: "RabbitMqOptions \<Rightarrow> worker \<Rightarrow> bool" where
  "worker_inv opts w \<longleftrightarrow> log_inv opts w \<and> phase_inv w"

text \<open>The worker is not started once it is being closed.\<close>

definition worker_ok :: "worker \<Rightarrow> worker_event \<Rightarrow> bool" where
  "worker_ok w ev \<longleftrightarrow> (ev = RunCalled \<longrightarrow> wDrain w = DrainIdle)"

lemma stopConsuming_end_simps:
  "stopConsuming_end cf b = (b', res) \<Longrightarrow>
   consumerTag b' = None \<and> active b' = active b \<and> draining b' = draining b \<and> failure b' = failure b \<and>
   (consumerTag b = None \<longrightarrow> res = Inr ())"
  by (auto simp: stopConsuming_end_def Let_def split: if_splits option.splits)

text \<open>Steps of the environment touch neither the log nor the phases.\<close>

definition same_control :: "worker \<Rightarrow> worker \<Rightarrow> bool" where
  "same_control w w' \<longleftrightarrow>
     wLog w' = wLog w \<and> wLoop w' = wLoop w \<and> wDrain w' = wDrain w \<and> wStop w' = wStop w \<and>
     wConnection w' = wConnection w \<and> consumerTag (wBroker w') = consumerTag (wBroker w) \<and>
     draining (wBroker w') = draining (wBroker w) \<and>
     (draining (wBroker w) \<longrightarrow> active (wBroker w') \<le> active (wBroker w))"

lemma same_control_refl [simp]: "same_control w w"
  by (simp add: same_control_def)

lemma environment_same_control:
  "same_control w (worker_step opts w Delivery)"
  "same_control w (worker_step opts w (TaskEnded fate))"
  "same_control w (worker_step opts w ConsumerCancelled)"
  "same_control w (worker_step opts w (ConnectionError e))"
  "same_control w (worker_step opts w ConnectionClosed)"
  by (auto simp: same_control_def on_delivery_def on_task_end_def Let_def on_consumer_cancel_def
      observe_error_def observe_close_def split: delivery_fate.split)

lemma log_invE:
  assumes "worker_inv opts w"
  obtains l cancels ends where "wLog w = l @ cancels @ ends" "loop_log opts (wLoop w) l" "closing_log cancels ends"
    "cancels \<noteq> [] \<longrightarrow> quiescent (wLoop w) \<and> consumerTag (wBroker w) = None \<and> cancelling (wDrain w)"
    "ends \<noteq> [] \<longleftrightarrow> is_drained (wDrain w) \<and> wConnection w" "phase_inv w"
  using assms unfolding worker_inv_def log_inv_def by blast

lemma log_invI:
  assumes "wLog w = l @ cancels @ ends" "loop_log opts (wLoop w) l" "closing_log cancels ends"
    "cancels \<noteq> [] \<longrightarrow> quiescent (wLoop w) \<and> consumerTag (wBroker w) = None \<and> cancelling (wDrain w)"
    "ends \<noteq> [] \<longleftrightarrow> is_drained (wDrain w) \<and> wConnection w" "phase_inv w"
  shows "worker_inv opts w"
  using assms unfolding worker_inv_def log_inv_def by blast

lemma same_control_phase:
  assumes "phase_inv w" and "same_control w w'" shows "phase_inv w'"
proof -
  have "cancelling (wDrain w) \<Longrightarrow> active (wBroker w') = 0"
  proof -
    assume c: "cancelling (wDrain w)"
    then have "wDrain w \<noteq> DrainIdle" by auto
    with assms(1) c have "draining (wBroker w)" "active (wBroker w) = 0" unfolding phase_inv_def by blast+
    with assms(2) show "active (wBroker w') = 0" unfolding same_control_def by simp
  qed
  moreover from assms(2) have "wDrain w' = wDrain w" "wStop w' = wStop w" "wLoop w' = wLoop w"
    "draining (wBroker w') = draining (wBroker w)" "consumerTag (wBroker w') = consumerTag (wBroker w)"
    by (simp_all add: same_control_def)
  ultimately show ?thesis using assms(1) by (simp add: phase_inv_def)
qed

lemma same_control_inv:
  assumes "worker_inv opts w" and "same_control w w'"
  shows "worker_inv opts w'"
proof -
  from assms(2) have "wLog w' = wLog w" "wLoop w' = wLoop w" "wDrain w' = wDrain w"
    "wConnection w' = wConnection w" "consumerTag (wBroker w') = consumerTag (wBroker w)"
    by (simp_all add: same_control_def)
  moreover have "phase_inv w'" using assms same_control_phase unfolding worker_inv_def by blast
  ultimately show ?thesis using assms(1) by (simp add: worker_inv_def log_inv_def)
qed

text \<open>While the loop still issues commands, closing has issued none.\<close>

lemma not_quiescent_log:
  assumes "worker_inv opts w" and "\<not> quiescent (wLoop w)" and "wLoop w \<noteq> LoopIdle"
  shows "loop_log opts (wLoop w) (wLog w)" and "phase_inv w" and "\<not> is_drained (wDrain w)"
    and "consumerTag (wBroker w) = None"
proof -
  from assms(1) obtain l cancels ends where i: "wLog w = l @ cancels @ ends" "loop_log opts (wLoop w) l"
    "cancels \<noteq> [] \<longrightarrow> quiescent (wLoop w)" "ends \<noteq> [] \<longleftrightarrow> is_drained (wDrain w) \<and> wConnection w" "phase_inv w"
    by (elim log_invE) blast
  show "\<not> is_drained (wDrain w)" "consumerTag (wBroker w) = None"
    using i(5) assms(2,3) by (auto simp: phase_inv_def)
  with i assms(2) show "loop_log opts (wLoop w) (wLog w)" "phase_inv w" by auto
qed

lemma loop_only_inv:
  assumes "loop_log opts (wLoop w') (wLog w')" and "phase_inv w'" and "\<not> is_drained (wDrain w')"
  shows "worker_inv opts w'"
  by (rule log_invI [of w' "wLog w'" "[]" "[]"]) (use assms in \<open>simp_all add: closing_log_def\<close>)

lemma connectPlan_neq_Nil [simp]: "connectPlan opts \<noteq> []"
  by (simp add: connectPlan_def)

lemma runWorker_inv:
  assumes "worker_inv opts w" and "wDrain w = DrainIdle"
  shows "worker_inv opts (runWorker opts w)"
proof (cases "wLoop w = LoopIdle")
  case True
  obtain c cs where plan: "connectPlan opts = c # cs" by (cases "connectPlan opts") simp_all
  from assms obtain l cancels ends where "wLog w = l @ cancels @ ends" "l = []" "cancels = []" "ends = []" "phase_inv w"
    using True by (elim log_invE) (auto simp: is_drained_def)
  then show ?thesis
    using True assms(2) plan
    by (intro loop_only_inv) (auto simp: runWorker_def issue_def phase_inv_def is_drained_def)
qed (use assms in \<open>simp add: runWorker_def\<close>)

lemma opened_simps [simp]:
  "wLog (opened c w) = wLog w" "wLoop (opened c w) = wLoop w" "wDrain (opened c w) = wDrain w"
  "wStop (opened c w) = wStop w" "consumerTag (wBroker (opened c w)) = consumerTag (wBroker w)"
  "draining (wBroker (opened c w)) = draining (wBroker w)" "active (wBroker (opened c w)) = active (wBroker w)"
  by (cases c; simp)+

lemma connectSettled_inv:
  assumes "worker_inv opts w"
  shows "worker_inv opts (connectSettled opts res w)"
proof (cases "\<exists>c cs. wLoop w = LoopConnecting c cs")
  case True
  then obtain c cs where loop: "wLoop w = LoopConnecting c cs" by blast
  then have q: "\<not> quiescent (wLoop w)" "wLoop w \<noteq> LoopIdle" by simp_all
  note i = not_quiescent_log [OF assms q]
  from i(1) loop obtain pre where pre: "connectPlan opts = pre @ c # cs" "wLog w = pre @ [c]" by auto
  have phase: "phase_inv w'" if "wDrain w' = wDrain w" "wStop w' = wStop w" "consumerTag (wBroker w') = None"
    "draining (wBroker w') = draining (wBroker w)" "active (wBroker w') = active (wBroker w)" for w'
    using i(2-4) q that by (auto simp: phase_inv_def)
  have sofar: "prefix (wLog w) (protocol opts)" using pre by (auto simp: protocol_def prefix_def)
  have full: "cs = [] \<Longrightarrow> wLog w = connectPlan opts" using pre by simp
  have nxt: "cs = c' # cs' \<Longrightarrow> connectPlan opts = (pre @ [c]) @ c' # cs'" for c' cs' using pre(1) by simp
  show ?thesis
  proof (rule loop_only_inv)
    show "loop_log opts (wLoop (connectSettled opts res w)) (wLog (connectSettled opts res w))"
      using loop sofar full nxt pre(2)
      by (auto simp: connectSettled_def issue_def protocol_def Let_def split: sum.split list.split)
    show "phase_inv (connectSettled opts res w)" "\<not> is_drained (wDrain (connectSettled opts res w))"
      using i(3,4) loop
      by (auto intro!: phase simp: connectSettled_def issue_def Let_def split: sum.split list.split)
  qed
qed (use assms in \<open>auto simp: connectSettled_def split: loop_phase.split\<close>)

lemma consumeSettled_inv:
  assumes "worker_inv opts w"
  shows "worker_inv opts (consumeSettled res w)"
proof (cases "wLoop w = LoopConsuming")
  case True
  then have q: "\<not> quiescent (wLoop w)" "wLoop w \<noteq> LoopIdle" by simp_all
  note i = not_quiescent_log [OF assms q]
  show ?thesis
    by (rule loop_only_inv; cases res) (use i True in \<open>auto simp: consumeSettled_def phase_inv_def\<close>)
qed (use assms in \<open>simp add: consumeSettled_def\<close>)

text \<open>A change of the phases alone.\<close>

lemma phases_inv:
  assumes "worker_inv opts w" and "phase_inv w'" and "wLog w' = wLog w" and "wConnection w' = wConnection w"
    and "consumerTag (wBroker w') = consumerTag (wBroker w)" and "is_drained (wDrain w') = is_drained (wDrain w)"
    and "cancelling (wDrain w) \<Longrightarrow> cancelling (wDrain w')"
    and "wLoop w' = wLoop w \<or> wLoop w = LoopBody \<and> (\<exists>r. wLoop w' = LoopDone r)"
  shows "worker_inv opts w'"
  using assms(1)
proof (rule log_invE)
  fix l cancels ends
  assume "wLog w = l @ cancels @ ends" "loop_log opts (wLoop w) l" "closing_log cancels ends"
    "cancels \<noteq> [] \<longrightarrow> quiescent (wLoop w) \<and> consumerTag (wBroker w) = None \<and> cancelling (wDrain w)"
    "ends \<noteq> [] \<longleftrightarrow> is_drained (wDrain w) \<and> wConnection w"
  with assms(2-) show ?thesis
    by (intro log_invI [of w' l cancels ends]) auto
qed

lemma worker_inv_phase: "worker_inv opts w \<Longrightarrow> phase_inv w"
  by (simp add: worker_inv_def)

lemma loopPass_inv:
  assumes "worker_inv opts w"
  shows "worker_inv opts (loopPass mf ds df w)"
proof (cases "loopPass mf ds df w = w")
  case False
  then obtain r where body: "wLoop w = LoopBody" "loopPass mf ds df w = w\<lparr>wLoop := LoopDone r\<rparr>"
    by (auto simp: loopPass_def split: if_splits sum.splits option.splits)
  from worker_inv_phase [OF assms] have "phase_inv (w\<lparr>wLoop := LoopDone r\<rparr>)"
    by (simp add: phase_inv_def)
  then show ?thesis unfolding body(2) by (rule phases_inv [OF assms]) (simp_all add: body(1))
qed (use assms in simp)

lemma closeWorker_inv:
  assumes "worker_inv opts w"
  shows "worker_inv opts (closeWorker w)"
proof (cases "wDrain w = DrainIdle")
  case True
  from worker_inv_phase [OF assms] True have "phase_inv (closeWorker w)"
    by (simp add: phase_inv_def closeWorker_def stopConsuming_begin_def is_drained_def)
  then show ?thesis
    by (rule phases_inv [OF assms]) (simp_all add: True closeWorker_def stopConsuming_begin_def is_drained_def)
qed (use assms in \<open>simp add: closeWorker_def\<close>)

lemma loopAwaited_inv:
  assumes "worker_inv opts w"
  shows "worker_inv opts (loopAwaited w)"
proof (cases "loopAwaited w = w")
  case False
  then have *: "wDrain w = DrainLoop" "wLoop w = LoopIdle \<or> (\<exists>r. wLoop w = LoopDone r)"
    "loopAwaited w = w\<lparr>wDrain := DrainBroker (Inr ())\<rparr>"
    by (auto simp: loopAwaited_def split: if_splits)
  from worker_inv_phase [OF assms] *(1,2) have "phase_inv (w\<lparr>wDrain := DrainBroker (Inr ())\<rparr>)"
    by (auto simp: phase_inv_def is_drained_def)
  then show ?thesis unfolding *(3) by (rule phases_inv [OF assms]) (simp_all add: * is_drained_def)
qed (use assms in simp)

lemma stopConsumer_cases:
  assumes "stopConsumer cf w = (w', res)"
  obtains (nothing) "consumerTag (wBroker w) = None" "w' = w" "res = Inr ()"
  | (cancel) tag where "consumerTag (wBroker w) = Some tag" "wLog w' = wLog w @ [CancelConsumer tag]"
      "wBroker w' = (wBroker w)\<lparr>consumerTag := None\<rparr>" "wLoop w' = wLoop w" "wDrain w' = wDrain w"
      "wStop w' = wStop w" "wConnection w' = wConnection w"
proof (cases "consumerTag (wBroker w)")
  case None
  show ?thesis by (rule nothing) (use None assms in \<open>simp_all add: stopConsumer_def stopConsuming_end_def\<close>)
next
  case (Some tag)
  then show ?thesis using assms cancel
    by (auto simp: stopConsumer_def stopConsuming_end_def issue_def Let_def split: option.splits if_splits)
qed

text \<open>Stopping the consumer adds its cancellation to the log, once.\<close>

lemma stopConsumer_log:
  assumes "worker_inv opts w" and "stopConsumer cf w = (w', res)" and "\<not> is_drained (wDrain w)"
  obtains l cancels where "wLog w' = l @ cancels" "loop_log opts (wLoop w') l" "closing_log cancels []"
    "cancels \<noteq> [] \<longrightarrow> quiescent (wLoop w')" "consumerTag (wBroker w') = None"
    "wLoop w' = wLoop w" "wDrain w' = wDrain w" "wStop w' = wStop w" "wConnection w' = wConnection w"
    "active (wBroker w') = active (wBroker w)" "draining (wBroker w') = draining (wBroker w)"
    "res \<noteq> Inr () \<longrightarrow> quiescent (wLoop w')"
proof -
  from assms(1,3) obtain l cancels where i: "wLog w = l @ cancels" "loop_log opts (wLoop w) l" "closing_log cancels []"
    "cancels \<noteq> [] \<longrightarrow> quiescent (wLoop w) \<and> consumerTag (wBroker w) = None" "phase_inv w"
    by (elim log_invE) auto
  from assms(2) show ?thesis
  proof (cases rule: stopConsumer_cases)
    case nothing
    then show ?thesis using i by (intro that [of l cancels]) auto
  next
    case (cancel tag)
    moreover have "cancels = []" using i(4) cancel(1) by auto
    moreover have "quiescent (wLoop w)" using i(5) cancel(1) by (simp add: phase_inv_def)
    ultimately show ?thesis using i by (intro that [of l "[CancelConsumer tag]"]) (auto simp: closing_log_def)
  qed
qed

lemma tasksSettled_inv:
  assumes "worker_inv opts w"
  shows "worker_inv opts (tasksSettled cf w)"
proof (cases "wDrain w = DrainTasks \<and> active (wBroker w) = 0")
  case True
  obtain w' res where stop: "stopConsumer cf w = (w', res)" by fastforce
  from True have nd: "\<not> is_drained (wDrain w)" by (simp add: is_drained_def)
  from stopConsumer_log [OF assms stop nd] obtain l cancels where s:
    "wLog w' = l @ cancels" "loop_log opts (wLoop w') l" "closing_log cancels []"
    "cancels \<noteq> [] \<longrightarrow> quiescent (wLoop w')" "consumerTag (wBroker w') = None"
    "wLoop w' = wLoop w" "wDrain w' = wDrain w" "wStop w' = wStop w" "wConnection w' = wConnection w"
    "active (wBroker w') = active (wBroker w)" "draining (wBroker w') = draining (wBroker w)"
    "res \<noteq> Inr () \<longrightarrow> quiescent (wLoop w')" by metis
  define d where "d = (case res of Inr _ \<Rightarrow> DrainLoop | Inl e \<Rightarrow> DrainBroker (Inl e))"
  have w'': "tasksSettled cf w = w'\<lparr>wDrain := d\<rparr>"
    using True stop by (simp add: tasksSettled_def d_def split: sum.split)
  have d: "cancelling d" "\<not> is_drained d" "d \<noteq> DrainIdle" "(\<exists>before. d = DrainBroker before) \<Longrightarrow> quiescent (wLoop w')"
    using s(12) by (auto simp: d_def is_drained_def split: sum.splits)
  have "phase_inv (w'\<lparr>wDrain := d\<rparr>)"
    using worker_inv_phase [OF assms] True s d by (auto simp: phase_inv_def)
  then show ?thesis unfolding w''
    by (intro log_invI [of _ l cancels "[]"]) (use s d in auto)
qed (use assms in \<open>auto simp: tasksSettled_def\<close>)

lemma closeBroker_inv:
  assumes "worker_inv opts w"
  shows "worker_inv opts (closeBroker cf xf w)"
proof (cases "\<exists>before. wDrain w = DrainBroker before \<and> active (wBroker w) = 0")
  case True
  then obtain before where b: "wDrain w = DrainBroker before" "active (wBroker w) = 0" by blast
  define w1 where "w1 = w\<lparr>wBroker := stopConsuming_begin ((wBroker w)\<lparr>closing := True\<rparr>)\<rparr>"
  have ph: "wStop w" "quiescent (wLoop w) \<or> wLoop w = LoopIdle" "draining (wBroker w)"
    using worker_inv_phase [OF assms] b(1) by (auto simp: phase_inv_def)
  have "same_control w w1" using ph by (simp add: w1_def same_control_def stopConsuming_begin_def)
  from same_control_inv [OF assms this] have i1: "worker_inv opts w1" .
  obtain w' res where stop: "stopConsumer cf w1 = (w', res)" by fastforce
  have nd: "\<not> is_drained (wDrain w1)" by (simp add: w1_def b is_drained_def)
  from stopConsumer_log [OF i1 stop nd] obtain l cancels where s:
    "wLog w' = l @ cancels" "loop_log opts (wLoop w') l" "closing_log cancels []"
    "cancels \<noteq> [] \<longrightarrow> quiescent (wLoop w')" "consumerTag (wBroker w') = None"
    "wLoop w' = wLoop w1" "wStop w' = wStop w1"
    "active (wBroker w') = active (wBroker w1)" "draining (wBroker w') = draining (wBroker w1)" by metis
  have "\<exists>r. closeBroker cf xf w = (if wConnection w' then issue CloseConnection w' else w')\<lparr>wDrain := Drained r\<rparr>"
    using b stop by (auto simp: closeBroker_def w1_def Let_def)
  then obtain r where w'': "closeBroker cf xf w = (if wConnection w' then issue CloseConnection w' else w')\<lparr>wDrain := Drained r\<rparr>" ..
  have "phase_inv (closeBroker cf xf w)"
    unfolding w'' using s b ph by (auto simp: phase_inv_def is_drained_def issue_def w1_def stopConsuming_begin_def)
  then show ?thesis
    by (intro log_invI [of _ l cancels "if wConnection w' then [CloseConnection] else []"])
      (use s in \<open>auto simp: w'' issue_def is_drained_def closing_log_def\<close>)
qed (use assms in \<open>auto simp: closeBroker_def split: drain_phase.split\<close>)

lemma worker_inv_step: "worker_inv opts w \<Longrightarrow> worker_ok w ev \<Longrightarrow> worker_inv opts (worker_step opts w ev)"
  using environment_same_control same_control_inv
  by (cases ev) (auto simp: worker_ok_def runWorker_inv connectSettled_inv consumeSettled_inv loopPass_inv
      closeWorker_inv tasksSettled_inv loopAwaited_inv closeBroker_inv simp del: worker_step.simps(6-10))

interpretation worker: stepwise_invariant "worker_step opts" "worker_inv opts" worker_ok for opts
  by unfold_locales (rule worker_inv_step)

lemma newWorker_inv: "worker_inv opts newWorker"
  by (rule loop_only_inv) (simp_all add: newWorker_def newBroker_def phase_inv_def is_drained_def)

subsection \<open>Progress of a drain\<close>

fun loop_rank :: "loop_phase \<Rightarrow> nat" where
  "loop_rank (LoopConnecting _ cs) = 3 + length cs"
| "loop_rank LoopConsuming = 2"
| "loop_rank LoopBody = 1"
| "loop_rank _ = 0"

fun drain_rank :: "drain_phase \<Rightarrow> nat" where
  "drain_rank DrainIdle = 4"
| "drain_rank DrainTasks = 3"
| "drain_rank DrainLoop = 2"
| "drain_rank (DrainBroker _) = 1"
| "drain_rank (Drained _) = 0"

definition drain_measure :: "worker \<Rightarrow> nat" where
  "drain_measure w = active (wBroker w) + loop_rank (wLoop w) + drain_rank (wDrain w)"

text \<open>The events a closing worker waits for.\<close>

fun awaited :: "worker \<Rightarrow> worker_event \<Rightarrow> bool" where
  "awaited w (TaskEnded _) = (active (wBroker w) \<noteq> 0)"
| "awaited w (ConnectSettled _) = (\<exists>c cs. wLoop w = LoopConnecting c cs)"
| "awaited w (ConsumeSettled _) = (wLoop w = LoopConsuming)"
| "awaited w (LoopPass _ _ _) = (wLoop w = LoopBody)"
| "awaited w (TasksSettled _) = (wDrain w = DrainTasks \<and> active (wBroker w) = 0)"
| "awaited w LoopAwaited = (wDrain w = DrainLoop \<and> (wLoop w = LoopIdle \<or> (\<exists>r. wLoop w = LoopDone r)))"
| "awaited w (BrokerClosed _ _) = (\<exists>before. wDrain w = DrainBroker before)"
| "awaited w _ = False"

lemma stopConsumer_measure:
  "stopConsumer cf w = (w', res) \<Longrightarrow> active (wBroker w') = active (wBroker w) \<and> wLoop w' = wLoop w"
  by (elim stopConsumer_cases) auto

lemma awaited_measure:
  assumes "phase_inv w" and "wDrain w \<noteq> DrainIdle" and "awaited w ev"
  shows "drain_measure (worker_step opts w ev) < drain_measure w"
  using assms(3)
proof (cases ev)
  case (TasksSettled cf)
  obtain w' res where "stopConsumer cf w = (w', res)" by fastforce
  with TasksSettled assms(3) stopConsumer_measure show ?thesis
    by (auto simp: drain_measure_def tasksSettled_def split: sum.split)
next
  case (BrokerClosed cf xf)
  then obtain before where "wDrain w = DrainBroker before" "active (wBroker w) = 0"
    using assms by (auto simp: phase_inv_def)
  moreover obtain w' res where "stopConsumer cf (w\<lparr>wBroker := stopConsuming_begin ((wBroker w)\<lparr>closing := True\<rparr>)\<rparr>) = (w', res)"
    by fastforce
  ultimately show ?thesis using BrokerClosed stopConsumer_measure
    by (fastforce simp: drain_measure_def closeBroker_def Let_def issue_def stopConsuming_begin_def)
next
  case (ConnectSettled res)
  then show ?thesis using assms
    by (auto simp: drain_measure_def connectSettled_def phase_inv_def Let_def issue_def split: sum.split list.split)
next
  case (LoopPass mf ds df)
  then show ?thesis using assms by (auto simp: drain_measure_def loopPass_def phase_inv_def)
next
  case (ConsumeSettled res)
  then show ?thesis using assms(3) by (auto simp: drain_measure_def consumeSettled_def split: sum.split)
qed (use assms(3) in \<open>auto simp: drain_measure_def on_task_end_def loopAwaited_def Let_def split: delivery_fate.split\<close>)

lemma unawaited_same:
  assumes "phase_inv w" and "wDrain w \<noteq> DrainIdle" and "\<not> awaited w ev" and "ev \<noteq> RunCalled"
  shows "drain_measure (worker_step opts w ev) = drain_measure w"
proof -
  have "draining (wBroker w)" using assms(1,2) by (simp add: phase_inv_def)
  then show ?thesis using assms(2-)
    by (cases ev) (auto simp: drain_measure_def connectSettled_def consumeSettled_def loopPass_def closeWorker_def
        tasksSettled_def loopAwaited_def closeBroker_def on_delivery_def on_consumer_cancel_def observe_error_def
        observe_close_def split: loop_phase.split drain_phase.split)
qed

lemma awaits_something:
  assumes "phase_inv w" and "wDrain w \<noteq> DrainIdle" and "\<not> is_drained (wDrain w)"
  shows "(\<forall>fate. awaited w (TaskEnded fate)) \<or> (\<forall>res. awaited w (ConnectSettled res)) \<or>
    (\<forall>res. awaited w (ConsumeSettled res)) \<or> (\<forall>mf ds df. awaited w (LoopPass mf ds df)) \<or>
    (\<forall>cf. awaited w (TasksSettled cf)) \<or> awaited w LoopAwaited \<or> (\<forall>cf xf. awaited w (BrokerClosed cf xf))"
  using assms by (cases "wDrain w"; cases "wLoop w") (auto simp: is_drained_def)

text \<open>How many of the events of a run the worker was waiting for.\<close>

fun settlements :: "RabbitMqOptions \<Rightarrow> worker \<Rightarrow> worker_event list \<Rightarrow> nat" where
  "settlements opts w [] = 0"
| "settlements opts w (ev # evs) =
     (if awaited w ev then 1 else 0) + settlements opts (worker_step opts w ev) evs"

lemma closing_stays: "wDrain w \<noteq> DrainIdle \<Longrightarrow> wDrain (worker_step opts w ev) \<noteq> DrainIdle"
  by (cases ev)
    (auto simp: runWorker_def connectSettled_def consumeSettled_def loopPass_def closeWorker_def tasksSettled_def
      loopAwaited_def closeBroker_def issue_def Let_def
      split: loop_phase.split sum.split list.split option.split prod.split drain_phase.split)

lemma settlements_bound:
  assumes "worker_inv opts w" and "wDrain w \<noteq> DrainIdle" and "RunCalled \<notin> set evs"
  shows "drain_measure (run (worker_step opts) w evs) + settlements opts w evs \<le> drain_measure w"
  using assms
proof (induction evs arbitrary: w)
  case (Cons ev evs)
  have ok: "worker_ok w ev" using Cons.prems(3) by (auto simp: worker_ok_def)
  have "drain_measure (worker_step opts w ev) + (if awaited w ev then 1 else 0) \<le> drain_measure w"
    using awaited_measure [OF worker_inv_phase [OF Cons.prems(1)] Cons.prems(2), of ev opts]
      unawaited_same [OF worker_inv_phase [OF Cons.prems(1)] Cons.prems(2), of ev opts] Cons.prems(3)
    by (cases "awaited w ev") auto
  with Cons.IH [OF worker_inv_step [OF Cons.prems(1) ok] closing_stays [OF Cons.prems(2)]] Cons.prems(3)
  show ?case by simp
qed simp

lemma drain_measure_0: "drain_measure w = 0 \<Longrightarrow> is_drained (wDrain w)"
  by (cases "wDrain w") (simp_all add: drain_measure_def is_drained_def)

lemma worker_reachable_inv:
  assumes "\<forall>pre ev post. evs = pre @ ev # post \<longrightarrow> worker_ok (run (worker_step opts) newWorker pre) ev"
  shows "worker_inv opts (run (worker_step opts) newWorker evs)"
  using worker.run_inv [OF newWorker_inv] assms by blast

section \<open>Properties\<close>

text \<open>
  C18: a worker starts and stops its broker connection in order. In every run that does not start
  the worker after it was asked to close, the commands it has issued are a prefix of the
  protocol (connect, both channels, the dead-letter queue before the queue that names it,
  prefetch, consume), then at most one cancellation of the consumer, then at most one close of the
  connection; the consumer is cancelled and the connection closed only while draining with no
  task running; and a drained worker has no consumer and no open connection left, also when
  \<open>consume\<close> settled while it was closing.
\<close>

theorem worker_shutdown_order:
  assumes "\<forall>pre ev post. evs = pre @ ev # post \<longrightarrow> worker_ok (run (worker_step opts) newWorker pre) ev"
    and "w = run (worker_step opts) newWorker evs"
  shows "\<exists>issued cancels ends. wLog w = issued @ cancels @ ends \<and>
    prefix issued (connectPlan opts @ [Consume (rabbitName opts) False]) \<and>
    (cancels = [] \<or> (\<exists>tag. cancels = [CancelConsumer tag])) \<and> (ends = [] \<or> ends = [CloseConnection]) \<and>
    (cancels \<noteq> [] \<or> ends \<noteq> [] \<longrightarrow> draining (wBroker w) \<and> active (wBroker w) = 0) \<and>
    (\<forall>r. wDrain w = Drained r \<longrightarrow> consumerTag (wBroker w) = None \<and> (wConnection w \<longrightarrow> ends = [CloseConnection]))"
proof -
  from worker_reachable_inv [OF assms(1)] obtain l cancels ends where i: "wLog w = l @ cancels @ ends"
    "loop_log opts (wLoop w) l" "closing_log cancels ends" "cancels \<noteq> [] \<longrightarrow> cancelling (wDrain w)"
    "ends \<noteq> [] \<longleftrightarrow> is_drained (wDrain w) \<and> wConnection w" "phase_inv w"
    unfolding assms(2) [symmetric] by (elim log_invE) blast
  have "prefix l (connectPlan opts @ [Consume (rabbitName opts) False])"
    using i(2) by (cases "wLoop w") (auto simp: protocol_def prefix_def)
  moreover have "cancels \<noteq> [] \<or> ends \<noteq> [] \<Longrightarrow> cancelling (wDrain w) \<and> wDrain w \<noteq> DrainIdle"
    using i(4,5) by (auto simp: is_drained_def)
  moreover have "wDrain w = Drained r \<Longrightarrow> consumerTag (wBroker w) = None \<and> (wConnection w \<longrightarrow> ends = [CloseConnection])" for r
    using i(3,5,6) by (auto simp: phase_inv_def is_drained_def closing_log_def)
  moreover have "cancelling (wDrain w) \<and> wDrain w \<noteq> DrainIdle \<Longrightarrow> draining (wBroker w) \<and> active (wBroker w) = 0"
    using i(6) by (simp add: phase_inv_def)
  ultimately show ?thesis using i(1,3) unfolding closing_log_def by blast
qed

definition demo_rabbit :: RabbitMqOptions where
  "demo_rabbit = \<lparr>rabbitUrl = js ''amqp://localhost'', rabbitQuery = [], rabbitName = js ''q'', rabbitConcurrency = 2\<rparr>"

definition demo_lifetime :: "worker_event list" where
  "demo_lifetime = RunCalled # replicate 6 (ConnectSettled (Inr ())) @
     [CloseCalled, TasksSettled None, ConsumeSettled (Inr (js ''tag'')), LoopPass None [] None, LoopAwaited,
      BrokerClosed None None]"

lemma demo_lifetime_ok:
  assumes "demo_lifetime = pre @ ev # post"
  shows "worker_ok (run (worker_step demo_rabbit) newWorker pre) ev"
proof (cases pre)
  case Nil
  then show ?thesis by (simp add: worker_ok_def newWorker_def)
next
  case (Cons x xs)
  with assms have "tl demo_lifetime = xs @ ev # post" by (metis append_Cons list.sel(3))
  moreover have "RunCalled \<notin> set (tl demo_lifetime)" by (simp add: demo_lifetime_def)
  ultimately have "ev \<noteq> RunCalled" by auto
  then show ?thesis by (simp add: worker_ok_def)
qed

lemma worker_shutdown_order_witness:
  "\<exists>w issued. w = run (worker_step demo_rabbit) newWorker demo_lifetime \<and>
     wLog w = issued @ [CancelConsumer (js ''tag''), CloseConnection]"
proof -
  define w where "w = run (worker_step demo_rabbit) newWorker demo_lifetime"
  have log: "wLog w = connectPlan demo_rabbit @ [Consume (js ''q'') False, CancelConsumer (js ''tag''), CloseConnection]"
    by (simp add: w_def demo_lifetime_def newWorker_def newBroker_def runWorker_def connectPlan_def connectSettled_def
        issue_def closeWorker_def tasksSettled_def stopConsumer_def stopConsuming_end_def stopConsuming_begin_def
        consumeSettled_def loopPass_def loopAwaited_def closeBroker_def demo_rabbit_def numeral_eq_Suc)
  from worker_shutdown_order [OF _ w_def] demo_lifetime_ok obtain issued cancels ends where
    "wLog w = issued @ cancels @ ends" by blast
  with log show ?thesis unfolding w_def by auto
qed



end
