(* ===== verification/Stream_Parser.thy ===== *)
theory Stream_Parser
  imports Utf8 App_Errors Json
begin

text \<open>
  The stream parser of \<open>src/providers/stream-parser.ts\<close>: bytes arrive in network chunks of any
  size, are decoded incrementally and cut into lines (\<open>readLines\<close>) or server-sent events
  (\<open>readSseData\<close>). A generator is the list of what it yields with the way it ends; a consumer
  that stops early ignores the rest. The events of the environment are the outcomes of
  \<open>reader.read()\<close>; \<open>SignalAborted\<close> is an abort of the signal seen by \<open>throwIfAborted\<close> before or
  during a read. An exhausted list of events is a read that has not settled yet. The reader is
  cancelled and its lock released on every exit, so that part of \<open>finally\<close> is left out.
\<close>

section \<open>Definitions\<close>

definition MAX_FRAME_SIZE :: nat where
  "MAX_FRAME_SIZE = 65536"

datatype read_event = ReadPart "byte list" | ReadEnd | ReadFailed | SignalAborted error

datatype gen_end = GenDone | GenThrew error | GenWaiting

type_synonym generated = "jstring list \<times> gen_end"

definition after :: "jstring list \<Rightarrow> generated \<Rightarrow> generated" where
  "after ys g = (ys @ fst g, snd g)"

abbreviation bad_response :: "jstring \<Rightarrow> error" where
  "bad_response prov \<equiv> App (ProviderResponseError prov)"

definition parseStreamJson :: "jstring \<Rightarrow> jstring \<Rightarrow> error + json" where
  "parseStreamJson s prov =
     (case json_parse s of
        None \<Rightarrow> Inl (bad_response prov)
      | Some v \<Rightarrow> if isObject v then Inr v else Inl (bad_response prov))"

text \<open>\<open>pending.endsWith("\r") ? pending.slice(0, -1) : pending\<close>\<close>

definition strip_cr :: "jstring \<Rightarrow> jstring" where
  "strip_cr s = (if s \<noteq> [] \<and> last s = 13 then butlast s else s)"

text \<open>
  The scan of one decoded part: \<open>piece\<close> is what lies between \<open>start\<close> and \<open>index\<close>. The second
  component is the new \<open>pending\<close>, or \<open>None\<close> when a line is too long.
\<close>

fun scan :: "jstring \<Rightarrow> jstring \<Rightarrow> jstring \<Rightarrow> jstring list \<times> jstring option" where
  "scan pending piece [] =
     (let p = pending @ piece in ([], if length p > MAX_FRAME_SIZE then None else Some p))"
| "scan pending piece (u # us) =
     (if u \<noteq> 10 then scan pending (piece @ [u]) us
      else let p = pending @ piece in
        if length p > MAX_FRAME_SIZE then ([], None)
        else let (ls, r) = scan [] [] us in (strip_cr p # ls, r))"

fun read_loop :: "jstring \<Rightarrow> decoder \<Rightarrow> jstring \<Rightarrow> read_event list \<Rightarrow> generated" where
  "read_loop prov d pending [] = ([], GenWaiting)"
| "read_loop prov d pending (SignalAborted e # evs) = ([], GenThrew e)"
| "read_loop prov d pending (ReadFailed # evs) = ([], GenThrew (App (ProviderConnectionError prov)))"
| "read_loop prov d pending (ReadPart bytes # evs) =
     (case decode d bytes of
        None \<Rightarrow> ([], GenThrew (bad_response prov))
      | Some (d', decoded) \<Rightarrow>
          (case scan pending [] decoded of
             (ls, None) \<Rightarrow> (ls, GenThrew (bad_response prov))
           | (ls, Some pending') \<Rightarrow> after ls (read_loop prov d' pending' evs)))"
| "read_loop prov d pending (ReadEnd # evs) =
     (if \<not> decode_flush d then ([], GenThrew (bad_response prov))
      else case scan pending [] [] of
        (ls, None) \<Rightarrow> (ls, GenThrew (bad_response prov))
      | (ls, Some pending') \<Rightarrow>
          (ls @ (if pending' \<noteq> [] then [strip_cr pending'] else []), GenDone))"

definition readLines :: "jstring \<Rightarrow> bool \<Rightarrow> read_event list \<Rightarrow> generated" where
  "readLines prov hasBody evs =
     (if \<not> hasBody then ([], GenThrew (bad_response prov))
      else read_loop prov new_decoder [] evs)"

fun join_lines :: "jstring list \<Rightarrow> jstring" where
  "join_lines [] = []"
| "join_lines [x] = x"
| "join_lines (x # y # xs) = x @ [10] @ join_lines (y # xs)"

text \<open>\<open>line.slice(5).replace(/^ /, "")\<close>\<close>

definition data_value :: "jstring \<Rightarrow> jstring" where
  "data_value line =
     (let v = drop 5 line in if v \<noteq> [] \<and> hd v = 32 then tl v else v)"

fun sse_loop :: "jstring \<Rightarrow> jstring list \<Rightarrow> nat \<Rightarrow> jstring list \<Rightarrow> gen_end \<Rightarrow> generated" where
  "sse_loop prov data sz [] e = ([], e)"
| "sse_loop prov data sz (line # ls) e =
     (if line = [] then
        after (if data \<noteq> [] then [join_lines data] else []) (sse_loop prov [] 0 ls e)
      else if take 5 line = js ''data:'' then
        (let v = data_value line; sz' = sz + length v + 1 in
         if sz' > MAX_FRAME_SIZE then ([], GenThrew (bad_response prov))
         else sse_loop prov (data @ [v]) sz' ls e)
      else sse_loop prov data sz ls e)"

definition readSseData :: "jstring \<Rightarrow> bool \<Rightarrow> read_event list \<Rightarrow> generated" where
  "readSseData prov hasBody evs =
     (case readLines prov hasBody evs of (ls, e) \<Rightarrow> sse_loop prov [] 0 ls e)"

subsection \<open>Reference: the lines of a whole text\<close>

fun split_nl :: "jstring \<Rightarrow> jstring list" where
  "split_nl [] = [[]]"
| "split_nl (u # us) =
     (if u = 10 then [] # split_nl us
      else case split_nl us of [] \<Rightarrow> [[u]] | l # ls \<Rightarrow> (u # l) # ls)"

definition fits :: "jstring \<Rightarrow> bool" where
  "fits l \<longleftrightarrow> length l \<le> MAX_FRAME_SIZE"

definition drop_last_empty :: "jstring list \<Rightarrow> jstring list" where
  "drop_last_empty ls = (if ls \<noteq> [] \<and> last ls = [] then butlast ls else ls)"

definition lines_of :: "jstring \<Rightarrow> jstring \<Rightarrow> generated" where
  "lines_of prov s =
     (let ls = split_nl s in
      if list_all fits ls then (map strip_cr (drop_last_empty ls), GenDone)
      else (map strip_cr (takeWhile fits ls), GenThrew (bad_response prov)))"

section \<open>Lemmas\<close>

lemma after_Nil [simp]: "after [] g = g"
  by (simp add: after_def)

lemma after_after [simp]: "after xs (after ys g) = after (xs @ ys) g"
  by (simp add: after_def)

lemma fst_after [simp]: "fst (after xs g) = xs @ fst g" and snd_after [simp]: "snd (after xs g) = snd g"
  by (simp_all add: after_def)

lemma scan_overlong:
  "length (p @ sl) > MAX_FRAME_SIZE \<Longrightarrow> scan p sl us = ([], None)"
  by (induction us arbitrary: sl) auto

lemma scan_slice: "scan p (sl @ ts) us = scan (p @ sl) ts us"
  by (induction us arbitrary: ts) auto

text \<open>Scanning two parts one after the other is scanning them as one.\<close>

lemma scan_append:
  "scan p sl (xs @ ys) =
     (case scan p sl xs of
        (ls, None) \<Rightarrow> (ls, None)
      | (ls, Some p') \<Rightarrow> (ls @ fst (scan p' [] ys), snd (scan p' [] ys)))"
proof (induction xs arbitrary: p sl)
  case Nil
  then show ?case
    using scan_overlong [of p sl ys] scan_slice [of p sl "[]" ys] by (simp add: Let_def)
next
  case (Cons u xs)
  then show ?case by (auto simp: Let_def split_beta split: option.split)
qed

lemma split_nl_neq_Nil [simp]: "split_nl s \<noteq> []"
  by (cases s) (auto split: list.split)

lemma split_nl_append:
  "split_nl (xs @ ys) = butlast (split_nl xs) @ (last (split_nl xs) @ hd (split_nl ys)) # tl (split_nl ys)"
proof (induction xs)
  case Nil
  then show ?case by (cases "split_nl ys") simp_all
next
  case (Cons u xs)
  then show ?case by (cases "split_nl xs") (auto split: list.split)
qed

text \<open>The scan against the reference: the lines that are complete, and the unfinished rest.\<close>

lemma scan_split:
  assumes "split_nl us = l # ls"
  shows "scan p sl us =
    (let full = (p @ sl @ l) # ls in
     if list_all fits full then (map strip_cr (butlast full), Some (last full))
     else (map strip_cr (takeWhile fits full), None))"
  using assms
proof (induction us arbitrary: p sl l ls)
  case Nil
  then show ?case by (auto simp: fits_def)
next
  case (Cons u us)
  show ?case
  proof (cases "u = 10")
    case True
    obtain m ms where m: "split_nl us = m # ms" by (cases "split_nl us") auto
    with Cons.prems True have "l = []" "ls = m # ms" by auto
    with True Cons.IH [OF m, of "[]" "[]"] show ?thesis by (auto simp: fits_def Let_def)
  next
    case False
    with Cons.prems obtain m where m: "split_nl us = m # ls" "l = u # m"
      by (auto split: list.splits)
    with False Cons.IH [OF m(1), of p "sl @ [u]"] show ?thesis by simp
  qed
qed

lemma read_loop_parts:
  assumes "decode d (concat parts) = Some (d', s)" "decode_flush d'"
  shows "read_loop prov d p (map ReadPart parts @ [ReadEnd]) =
    (case scan p [] s of
       (ls, None) \<Rightarrow> (ls, GenThrew (bad_response prov))
     | (ls, Some q) \<Rightarrow> (ls @ (if q \<noteq> [] then [strip_cr q] else []), GenDone))"
  using assms(1)
proof (induction parts arbitrary: d p s)
  case Nil
  with assms(2) show ?case by (simp add: Let_def)
next
  case (Cons bs parts)
  then obtain e a t where e: "decode d bs = Some (e, a)" "decode e (concat parts) = Some (d', t)"
    "s = a @ t"
    by (auto simp: decode_append split: option.splits)
  show ?case
  proof (cases "scan p [] a")
    case (Pair ls r)
    then show ?thesis
    proof (cases r)
      case None
      with e Pair show ?thesis by (simp add: scan_append)
    next
      case (Some q)
      with e Pair Cons.IH [OF e(2), of q] show ?thesis
        by (cases "scan q [] t") (auto simp: scan_append after_def split: option.split)
    qed
  qed
qed

lemma map_butlast_last: "xs \<noteq> [] \<Longrightarrow> map f (butlast xs) @ [f (last xs)] = map f xs"
  by (induction xs) auto

lemma readLines_parts:
  assumes "decode_all (concat parts) = Some s"
  shows "readLines prov True (map ReadPart parts @ [ReadEnd]) = lines_of prov s"
proof -
  from assms obtain d where d: "decode new_decoder (concat parts) = Some (d, s)" "decode_flush d"
    by (auto simp: decode_all_def split: option.splits if_splits)
  obtain l ls where l: "split_nl s = l # ls" by (cases "split_nl s") auto
  show ?thesis
    using read_loop_parts [OF d, of prov "[]"] scan_split [OF l, of "[]" "[]"] l
    by (auto simp: readLines_def lines_of_def drop_last_empty_def Let_def map_butlast_last)
qed

section \<open>Properties\<close>

text \<open>
  C15: Reading a response line by line does not depend on how the network cuts it: for every
  division of a validly encoded body into chunks, \<open>readLines\<close> yields the lines of the decoded
  text (less a carriage return before the line feed, with a last unterminated line), or, when a
  line exceeds \<open>MAX_FRAME_SIZE\<close>, exactly the lines before it and then fails.
\<close>

theorem readLines_chunking:
  assumes "decode_all bytes = Some s" and "concat parts = bytes"
  shows "readLines prov True (map ReadPart parts @ [ReadEnd]) = lines_of prov s"
  using assms readLines_parts by blast

theorem readLines_chunking_witness:
  "readLines (js ''Ollama'') True (map ReadPart [[0x61, 0xC3], [0xA9, 0x0D], [0x0A, 0x62]] @ [ReadEnd]) =
     lines_of (js ''Ollama'') [0x61, 0xE9, 0x0D, 0x0A, 0x62] \<and>
   lines_of (js ''Ollama'') [0x61, 0xE9, 0x0D, 0x0A, 0x62] = ([[0x61, 0xE9], [0x62]], GenDone)"
proof
  have "decode_all [0x61, 0xC3, 0xA9, 0x0D, 0x0A, 0x62] = Some [0x61, 0xE9, 0x0D, 0x0A, 0x62]"
    by (simp add: decode_all_def decode_byte_def new_decoder_def emit_def utf16_def decode_flush_def)
  then show "readLines (js ''Ollama'') True (map ReadPart [[0x61, 0xC3], [0xA9, 0x0D], [0x0A, 0x62]] @ [ReadEnd]) =
     lines_of (js ''Ollama'') [0x61, 0xE9, 0x0D, 0x0A, 0x62]"
    by (rule readLines_chunking) simp
  show "lines_of (js ''Ollama'') [0x61, 0xE9, 0x0D, 0x0A, 0x62] = ([[0x61, 0xE9], [0x62]], GenDone)"
    by (simp add: lines_of_def Let_def fits_def MAX_FRAME_SIZE_def drop_last_empty_def strip_cr_def)
qed

end
