(* ===== verification/Sse.thy ===== *)
theory Sse
  imports Stream_Parser Wire_Text
begin

text \<open>
  The server-sent events of \<open>src/routes/sse.ts\<close>: the frame of an event, and \<open>writeSse\<close> as the
  machine that waits for a full socket buffer to drain. The response and the signal are the
  environment: \<open>writeSse\<close> takes the outcome of \<open>response.write\<close> and the events emitted while it
  runs, \<open>sse_on\<close> takes one later event. Handing a frame to \<open>response.write\<close> is the only effect
  on the wire.
\<close>

section \<open>Definitions\<close>

datatype sse_event = DeltaEvent | DoneEvent | ErrorEvent

fun sse_event_name :: "sse_event \<Rightarrow> string" where
  "sse_event_name DeltaEvent = ''delta''"
| "sse_event_name DoneEvent = ''done''"
| "sse_event_name ErrorEvent = ''error''"

definition sse_frame :: "sse_event \<Rightarrow> json \<Rightarrow> jstring" where
  "sse_frame event data =
     js ''event: '' @ js (sse_event_name event) @ [10] @ js ''data: '' @ stringify data @ [10, 10]"

record sse_write =
  sent :: "jstring option"
  settled :: "(error + unit) option"
  listening :: bool
  timerArmed :: bool

datatype write_outcome = WriteFlushed | WriteBuffered | WriteThrew

datatype sse_signal = Drain | ResponseClose | ResponseError | SignalAbort | WriteTimeout

definition finish :: "error + unit \<Rightarrow> sse_write \<Rightarrow> sse_write" where
  "finish res w =
     (if settled w \<noteq> None then w
      else w\<lparr>settled := Some res, timerArmed := False, listening := False\<rparr>)"

definition onDrain :: "sse_write \<Rightarrow> sse_write" where
  "onDrain w = finish (Inr ()) w"

definition onClose :: "sse_write \<Rightarrow> sse_write" where
  "onClose w = finish (Inl RequestAbortedError) w"

text \<open>An emitted event reaches a handler while the handlers are registered, the timer while it is armed.\<close>

definition sse_on :: "sse_write \<Rightarrow> sse_signal \<Rightarrow> sse_write" where
  "sse_on w sig =
     (case sig of
        Drain \<Rightarrow> if listening w then onDrain w else w
      | WriteTimeout \<Rightarrow> if timerArmed w then onClose w else w
      | _ \<Rightarrow> if listening w then onClose w else w)"

definition writeSse ::
  "bool \<Rightarrow> bool \<Rightarrow> sse_event \<Rightarrow> json \<Rightarrow> sse_signal list \<Rightarrow> write_outcome \<Rightarrow> error + sse_write" where
  "writeSse aborted destroyed event data during outcome =
     (case throwIfCancelled aborted of
        Inl e \<Rightarrow> Inl e
      | Inr _ \<Rightarrow>
          (let w = \<lparr>sent = None, settled = None, listening = True, timerArmed = False\<rparr> in
           if destroyed \<or> aborted then Inr (onClose w)
           else
             (let w1 = run sse_on (w\<lparr>sent := Some (sse_frame event data)\<rparr>) during in
              Inr (case outcome of
                     WriteFlushed \<Rightarrow> finish (Inr ()) w1
                   | WriteBuffered \<Rightarrow> if settled w1 = None then w1\<lparr>timerArmed := True\<rparr> else w1
                   | WriteThrew \<Rightarrow> onClose w1))))"

section \<open>Lemmas\<close>

subsection \<open>Reading frames back\<close>

lemma split_nl_line: "10 \<notin> set l \<Longrightarrow> split_nl (l @ 10 # s) = l # split_nl s"
  by (induction l) auto

lemma clean_no_nl: "clean s \<Longrightarrow> 10 \<notin> set s"
  by (auto simp: clean_def)

lemma clean_strip_cr: "clean s \<Longrightarrow> strip_cr s = s"
  using last_in_set [of s] by (fastforce simp: clean_def strip_cr_def)

definition frame_lines :: "sse_event \<Rightarrow> json \<Rightarrow> jstring list" where
  "frame_lines event data =
     [js ''event: '' @ js (sse_event_name event), js ''data: '' @ stringify data, []]"

lemma frame_fields_clean:
  "clean (js ''event: '' @ js (sse_event_name ev))" "clean (js ''data: '' @ stringify v)"
  by (cases ev) (auto intro!: clean_append clean_stringify clean_js)

lemma frame_lines_clean: "l \<in> set (frame_lines ev v) \<Longrightarrow> clean l"
  using frame_fields_clean(1) [of ev] frame_fields_clean(2) [of v] by (auto simp: frame_lines_def)

lemma split_nl_frame: "split_nl (sse_frame ev v @ s) = frame_lines ev v @ split_nl s"
proof -
  have nl: "10 \<notin> set (js ''event: '' @ js (sse_event_name ev))" "10 \<notin> set (js ''data: '' @ stringify v)"
    by (rule clean_no_nl [OF frame_fields_clean(1)], rule clean_no_nl [OF frame_fields_clean(2)])
  have "sse_frame ev v @ s = (js ''event: '' @ js (sse_event_name ev)) @ 10 #
      ((js ''data: '' @ stringify v) @ 10 # ([] @ 10 # s))"
    by (simp add: sse_frame_def)
  also have "split_nl \<dots> = frame_lines ev v @ split_nl s"
    unfolding split_nl_line [OF nl(1)] split_nl_line [OF nl(2)] by (simp add: frame_lines_def)
  finally show ?thesis .
qed

definition sse_text :: "(sse_event \<times> json) list \<Rightarrow> jstring" where
  "sse_text frames = concat (map (\<lambda>(ev, v). sse_frame ev v) frames)"

lemma split_nl_frames:
  "split_nl (sse_text frames) = concat (map (\<lambda>(ev, v). frame_lines ev v) frames) @ [[]]"
  by (induction frames) (auto simp: sse_text_def split_nl_frame)

lemma sse_loop_frame:
  assumes "length (stringify v) < MAX_FRAME_SIZE"
  shows "sse_loop prov [] 0 (frame_lines ev v @ ls) e = after [stringify v] (sse_loop prov [] 0 ls e)"
proof -
  have "take 5 (js ''event: '' @ x) \<noteq> js ''data:''" for x by (simp add: js_def)
  moreover have "take 5 (js ''data: '' @ x) = js ''data:''" "data_value (js ''data: '' @ x) = x" for x
    by (simp_all add: js_def data_value_def unit_of_char_def)
  moreover have "js ''event: '' @ x \<noteq> []" "js ''data: '' @ x \<noteq> []" for x by simp_all
  ultimately show ?thesis using assms by (simp add: frame_lines_def)
qed

lemma sse_loop_frames:
  assumes "\<forall>f \<in> set frames. length (stringify (snd f)) < MAX_FRAME_SIZE"
  shows "sse_loop prov [] 0 (concat (map (\<lambda>(ev, v). frame_lines ev v) frames)) e =
    (map (stringify \<circ> snd) frames, e)"
  using assms by (induction frames) (auto simp: sse_loop_frame after_def)

definition small_frame :: "sse_event \<times> json \<Rightarrow> bool" where
  "small_frame f \<longleftrightarrow> length (stringify (snd f)) + 6 \<le> MAX_FRAME_SIZE"

lemma lines_of_frames:
  assumes "\<forall>f \<in> set frames. small_frame f"
  shows "lines_of prov (sse_text frames) =
    (concat (map (\<lambda>(ev, v). frame_lines ev v) frames), GenDone)"
proof -
  let ?ls = "concat (map (\<lambda>(ev, v). frame_lines ev v) frames)"
  have "fits l" if l: "l \<in> set ?ls" for l
  proof -
    from l obtain ev v where "(ev, v) \<in> set frames" "l \<in> set (frame_lines ev v)" by auto
    with assms show ?thesis
      by (cases ev) (auto simp: frame_lines_def fits_def small_frame_def MAX_FRAME_SIZE_def)
  qed
  then have "list_all fits (?ls @ [[]])" by (auto simp: list_all_iff fits_def)
  moreover have "map strip_cr ?ls = ?ls"
    by (rule map_idI) (auto dest!: frame_lines_clean clean_strip_cr)
  ultimately show ?thesis by (simp add: lines_of_def split_nl_frames drop_last_empty_def)
qed

lemma well_formed_sse_text: "well_formed (sse_text frames)"
proof -
  have "well_formed (sse_frame ev v)" for ev v
  proof -
    have "sse_frame ev v = (js ''event: '' @ js (sse_event_name ev)) @ [10] @
        (js ''data: '' @ stringify v) @ [10, 10]"
      by (simp add: sse_frame_def)
    also have "well_formed \<dots>"
    proof -
      have nl: "well_formed [10]" "well_formed [10, 10]" by (simp_all add: is_surrogate_def)
      note fields = frame_fields_clean [unfolded clean_def, THEN conjunct1]
      show ?thesis
        by (rule well_formed_append [OF fields(1) well_formed_append [OF nl(1)
              well_formed_append [OF fields(2) nl(2)]]])
    qed
    finally show ?thesis .
  qed
  then show ?thesis by (induction frames) (auto simp: sse_text_def well_formed_append)
qed

lemma readSseData_frames:
  assumes "\<forall>f \<in> set frames. small_frame f" and "concat parts = encode (sse_text frames)"
  shows "readSseData prov True (map ReadPart parts @ [ReadEnd]) =
    (map (stringify \<circ> snd) frames, GenDone)"
proof -
  have "take 1 (sse_text frames) \<noteq> [0xFEFF]"
    by (cases frames) (auto simp: sse_text_def sse_frame_def js_def unit_of_char_def)
  then have "decode_all (concat parts) = Some (sse_text frames)"
    using decode_all_encode well_formed_sse_text assms(2) by simp
  moreover have "\<forall>f \<in> set frames. length (stringify (snd f)) < MAX_FRAME_SIZE"
    using assms(1) by (auto simp: small_frame_def)
  ultimately show ?thesis
    using assms(1) by (simp add: readSseData_def readLines_parts lines_of_frames sse_loop_frames)
qed

subsection \<open>Waiting for the socket\<close>

definition write_ok :: "sse_write \<Rightarrow> bool" where
  "write_ok w \<longleftrightarrow> (settled w \<noteq> None \<longleftrightarrow> \<not> listening w) \<and> (timerArmed w \<longrightarrow> settled w = None)"

lemma finish_ok: "write_ok w \<Longrightarrow> write_ok (finish res w)"
  by (auto simp: write_ok_def finish_def)

interpretation sse_writes: stepwise_invariant sse_on write_ok "\<lambda>_ _. True"
  by unfold_locales (auto simp: sse_on_def onDrain_def onClose_def finish_ok split: sse_signal.split)

lemma sse_on_settled: "write_ok w \<Longrightarrow> settled w \<noteq> None \<Longrightarrow> sse_on w sig = w"
  by (auto simp: sse_on_def write_ok_def split: sse_signal.split)

lemma run_settled: "write_ok w \<Longrightarrow> settled w \<noteq> None \<Longrightarrow> run sse_on w sigs = w"
  by (induction sigs) (auto simp: sse_on_settled)

lemma writeSse_ok:
  assumes "writeSse aborted destroyed event data during outcome = Inr w"
  shows "write_ok w \<and> (settled w = None \<longrightarrow> timerArmed w)"
proof -
  let ?w = "\<lparr>sent = Some (sse_frame event data), settled = None, listening = True, timerArmed = False\<rparr>"
  have "write_ok (run sse_on ?w during)"
    by (rule sse_writes.run_inv) (simp_all add: write_ok_def)
  with assms show ?thesis
    by (auto simp: writeSse_def throwIfCancelled_def Let_def write_ok_def finish_def onClose_def
        split: write_outcome.splits if_splits)
qed

lemma sse_on_waiting:
  "(settled w = None \<longrightarrow> timerArmed w) \<Longrightarrow> (settled (sse_on w sig) = None \<longrightarrow> timerArmed (sse_on w sig))"
  by (auto simp: sse_on_def onDrain_def onClose_def finish_def split: sse_signal.splits if_splits)

lemma run_waiting:
  "(settled w = None \<longrightarrow> timerArmed w) \<Longrightarrow> settled (run sse_on w sigs) = None \<longrightarrow> timerArmed (run sse_on w sigs)"
proof (induction sigs arbitrary: w)
  case (Cons sig sigs)
  show ?case using Cons.IH [OF sse_on_waiting [OF Cons.prems]] by simp
qed simp

lemma run_drained:
  "settled w \<noteq> Some (Inr ()) \<Longrightarrow> settled (run sse_on w sigs) = Some (Inr ()) \<Longrightarrow> Drain \<in> set sigs"
proof (induction sigs arbitrary: w)
  case (Cons sig sigs)
  have "settled (sse_on w sig) \<noteq> Some (Inr ())" if "sig \<noteq> Drain"
    using Cons.prems(1) that
    by (auto simp: sse_on_def onClose_def finish_def split: sse_signal.splits)
  with Cons show ?case by auto
qed simp

section \<open>Properties\<close>



text \<open>
  A write to a client never waits without a bound: after \<open>writeSse\<close> it has settled, or its
  timer is armed and nothing but a drain completes it; when the timer fires while it waits, the
  write fails as a cancellation; once settled it stays settled, with no timer and no listener
  left behind, whatever the socket emits later.
\<close>

theorem sse_write_bounded:
  assumes "writeSse aborted destroyed event data during outcome = Inr w"
  shows "let w' = run sse_on w sigs in
    (settled w' = None \<longrightarrow> timerArmed w' \<and> settled (sse_on w' WriteTimeout) = Some (Inl RequestAbortedError)) \<and>
    (settled w' \<noteq> None \<longrightarrow> \<not> timerArmed w' \<and> \<not> listening w' \<and> (\<forall>later. run sse_on w' later = w')) \<and>
    (settled w = None \<and> settled w' = Some (Inr ()) \<longrightarrow> Drain \<in> set sigs)"
proof -
  have w: "write_ok w" "settled w = None \<longrightarrow> timerArmed w" using writeSse_ok [OF assms] by auto
  define w' where "w' = run sse_on w sigs"
  have "write_ok w'" unfolding w'_def by (rule sse_writes.run_inv [OF w(1)]) simp
  moreover have "settled w' = None \<longrightarrow> timerArmed w'"
    using w(2) unfolding w'_def by (rule run_waiting)
  moreover have "settled w = None \<and> settled w' = Some (Inr ()) \<longrightarrow> Drain \<in> set sigs"
    unfolding w'_def using run_drained [of w sigs] by auto
  ultimately show ?thesis
    unfolding Let_def w'_def [symmetric]
    by (auto simp: run_settled write_ok_def sse_on_def onClose_def finish_def)
qed

theorem sse_write_bounded_witness:
  "let w = \<lparr>sent = Some (sse_frame DoneEvent (JObj [])), settled = None, listening = True, timerArmed = True\<rparr>
   in settled (sse_on w WriteTimeout) = Some (Inl RequestAbortedError)"
  using sse_write_bounded [of False False DoneEvent "JObj []" "[]" WriteBuffered _ "[]"]
  by (simp add: writeSse_def throwIfCancelled_def)

end
