(* ===== verification/Chat_Routes.thy ===== *)
theory Chat_Routes
  imports Sse Chat_Cache Telemetry
begin

text \<open>
  The chat handlers of \<open>src/routes/chat.ts\<close> with the cancellation of a request
  (\<open>src/routes/request-cancellation.ts\<close>). A handler is one function of its environment: the
  results of the cache, the limiter and the provider it awaits, the fate of each write to the
  client, and the transport events that occur while it waits. It returns what it did, in order,
  and how it answered. Logging is left out.
\<close>

section \<open>Definitions\<close>

subsection \<open>Request cancellation\<close>

record cancellation =
  sigAborted :: bool
  subscribed :: bool

text \<open>\<open>ResponseClosed\<close> says whether the response had been written completely.\<close>

datatype transport_event = ClientAborted | ResponseClosed bool | ResponseFailed | ShuttingDown

definition requestCancellation :: "bool \<Rightarrow> bool \<Rightarrow> bool \<Rightarrow> cancellation" where
  "requestCancellation rawAborted rawDestroyed shutdownAborted =
     \<lparr>sigAborted = (rawAborted \<or> rawDestroyed \<or> shutdownAborted), subscribed = True\<rparr>"

definition abort :: "cancellation \<Rightarrow> cancellation" where
  "abort c = c\<lparr>sigAborted := True\<rparr>"

definition dispose :: "cancellation \<Rightarrow> cancellation" where
  "dispose c = c\<lparr>subscribed := False\<rparr>"

definition cancel_on :: "cancellation \<Rightarrow> transport_event \<Rightarrow> cancellation" where
  "cancel_on c ev =
     (if \<not> subscribed c then c
      else case ev of ResponseClosed finished \<Rightarrow> if \<not> finished then abort c else c | _ \<Rightarrow> abort c)"

subsection \<open>POST /v1/chat\<close>

text \<open>
  The \<open>cache-control\<close> directives that forbid the cache. The header is Latin-1, so lower-casing
  its ASCII letters decides the same matches as \<open>toLowerCase\<close>.
\<close>

fun split_comma :: "jstring \<Rightarrow> jstring list" where
  "split_comma [] = [[]]"
| "split_comma (u # us) =
     (if u = 44 then [] # split_comma us
      else case split_comma us of [] \<Rightarrow> [[u]] | l # ls \<Rightarrow> (u # l) # ls)"

definition ends_directive :: "jstring \<Rightarrow> bool" where
  "ends_directive rest \<longleftrightarrow> rest = [] \<or> take 1 (dropWhile is_js_space rest) = js ''=''"

definition forbids_cache :: "jstring \<Rightarrow> bool" where
  "forbids_cache directive \<longleftrightarrow>
     (\<exists>name \<in> set [js ''no-store'', js ''no-cache''].
        take 8 directive = name \<and> ends_directive (drop 8 directive))"

definition wants_cache :: "bool \<Rightarrow> jstring option \<Rightarrow> jstring option \<Rightarrow> bool" where
  "wants_cache configured cacheMode cacheControl \<longleftrightarrow>
     configured \<and> cacheMode = Some (js ''use'') \<and>
     \<not> list_ex (\<lambda>d. forbids_cache (js_trim d))
         (split_comma (map ascii_lower (case cacheControl of Some h \<Rightarrow> h | None \<Rightarrow> [])))"

record chat_env =
  getResult :: "error + ChatResponse option"
  duringGet :: "transport_event list"
  acquireResult :: "error + unit"
  duringAcquire :: "transport_event list"
  chatResult :: "error + ChatResponse"
  duringChat :: "transport_event list"
  putResult :: "error + unit"
  duringPut :: "transport_event list"

datatype chat_effect =
  CacheRead | PermitAcquired | ProviderCalled | PermitReleased | CacheWritten ChatResponse | MetricRecorded MetricEvent

record chat_run =
  cancel :: cancellation
  permit :: bool
  useCache :: bool
  cacheStatus :: CacheStatus
  effects :: "chat_effect list"

definition awaiting :: "transport_event list \<Rightarrow> chat_run \<Rightarrow> chat_run" where
  "awaiting evs s = s\<lparr>cancel := run cancel_on (cancel s) evs\<rparr>"

definition effect :: "chat_effect \<Rightarrow> chat_run \<Rightarrow> chat_run" where
  "effect e s = s\<lparr>effects := effects s @ [e]\<rparr>"

definition release_permit :: "chat_run \<Rightarrow> chat_run" where
  "release_permit s = (if permit s then effect PermitReleased (s\<lparr>permit := False\<rparr>) else s)"

definition check_cancelled :: "chat_run \<Rightarrow> (error + unit) \<times> chat_run" where
  "check_cancelled s = (throwIfCancelled (sigAborted (cancel s)), s)"

text \<open>Sequencing of steps that change the state and may throw.\<close>

definition and_then ::
  "(error + 'a) \<times> 's \<Rightarrow> ('a \<Rightarrow> 's \<Rightarrow> (error + 'b) \<times> 's) \<Rightarrow> (error + 'b) \<times> 's" where
  "and_then m f = (case m of (Inl e, s) \<Rightarrow> (Inl e, s) | (Inr a, s) \<Rightarrow> f a s)"

definition chat_lookup :: "chat_env \<Rightarrow> chat_run \<Rightarrow> (error + ChatResponse option) \<times> chat_run" where
  "chat_lookup env s =
     (if \<not> useCache s then (Inr None, s)
      else
        (let s = effect CacheRead (awaiting (duringGet env) s) in
         case getResult env of
           Inr cached \<Rightarrow>
             and_then (check_cancelled s) (\<lambda>_ s.
               (Inr cached, s\<lparr>cacheStatus := (if cached = None then MISS else HIT)\<rparr>))
         | Inl e \<Rightarrow>
             and_then (check_cancelled s) (\<lambda>_ s.
               if e = RequestAbortedError then (Inl e, s) else (Inr None, s\<lparr>useCache := False\<rparr>))))"

definition chat_acquire :: "chat_env \<Rightarrow> chat_run \<Rightarrow> (error + unit) \<times> chat_run" where
  "chat_acquire env s =
     (let s = awaiting (duringAcquire env) s in
      case acquireResult env of
        Inl e \<Rightarrow> (Inl e, s)
      | Inr _ \<Rightarrow> check_cancelled (effect PermitAcquired (s\<lparr>permit := True\<rparr>)))"

definition chat_call :: "chat_env \<Rightarrow> chat_run \<Rightarrow> (error + ChatResponse) \<times> chat_run" where
  "chat_call env s =
     (let s = release_permit (awaiting (duringChat env) (effect ProviderCalled s)) in
      and_then (chatResult env, s) (\<lambda>r s. and_then (check_cancelled s) (\<lambda>_ s. (Inr r, s))))"

definition chat_store :: "chat_env \<Rightarrow> ChatResponse \<Rightarrow> chat_run \<Rightarrow> (error + unit) \<times> chat_run" where
  "chat_store env r s =
     (if \<not> useCache s then (Inr (), s)
      else
        (let s = effect (CacheWritten r) (awaiting (duringPut env) s) in
         case putResult env of
           Inr _ \<Rightarrow> (Inr (), s)
         | Inl e \<Rightarrow>
             and_then (check_cancelled s) (\<lambda>_ s.
               if e = RequestAbortedError then (Inl e, s) else (Inr (), s))))"

definition chat_body :: "chat_env \<Rightarrow> chat_run \<Rightarrow> (error + ChatResponse) \<times> chat_run" where
  "chat_body env s =
     and_then (chat_lookup env s) (\<lambda>cached s.
       case cached of
         Some r \<Rightarrow> (Inr r, s)
       | None \<Rightarrow>
           and_then (chat_acquire env s) (\<lambda>_ s.
             and_then (chat_call env s) (\<lambda>r s.
               and_then (chat_store env r s) (\<lambda>_ s.
                 and_then (check_cancelled s) (\<lambda>_ s. (Inr r, s))))))"

datatype chat_result = Answered ChatResponse | Destroyed | Failed error

text \<open>The \<open>catch\<close> and the \<open>finally\<close> of the handler.\<close>

definition chat_catch :: "(error + ChatResponse) \<times> chat_run \<Rightarrow> chat_result" where
  "chat_catch m =
     (case m of
        (Inr r, s) \<Rightarrow> Answered r
      | (Inl e, s) \<Rightarrow> if e = RequestAbortedError \<or> sigAborted (cancel s) then Destroyed else Failed e)"

definition chat_finally :: "chat_run \<Rightarrow> chat_run" where
  "chat_finally s =
     release_permit ((effect (MetricRecorded (CacheLookup (cacheStatus s))) s)
       \<lparr>cancel := dispose (abort (cancel s))\<rparr>)"

definition chat_handler :: "chat_env \<Rightarrow> cancellation \<Rightarrow> bool \<Rightarrow> chat_result \<times> chat_run" where
  "chat_handler env c cacheWanted =
     (let m = chat_body env \<lparr>cancel = c, permit = False, useCache = cacheWanted,
                             cacheStatus = BYPASS, effects = []\<rparr>
      in (chat_catch m, chat_finally (snd m)))"

subsection \<open>POST /v1/chat/stream\<close>

text \<open>What becomes of a frame handed to \<open>writeSse\<close>: written, written but interrupted, or refused.\<close>

datatype write_fate = Flushed | Interrupted | Refused

record delta_env =
  deltaContent :: jstring
  beforeDelta :: "transport_event list"
  deltaFate :: write_fate

record stream_route_env =
  permitResult :: "error + unit"
  duringPermit :: "transport_event list"
  providerStreams :: bool
  deltas :: "delta_env list"
  streamResult :: "error + unit"
  beforeEnd :: "transport_event list"
  doneFate :: write_fate
  needsDrain :: bool
  errorFate :: write_fate

record stream_run =
  streamCancel :: cancellation
  streamPermit :: bool
  started :: bool
  wire :: "(sse_event \<times> json) list"

definition stream_awaiting :: "transport_event list \<Rightarrow> stream_run \<Rightarrow> stream_run" where
  "stream_awaiting evs s = s\<lparr>streamCancel := run cancel_on (streamCancel s) evs\<rparr>"

definition stream_check :: "stream_run \<Rightarrow> (error + unit) \<times> stream_run" where
  "stream_check s = (throwIfCancelled (sigAborted (streamCancel s)), s)"

text \<open>\<open>start\<close>: the headers are sent once.\<close>

definition start :: "stream_run \<Rightarrow> (error + unit) \<times> stream_run" where
  "start s = and_then (stream_check s) (\<lambda>_ s. (Inr (), s\<lparr>started := True\<rparr>))"

definition write_frame :: "sse_event \<Rightarrow> json \<Rightarrow> write_fate \<Rightarrow> stream_run \<Rightarrow> (error + unit) \<times> stream_run" where
  "write_frame ev data fate s =
     and_then (stream_check s) (\<lambda>_ s.
       case fate of
         Flushed \<Rightarrow> (Inr (), s\<lparr>wire := wire s @ [(ev, data)]\<rparr>)
       | Interrupted \<Rightarrow> (Inl RequestAbortedError, s\<lparr>wire := wire s @ [(ev, data)]\<rparr>)
       | Refused \<Rightarrow> (Inl RequestAbortedError, s))"

definition delta_json :: "jstring \<Rightarrow> jstring \<Rightarrow> json" where
  "delta_json rid c = JObj [(js ''content'', JStr c), (js ''requestId'', JStr rid)]"

definition done_json :: "jstring \<Rightarrow> json" where
  "done_json rid = JObj [(js ''requestId'', JStr rid)]"

definition error_code :: "error \<Rightarrow> jstring" where
  "error_code e = (case e of App a \<Rightarrow> js (code a) | _ \<Rightarrow> js ''INTERNAL_SERVER_ERROR'')"

definition error_json :: "jstring \<Rightarrow> error \<Rightarrow> json" where
  "error_json rid e =
     JObj [(js ''code'', JStr (error_code e)),
           (js ''message'', JStr (js ''The response could not be completed'')),
           (js ''requestId'', JStr rid)]"

text \<open>The consumer handed to the provider, for one delta; its result goes to the provider.\<close>

definition on_delta :: "jstring \<Rightarrow> stream_run \<Rightarrow> delta_env \<Rightarrow> stream_run" where
  "on_delta rid s d =
     (let s = stream_awaiting (beforeDelta d) s in
      if deltaContent d = [] then s
      else case start s of
        (Inl _, s) \<Rightarrow> s
      | (Inr _, s) \<Rightarrow>
          (case write_frame DeltaEvent (delta_json rid (deltaContent d)) (deltaFate d) s of
             (Inl _, s) \<Rightarrow> s\<lparr>streamCancel := abort (streamCancel s)\<rparr>
           | (Inr _, s) \<Rightarrow> s))"

definition stream_body :: "jstring \<Rightarrow> stream_route_env \<Rightarrow> stream_run \<Rightarrow> (error + unit) \<times> stream_run" where
  "stream_body rid env s =
     and_then (permitResult env, stream_awaiting (duringPermit env) s) (\<lambda>_ s.
       and_then (stream_check (s\<lparr>streamPermit := True\<rparr>)) (\<lambda>_ s.
         if \<not> providerStreams env then (Inl (App ProviderStreamingUnsupportedError), s)
         else
           and_then (streamResult env,
               stream_awaiting (beforeEnd env) (foldl (on_delta rid) s (deltas env))) (\<lambda>_ s.
             and_then (start s) (\<lambda>_ s.
               write_frame DoneEvent (done_json rid) (doneFate env) s))))"

datatype stream_reply = StreamEnded | StreamDestroyed | StreamThrew error

definition stream_catch ::
  "jstring \<Rightarrow> stream_route_env \<Rightarrow> (error + unit) \<times> stream_run \<Rightarrow>
   (stream_reply \<times> StreamOutcome) \<times> stream_run" where
  "stream_catch rid env m =
     (case m of
        (Inr _, s) \<Rightarrow> ((StreamEnded, StreamCompleted), s)
      | (Inl e, s) \<Rightarrow>
          if e = RequestAbortedError \<or> sigAborted (streamCancel s)
          then ((StreamDestroyed, StreamCancelled), s)
          else if \<not> started s then ((StreamThrew e, StreamFailed), s)
          else if needsDrain env then ((StreamDestroyed, StreamFailed), s)
          else case write_frame ErrorEvent (error_json rid e) (errorFate env) s of
            (Inr _, s) \<Rightarrow> ((StreamEnded, StreamFailed), s)
          | (Inl _, s) \<Rightarrow> ((StreamDestroyed, StreamFailed), s))"

text \<open>
  The whole handler: the reply, the metric it records, the final state, and how many permits it
  released.
\<close>

definition stream_handler ::
  "jstring \<Rightarrow> stream_route_env \<Rightarrow> cancellation \<Rightarrow> stream_reply \<times> MetricEvent \<times> stream_run \<times> nat" where
  "stream_handler rid env c =
     (let ((reply, outcome), s) =
            stream_catch rid env
              (stream_body rid env \<lparr>streamCancel = c, streamPermit = False, started = False, wire = []\<rparr>)
      in (reply, StreamEnd outcome,
          s\<lparr>streamCancel := dispose (abort (streamCancel s)), streamPermit := False\<rparr>,
          if streamPermit s then 1 else 0))"

section \<open>Lemmas\<close>

subsection \<open>Steps of the chat handler\<close>

lemmas chat_defs [model_simps] =
  chat_lookup_def chat_acquire_def chat_call_def chat_store_def and_then_def check_cancelled_def
  awaiting_def effect_def release_permit_def throwIfCancelled_def Let_def

lemma chat_lookup_cases:
  assumes "chat_lookup env s = (x, s')"
  obtains (off) "\<not> useCache s" "x = Inr None" "s' = s"
  | (hit) r where "getResult env = Inr (Some r)" "x = Inr (Some r)" "\<not> sigAborted (cancel s')"
      "effects s' = effects s @ [CacheRead]" "permit s' = permit s" "cacheStatus s' = HIT"
  | (miss) "getResult env = Inr None" "x = Inr None" "\<not> sigAborted (cancel s')" "useCache s'"
      "effects s' = effects s @ [CacheRead]" "permit s' = permit s" "cacheStatus s' = MISS"
  | (bypass) e where "getResult env = Inl e" "x = Inr None" "\<not> sigAborted (cancel s')" "\<not> useCache s'"
      "effects s' = effects s @ [CacheRead]" "permit s' = permit s" "cacheStatus s' = cacheStatus s"
  | (cancelled) "x = Inl RequestAbortedError"
      "effects s' = effects s @ [CacheRead]" "permit s' = permit s" "cacheStatus s' = cacheStatus s"
  using assms
  by (cases "getResult env"; cases "projr (getResult env)")
    (auto simp: model_simps split: if_splits)

lemma chat_acquire_cases:
  assumes "chat_acquire env s = (x, s')" and "\<not> permit s"
  obtains (refused) e where "acquireResult env = Inl e" "x = Inl e" "effects s' = effects s" "\<not> permit s'"
      "cacheStatus s' = cacheStatus s"
  | (cancelled) "x = Inl RequestAbortedError" "effects s' = effects s @ [PermitAcquired]" "permit s'"
      "cacheStatus s' = cacheStatus s"
  | (admitted) "x = Inr ()" "effects s' = effects s @ [PermitAcquired]" "permit s'"
      "cacheStatus s' = cacheStatus s" "useCache s' = useCache s"
  using assms by (cases "acquireResult env") (auto simp: model_simps split: if_splits)

lemma chat_call_cases:
  assumes "chat_call env s = (x, s')" and "permit s"
  obtains (failed) e where "x = Inl e" "effects s' = effects s @ [ProviderCalled, PermitReleased]"
      "\<not> permit s'" "cacheStatus s' = cacheStatus s"
  | (answered) r where "chatResult env = Inr r" "x = Inr r" "\<not> sigAborted (cancel s')"
      "effects s' = effects s @ [ProviderCalled, PermitReleased]"
      "\<not> permit s'" "cacheStatus s' = cacheStatus s" "useCache s' = useCache s"
  using assms by (cases "chatResult env") (auto simp: model_simps split: if_splits dest: sym)

lemma chat_store_cases:
  assumes "chat_store env r s = (x, s')"
  obtains (off) "\<not> useCache s" "x = Inr ()" "s' = s"
  | (stored) "useCache s" "effects s' = effects s @ [CacheWritten r]" "permit s' = permit s"
      "cacheStatus s' = cacheStatus s" "x = Inr () \<or> x = Inl RequestAbortedError"
  using assms by (cases "putResult env") (auto simp: model_simps split: if_splits)

text \<open>
  The traces of the handler: what it has done when its body ends.
\<close>

inductive chat_trace :: "chat_env \<Rightarrow> bool \<Rightarrow> (error + ChatResponse) \<times> chat_run \<Rightarrow> bool" for env wanted where
  hit: "chat_trace env wanted (Inr r, s)"
    if "wanted" "getResult env = Inr (Some r)" "effects s = [CacheRead]" "\<not> permit s" "cacheStatus s = HIT"
      "\<not> sigAborted (cancel s)"
| refused: "chat_trace env wanted (Inl e, s)"
    if "effects s = (if wanted then [CacheRead] else [])" "\<not> permit s" "cacheStatus s \<noteq> HIT"
| holding: "chat_trace env wanted (Inl e, s)"
    if "effects s = (if wanted then [CacheRead] else []) @ [PermitAcquired]" "permit s" "cacheStatus s \<noteq> HIT"
| failed: "chat_trace env wanted (Inl e, s)"
    if "effects s = (if wanted then [CacheRead] else []) @ [PermitAcquired, ProviderCalled, PermitReleased]"
      "\<not> permit s" "cacheStatus s \<noteq> HIT"
| answered: "chat_trace env wanted (Inr r, s)"
    if "chatResult env = Inr r"
      "effects s = (if wanted then [CacheRead] else []) @ [PermitAcquired, ProviderCalled, PermitReleased]"
      "\<not> permit s" "cacheStatus s = BYPASS" "\<not> sigAborted (cancel s)"
| stored: "chat_trace env wanted (x, s)"
    if "chatResult env = Inr r" "getResult env = Inr None" "wanted"
      "effects s = [CacheRead, PermitAcquired, ProviderCalled, PermitReleased, CacheWritten r]"
      "\<not> permit s" "cacheStatus s = MISS"
      "x = Inl RequestAbortedError \<or> x = Inr r \<and> \<not> sigAborted (cancel s)"

lemma chat_call_trace:
  assumes body: "and_then (chat_call env s) (\<lambda>r s. and_then (chat_store env r s) (\<lambda>_ s.
      and_then (check_cancelled s) (\<lambda>_ s. (Inr r, s)))) = (x, s')"
    and s: "permit s" "effects s = (if wanted then [CacheRead] else []) @ [PermitAcquired]"
    "cacheStatus s = (if useCache s then MISS else BYPASS)"
    "useCache s \<longrightarrow> wanted \<and> getResult env = Inr None"
  shows "chat_trace env wanted (x, s')"
proof -
  obtain y t where y: "chat_call env s = (y, t)" by fastforce
  from y s(1) show ?thesis
  proof (cases rule: chat_call_cases)
    case (failed e)
    with y body s show ?thesis by (auto simp: and_then_def intro!: chat_trace.failed split: if_splits)
  next
    case (answered r)
    obtain z u where z: "chat_store env r t = (z, u)" by fastforce
    from z show ?thesis
    proof (cases rule: chat_store_cases)
      case off
      with y z body answered have eq: "x = Inr r" "s' = t"
        by (auto simp: and_then_def check_cancelled_def throwIfCancelled_def)
      show ?thesis
        unfolding eq by (rule chat_trace.answered) (use off answered s in auto)
    next
      case stored
      with y z body s answered have u: "s' = u"
        by (auto simp: and_then_def check_cancelled_def throwIfCancelled_def split: if_splits)
      with y z body s answered stored show ?thesis
        by (intro chat_trace.stored [of _ r])
          (auto simp: and_then_def check_cancelled_def throwIfCancelled_def split: if_splits)
    qed
  qed
qed

lemma chat_body_trace:
  assumes body: "chat_body env \<lparr>cancel = c, permit = False, useCache = wanted, cacheStatus = BYPASS, effects = []\<rparr> = (x, s')"
  shows "chat_trace env wanted (x, s')"
proof -
  let ?s = "\<lparr>cancel = c, permit = False, useCache = wanted, cacheStatus = BYPASS, effects = []\<rparr>"
  have call: "chat_trace env wanted (x, s')"
    if t: "and_then (chat_acquire env t) (\<lambda>_ s. and_then (chat_call env s) (\<lambda>r s.
        and_then (chat_store env r s) (\<lambda>_ s. and_then (check_cancelled s) (\<lambda>_ s. (Inr r, s))))) = (x, s')"
      "\<not> permit t" "effects t = (if wanted then [CacheRead] else [])"
      "cacheStatus t = (if useCache t then MISS else BYPASS)"
      "useCache t \<longrightarrow> wanted \<and> getResult env = Inr None" for t
  proof -
    obtain y u where y: "chat_acquire env t = (y, u)" by fastforce
    from y t(2) show ?thesis
    proof (cases rule: chat_acquire_cases)
      case admitted
      with y t show ?thesis by (intro chat_call_trace [of env u]) (auto simp: and_then_def)
    next
      case (refused e)
      with y t show ?thesis by (auto simp: and_then_def intro!: chat_trace.refused split: if_splits)
    next
      case cancelled
      with y t show ?thesis by (auto simp: and_then_def intro!: chat_trace.holding split: if_splits)
    qed
  qed
  obtain y t where y: "chat_lookup env ?s = (y, t)" by fastforce
  from y show ?thesis
  proof (cases rule: chat_lookup_cases)
    case (hit r)
    with y body have "wanted" by (auto simp: chat_lookup_def split: if_splits)
    with y body hit show ?thesis by (auto simp: chat_body_def and_then_def intro!: chat_trace.hit)
  next
    case cancelled
    with y body have "wanted" by (auto simp: chat_lookup_def split: if_splits)
    with y body cancelled show ?thesis by (auto simp: chat_body_def and_then_def intro!: chat_trace.refused)
  next
    case off
    with y body show ?thesis by (intro call [of t]) (auto simp: chat_body_def and_then_def)
  next
    case miss
    with y body have "wanted" by (auto simp: chat_lookup_def split: if_splits)
    with y body miss show ?thesis by (intro call [of t]) (auto simp: chat_body_def and_then_def)
  next
    case (bypass e)
    with y body have "wanted" by (auto simp: chat_lookup_def split: if_splits)
    with y body bypass show ?thesis by (intro call [of t]) (auto simp: chat_body_def and_then_def)
  qed
qed

lemma chat_handler_trace:
  assumes "chat_handler env c wanted = (res, s)"
  obtains x t where "chat_body env \<lparr>cancel = c, permit = False, useCache = wanted, cacheStatus = BYPASS, effects = []\<rparr> = (x, t)"
    "chat_trace env wanted (x, t)" "res = chat_catch (x, t)" "\<not> permit s" "cacheStatus s = cacheStatus t"
    "effects s = effects t @ MetricRecorded (CacheLookup (cacheStatus t)) # (if permit t then [PermitReleased] else [])"
    "sigAborted (cancel s)" "\<not> subscribed (cancel s)"
proof -
  let ?s = "\<lparr>cancel = c, permit = False, useCache = wanted, cacheStatus = BYPASS, effects = []\<rparr>"
  obtain x t where xt: "chat_body env ?s = (x, t)" by fastforce
  from that [OF xt chat_body_trace [OF xt]] assms xt show ?thesis
    by (auto simp: chat_handler_def chat_finally_def release_permit_def effect_def abort_def dispose_def
        Let_def)
qed

definition is_permit :: "chat_effect \<Rightarrow> bool" where
  "is_permit e \<longleftrightarrow> e = PermitAcquired \<or> e = PermitReleased"

definition is_metric :: "chat_effect \<Rightarrow> bool" where
  "is_metric e \<longleftrightarrow> (\<exists>m. e = MetricRecorded m)"

subsection \<open>Cancellation\<close>

definition aborts :: "transport_event \<Rightarrow> bool" where
  "aborts ev \<longleftrightarrow> ev \<noteq> ResponseClosed True"

lemma run_cancel_on [simp]:
  "subscribed (run cancel_on c evs) = subscribed c"
  "sigAborted (run cancel_on c evs) \<longleftrightarrow> sigAborted c \<or> subscribed c \<and> list_ex aborts evs"
proof -
  have "subscribed (cancel_on c ev) = subscribed c"
    "sigAborted (cancel_on c ev) \<longleftrightarrow> sigAborted c \<or> subscribed c \<and> aborts ev" for c ev
    by (cases ev; simp add: cancel_on_def abort_def aborts_def)+
  then show "subscribed (run cancel_on c evs) = subscribed c"
    "sigAborted (run cancel_on c evs) \<longleftrightarrow> sigAborted c \<or> subscribed c \<and> list_ex aborts evs"
    by (induction evs arbitrary: c) auto
qed

lemma stage_flags:
  assumes "subscribed (cancel s)"
  shows "sigAborted (cancel (snd (chat_lookup env s))) \<longleftrightarrow>
      sigAborted (cancel s) \<or> useCache s \<and> list_ex aborts (duringGet env)"
    and "sigAborted (cancel (snd (chat_acquire env s))) \<longleftrightarrow>
      sigAborted (cancel s) \<or> list_ex aborts (duringAcquire env)"
    and "sigAborted (cancel (snd (chat_call env s))) \<longleftrightarrow>
      sigAborted (cancel s) \<or> list_ex aborts (duringChat env)"
    and "sigAborted (cancel (snd (chat_store env r s))) \<longleftrightarrow>
      sigAborted (cancel s) \<or> useCache s \<and> list_ex aborts (duringPut env)"
  using assms
  by (auto simp: model_simps split: sum.split)

lemma stage_subscribed:
  "subscribed (cancel (snd (chat_lookup env s))) = subscribed (cancel s)"
  "subscribed (cancel (snd (chat_acquire env s))) = subscribed (cancel s)"
  "subscribed (cancel (snd (chat_call env s))) = subscribed (cancel s)"
  "subscribed (cancel (snd (chat_store env r s))) = subscribed (cancel s)"
  by (auto simp: model_simps split: sum.split)

lemma chat_rest_aborts:
  assumes body: "and_then (chat_call env s) (\<lambda>r s. and_then (chat_store env r s) (\<lambda>_ s.
      and_then (check_cancelled s) (\<lambda>_ s. (Inr r, s)))) = (x, t)"
    and s: "permit s" "subscribed (cancel s)" "\<forall>r. CacheWritten r \<notin> set (effects s)"
    and ok: "\<not> sigAborted (cancel t)" "x \<noteq> Inl RequestAbortedError"
  shows "\<not> sigAborted (cancel s) \<and> \<not> list_ex aborts (duringChat env) \<and>
    ((\<exists>r. CacheWritten r \<in> set (effects t)) \<longrightarrow> \<not> list_ex aborts (duringPut env))"
proof -
  obtain y u where y: "chat_call env s = (y, u)" by fastforce
  have u: "sigAborted (cancel u) \<longleftrightarrow> sigAborted (cancel s) \<or> list_ex aborts (duringChat env)"
    "subscribed (cancel u)"
    using stage_flags(3) [OF s(2), of env] stage_subscribed(3) [of env s] y s(2) by simp_all
  from y s(1) show ?thesis
  proof (cases rule: chat_call_cases)
    case (failed e)
    with body y u ok s(3) show ?thesis by (auto simp: and_then_def)
  next
    case (answered r)
    obtain z v where z: "chat_store env r u = (z, v)" by fastforce
    have v: "sigAborted (cancel v) \<longleftrightarrow> sigAborted (cancel u) \<or> useCache u \<and> list_ex aborts (duringPut env)"
      using stage_flags(4) [OF u(2), of env r] z by simp
    from z show ?thesis
    proof (cases rule: chat_store_cases)
      case off
      with body y z answered u v ok s(3) show ?thesis
        by (auto simp: and_then_def check_cancelled_def throwIfCancelled_def)
    next
      case stored
      with body y z answered u v ok s(3) show ?thesis
        by (auto simp: and_then_def check_cancelled_def throwIfCancelled_def split: if_splits)
    qed
  qed
qed

lemma chat_body_aborts:
  assumes body: "chat_body env \<lparr>cancel = c, permit = False, useCache = wanted, cacheStatus = BYPASS, effects = []\<rparr> = (x, t)"
    and "subscribed c" and ok: "\<not> sigAborted (cancel t)" "x \<noteq> Inl RequestAbortedError"
  shows "\<not> sigAborted c \<and> \<not> (wanted \<and> list_ex aborts (duringGet env)) \<and>
    (cacheStatus t \<noteq> HIT \<longrightarrow> \<not> list_ex aborts (duringAcquire env)) \<and>
    (ProviderCalled \<in> set (effects t) \<longrightarrow> \<not> list_ex aborts (duringChat env)) \<and>
    ((\<exists>r. CacheWritten r \<in> set (effects t)) \<longrightarrow> \<not> list_ex aborts (duringPut env))"
proof -
  let ?s = "\<lparr>cancel = c, permit = False, useCache = wanted, cacheStatus = BYPASS, effects = []\<rparr>"
  let ?rest = "\<lambda>s. and_then (chat_acquire env s) (\<lambda>_ s. and_then (chat_call env s) (\<lambda>r s.
        and_then (chat_store env r s) (\<lambda>_ s. and_then (check_cancelled s) (\<lambda>_ s. (Inr r, s)))))"
  obtain y u where y: "chat_lookup env ?s = (y, u)" by fastforce
  have u: "sigAborted (cancel u) \<longleftrightarrow> sigAborted c \<or> wanted \<and> list_ex aborts (duringGet env)"
    "subscribed (cancel u)"
    using stage_flags(1) [of ?s env] stage_subscribed(1) [of env ?s] y assms(2) by simp_all
  have rest: ?thesis
    if r: "?rest u = (x, t)" "\<not> permit u" "\<forall>r. CacheWritten r \<notin> set (effects u)" "ProviderCalled \<notin> set (effects u)"
  proof -
    obtain z v where z: "chat_acquire env u = (z, v)" by fastforce
    have v: "sigAborted (cancel v) \<longleftrightarrow> sigAborted (cancel u) \<or> list_ex aborts (duringAcquire env)"
      "subscribed (cancel v)"
      using stage_flags(2) [OF u(2), of env] stage_subscribed(2) [of env u] z u(2) by simp_all
    from z r(2) show ?thesis
    proof (cases rule: chat_acquire_cases)
      case (refused e)
      with r z u v ok show ?thesis by (auto simp: and_then_def)
    next
      case cancelled
      with r z ok show ?thesis by (auto simp: and_then_def)
    next
      case admitted
      have "and_then (chat_call env v) (\<lambda>r s. and_then (chat_store env r s) (\<lambda>_ s.
          and_then (check_cancelled s) (\<lambda>_ s. (Inr r, s)))) = (x, t)"
        using r(1) z admitted by (simp add: and_then_def)
      from chat_rest_aborts [OF this admitted(3) v(2) _ ok] u v r(3) admitted show ?thesis by auto
    qed
  qed
  from y show ?thesis
  proof (cases rule: chat_lookup_cases)
    case (hit r)
    with body y u ok show ?thesis by (auto simp: chat_body_def and_then_def)
  next
    case cancelled
    with body y ok show ?thesis by (auto simp: chat_body_def and_then_def)
  next
    case off
    with body y show ?thesis by (intro rest) (auto simp: chat_body_def and_then_def)
  next
    case miss
    with body y show ?thesis by (intro rest) (auto simp: chat_body_def and_then_def)
  next
    case (bypass e)
    with body y show ?thesis by (intro rest) (auto simp: chat_body_def and_then_def)
  qed
qed

subsection \<open>The frames of a stream\<close>

definition contents :: "delta_env list \<Rightarrow> jstring list" where
  "contents ds = filter (\<lambda>c. c \<noteq> []) (map deltaContent ds)"

definition delta_frames :: "jstring \<Rightarrow> jstring list \<Rightarrow> (sse_event \<times> json) list" where
  "delta_frames rid cs = map (\<lambda>c. (DeltaEvent, delta_json rid c)) cs"

lemma delta_frames_simps [simp]:
  "delta_frames rid [] = []" "delta_frames rid (cs @ ds) = delta_frames rid cs @ delta_frames rid ds"
  "delta_frames rid (c # cs) = (DeltaEvent, delta_json rid c) # delta_frames rid cs"
  by (simp_all add: delta_frames_def)

text \<open>
  After the deltas \<open>cs\<close>: a prefix of them is on the wire, all of them unless the request is
  cancelled, and the headers are sent before the first frame.
\<close>

definition on_wire :: "jstring \<Rightarrow> jstring list \<Rightarrow> stream_run \<Rightarrow> bool" where
  "on_wire rid cs s \<longleftrightarrow>
     (\<exists>ws. wire s = delta_frames rid ws \<and> prefix ws cs \<and> (\<not> sigAborted (streamCancel s) \<longrightarrow> ws = cs)) \<and>
     (wire s \<noteq> [] \<longrightarrow> started s)"

lemma on_wireI:
  assumes "wire s = delta_frames rid ws" "prefix ws cs" "\<not> sigAborted (streamCancel s) \<longrightarrow> ws = cs"
    "wire s \<noteq> [] \<longrightarrow> started s"
  shows "on_wire rid cs s"
  using assms by (auto simp: on_wire_def)

lemma on_wire_aborted:
  assumes "on_wire rid cs s" "sigAborted (streamCancel s')" "wire s' = wire s" "started s' = started s"
  shows "on_wire rid (cs @ ds) s'"
  using assms by (auto simp: on_wire_def intro: prefix_prefix)

lemma on_wire_await: "on_wire rid cs s \<Longrightarrow> on_wire rid cs (stream_awaiting evs s)"
  by (auto simp: on_wire_def stream_awaiting_def)

lemma on_delta_wire:
  assumes "on_wire rid cs s"
  shows "on_wire rid (cs @ (if deltaContent d = [] then [] else [deltaContent d])) (on_delta rid s d)"
proof -
  define s1 where "s1 = stream_awaiting (beforeDelta d) s"
  have s1: "on_wire rid cs s1" using assms by (simp add: s1_def on_wire_await)
  show ?thesis
  proof (cases "deltaContent d = []")
    case True
    with s1 show ?thesis by (simp add: on_delta_def s1_def Let_def)
  next
    case False
    show ?thesis
    proof (cases "sigAborted (streamCancel s1)")
      case True
      then have "on_delta rid s d = s1"
        using \<open>deltaContent d \<noteq> []\<close>
        by (simp add: on_delta_def s1_def Let_def start_def and_then_def stream_check_def throwIfCancelled_def)
      with True s1 False show ?thesis by (auto intro: on_wire_aborted)
    next
      case connected: False
      then have "wire s1 = delta_frames rid cs" using s1 by (auto simp: on_wire_def)
      then show ?thesis
        using connected False
        by (intro on_wireI [where ws = "cs @ (if deltaFate d = Refused then [] else [deltaContent d])"];
            cases "deltaFate d")
          (simp_all add: on_delta_def s1_def [symmetric] Let_def start_def and_then_def abort_def
            stream_check_def throwIfCancelled_def write_frame_def)
    qed
  qed
qed

lemma on_delta_permit: "streamPermit (on_delta rid s d) = streamPermit s"
  by (cases "deltaFate d")
    (auto simp: on_delta_def Let_def start_def and_then_def stream_check_def throwIfCancelled_def
      write_frame_def stream_awaiting_def)

lemma deltas_wire:
  assumes "on_wire rid cs s"
  shows "on_wire rid (cs @ contents ds) (foldl (on_delta rid) s ds)"
  using assms
proof (induction ds arbitrary: cs s)
  case (Cons d ds)
  from Cons.IH [OF on_delta_wire [OF Cons.prems, of d]] show ?case
    by (cases "deltaContent d = []") (simp_all add: contents_def)
qed (simp add: contents_def)

lemma deltas_permit: "streamPermit (foldl (on_delta rid) s ds) = streamPermit s"
  by (induction ds arbitrary: s) (auto simp: on_delta_permit)

text \<open>What may follow the deltas, and how the handler accounts for it.\<close>

definition truthful ::
  "jstring \<Rightarrow> stream_route_env \<Rightarrow> stream_reply \<Rightarrow> StreamOutcome \<Rightarrow> (sse_event \<times> json) list \<Rightarrow> bool" where
  "truthful rid env reply outcome frames \<longleftrightarrow>
     (\<exists>ws final. frames = delta_frames rid ws @ final \<and> prefix ws (contents (deltas env)) \<and>
      (final = [] \<or>
       final = [(DoneEvent, done_json rid)] \<and> streamResult env = Inr () \<and> ws = contents (deltas env) \<or>
       (\<exists>e. final = [(ErrorEvent, error_json rid e)] \<and> streamResult env = Inl e \<and> ws = contents (deltas env)
         \<and> outcome = StreamFailed)) \<and>
      (outcome = StreamCompleted \<longrightarrow> final = [(DoneEvent, done_json rid)] \<and> reply = StreamEnded)) \<and>
     (\<forall>e. reply = StreamThrew e \<longrightarrow> frames = [] \<and> outcome = StreamFailed)"

lemma truthfulI:
  assumes "frames = delta_frames rid ws @ final" "prefix ws (contents (deltas env))"
    "final = [] \<or>
     final = [(DoneEvent, done_json rid)] \<and> streamResult env = Inr () \<and> ws = contents (deltas env) \<or>
     (\<exists>e. final = [(ErrorEvent, error_json rid e)] \<and> streamResult env = Inl e \<and> ws = contents (deltas env)
       \<and> outcome = StreamFailed)"
    "outcome = StreamCompleted \<longrightarrow> final = [(DoneEvent, done_json rid)] \<and> reply = StreamEnded"
    "\<forall>e. reply = StreamThrew e \<longrightarrow> frames = [] \<and> outcome = StreamFailed"
  shows "truthful rid env reply outcome frames"
  using assms unfolding truthful_def by blast

lemma catch_failed_stream:
  assumes w: "on_wire rid (contents (deltas env)) s" and "streamResult env = Inl e"
    and c: "stream_catch rid env (Inl e, s) = ((reply, outcome), t)"
  shows "truthful rid env reply outcome (wire t) \<and> streamPermit t = streamPermit s"
proof -
  obtain ws where ws: "wire s = delta_frames rid ws" "prefix ws (contents (deltas env))"
    "\<not> sigAborted (streamCancel s) \<longrightarrow> ws = contents (deltas env)" "wire s \<noteq> [] \<longrightarrow> started s"
    using w by (auto simp: on_wire_def)
  let ?tail = "if sigAborted (streamCancel s) \<or> e = RequestAbortedError \<or> \<not> started s \<or> needsDrain env
      \<or> errorFate env = Refused then [] else [(ErrorEvent, error_json rid e)]"
  have "truthful rid env reply outcome (wire t)"
    by (rule truthfulI [where ws = ws and final = ?tail])
      (use ws c assms(2) in \<open>cases "errorFate env"; auto simp: stream_catch_def write_frame_def and_then_def
        stream_check_def throwIfCancelled_def split: if_splits\<close>)+
  moreover have "streamPermit t = streamPermit s"
    using c by (cases "errorFate env") (auto simp: stream_catch_def write_frame_def and_then_def
        stream_check_def throwIfCancelled_def split: if_splits)
  ultimately show ?thesis ..
qed

lemma catch_ended_stream:
  assumes w: "on_wire rid (contents (deltas env)) s" and "streamResult env = Inr ()"
    and c: "stream_catch rid env (and_then (start s) (\<lambda>_ s. write_frame DoneEvent (done_json rid) (doneFate env) s))
      = ((reply, outcome), t)"
  shows "truthful rid env reply outcome (wire t) \<and> streamPermit t = streamPermit s"
proof -
  obtain ws where ws: "wire s = delta_frames rid ws" "prefix ws (contents (deltas env))"
    "\<not> sigAborted (streamCancel s) \<longrightarrow> ws = contents (deltas env)"
    using w by (auto simp: on_wire_def)
  let ?tail = "if sigAborted (streamCancel s) \<or> doneFate env = Refused then []
      else [(DoneEvent, done_json rid)]"
  have "truthful rid env reply outcome (wire t)"
    by (rule truthfulI [where ws = ws and final = ?tail])
      (use ws c assms(2) in \<open>cases "doneFate env"; auto simp: stream_catch_def write_frame_def and_then_def
        start_def stream_check_def throwIfCancelled_def split: if_splits\<close>)+
  moreover have "streamPermit t = streamPermit s"
    using c by (cases "doneFate env") (auto simp: stream_catch_def write_frame_def and_then_def
        start_def stream_check_def throwIfCancelled_def split: if_splits)
  ultimately show ?thesis ..
qed

lemma catch_before_stream:
  assumes "wire s = []" "\<not> started s" "stream_catch rid env (Inl e, s) = ((reply, outcome), t)"
  shows "truthful rid env reply outcome (wire t) \<and> streamPermit t = streamPermit s"
  using assms
  by (auto simp: stream_catch_def split: if_splits intro!: truthfulI [where ws = "[]" and final = "[]"])

section \<open>Properties\<close>

text \<open>
  C9: The chat handler keeps its resources in order on every path: a permit it acquires is
  released exactly once, and before anything is written to the cache; the provider is called at
  most once and only while the permit is held; an answer comes from the cache without calling the
  provider, or from the one provider call; only that call's answer is cached, only after a miss;
  and exactly one lookup metric is recorded, with the status the lookup had.
\<close>

theorem chat_handler_contract:
  assumes "chat_handler env c wanted = (res, s)"
  shows "\<not> permit s \<and> filter is_permit (effects s) \<in> {[], [PermitAcquired, PermitReleased]} \<and>
    (ProviderCalled \<in> set (effects s) \<longrightarrow>
      (\<exists>pre post. effects s = pre @ [PermitAcquired, ProviderCalled, PermitReleased] @ post \<and>
        ProviderCalled \<notin> set (pre @ post) \<and> cacheStatus s \<noteq> HIT)) \<and>
    (\<forall>r. res = Answered r \<longrightarrow>
      (if ProviderCalled \<in> set (effects s) then chatResult env = Inr r
       else wanted \<and> getResult env = Inr (Some r) \<and> cacheStatus s = HIT)) \<and>
    (\<forall>r. CacheWritten r \<in> set (effects s) \<longrightarrow>
      chatResult env = Inr r \<and> getResult env = Inr None \<and> wanted \<and>
      effects s = [CacheRead, PermitAcquired, ProviderCalled, PermitReleased, CacheWritten r,
        MetricRecorded (CacheLookup MISS)]) \<and>
    filter is_metric (effects s) = [MetricRecorded (CacheLookup (cacheStatus s))]"
proof -
  from assms obtain x t where t: "chat_trace env wanted (x, t)" "res = chat_catch (x, t)" "\<not> permit s"
    "cacheStatus s = cacheStatus t"
    "effects s = effects t @ MetricRecorded (CacheLookup (cacheStatus t)) # (if permit t then [PermitReleased] else [])"
    by (rule chat_handler_trace)
  let ?rd = "if wanted then [CacheRead] else []"
  have called: "\<exists>pre post. effects s = pre @ [PermitAcquired, ProviderCalled, PermitReleased] @ post \<and>
        ProviderCalled \<notin> set (pre @ post) \<and> cacheStatus s \<noteq> HIT"
    if "effects s = ?rd @ [PermitAcquired, ProviderCalled, PermitReleased] @ post"
      "ProviderCalled \<notin> set post" "cacheStatus s \<noteq> HIT" for post
    using that by (intro exI [of _ ?rd] exI [of _ post]) auto
  from t(1) show ?thesis
    by cases (use t(2-5) called in \<open>auto simp: chat_catch_def is_permit_def is_metric_def split: if_splits\<close>)
qed

theorem chat_handler_contract_witness:
  "let env = \<lparr>getResult = Inr None, duringGet = [], acquireResult = Inr (), duringAcquire = [],
         chatResult = Inr \<lparr>answer = js ''hi''\<rparr>, duringChat = [], putResult = Inr (), duringPut = []\<rparr>;
       s = snd (chat_handler env (requestCancellation False False False) True)
   in CacheWritten \<lparr>answer = js ''hi''\<rparr> \<in> set (effects s) \<and>
      effects s = [CacheRead, PermitAcquired, ProviderCalled, PermitReleased,
        CacheWritten \<lparr>answer = js ''hi''\<rparr>, MetricRecorded (CacheLookup MISS)]"
proof -
  let ?env = "\<lparr>getResult = Inr None, duringGet = [], acquireResult = Inr (), duringAcquire = [],
         chatResult = Inr \<lparr>answer = js ''hi''\<rparr>, duringChat = [], putResult = Inr (), duringPut = []\<rparr>"
  let ?c = "requestCancellation False False False"
  have "CacheWritten \<lparr>answer = js ''hi''\<rparr> \<in> set (effects (snd (chat_handler ?env ?c True)))"
    by (simp add: chat_handler_def chat_body_def chat_finally_def requestCancellation_def model_simps)
  then show ?thesis
    using chat_handler_contract [OF surjective_pairing, of ?env ?c True] unfolding Let_def by blast
qed

text \<open>
  C36: A cancelled chat request is never answered: when the client disconnects or the gateway shuts
  down before the handler starts, or during any step it waits for (the lookup, the admission, the
  provider call, the store), it destroys the connection instead of replying; and every request
  leaves its listeners removed and its downstream work aborted.
\<close>

theorem chat_cancelled_destroyed:
  assumes "chat_handler env c wanted = (res, s)" and "subscribed c"
    and "sigAborted c \<or> CacheRead \<in> set (effects s) \<and> list_ex aborts (duringGet env) \<or>
      cacheStatus s \<noteq> HIT \<and> list_ex aborts (duringAcquire env) \<or>
      ProviderCalled \<in> set (effects s) \<and> list_ex aborts (duringChat env) \<or>
      (\<exists>r. CacheWritten r \<in> set (effects s)) \<and> list_ex aborts (duringPut env)"
  shows "res = Destroyed \<and> sigAborted (cancel s) \<and> \<not> subscribed (cancel s)"
proof -
  from assms(1) obtain x t where t:
    "chat_body env \<lparr>cancel = c, permit = False, useCache = wanted, cacheStatus = BYPASS, effects = []\<rparr> = (x, t)"
    "chat_trace env wanted (x, t)" "res = chat_catch (x, t)" "cacheStatus s = cacheStatus t"
    "effects s = effects t @ MetricRecorded (CacheLookup (cacheStatus t)) # (if permit t then [PermitReleased] else [])"
    "sigAborted (cancel s)" "\<not> subscribed (cancel s)"
    by (rule chat_handler_trace)
  have "wanted" if "CacheRead \<in> set (effects t)"
    using t(2) that by cases (auto split: if_splits)
  with chat_body_aborts [OF t(1) assms(2)] assms(3) t(4,5)
  have "sigAborted (cancel t) \<or> x = Inl RequestAbortedError" by (auto split: if_splits)
  moreover from t(2) have "\<not> sigAborted (cancel t)" if "x = Inr r" for r
    using that by cases auto
  ultimately have "res = Destroyed"
    using t(3) by (cases x) (auto simp: chat_catch_def)
  with t(6,7) show ?thesis by simp
qed

theorem chat_cancelled_destroyed_witness:
  "let env = \<lparr>getResult = Inr None, duringGet = [], acquireResult = Inr (), duringAcquire = [],
         chatResult = Inr \<lparr>answer = js ''hi''\<rparr>, duringChat = [ClientAborted], putResult = Inr (), duringPut = []\<rparr>
   in fst (chat_handler env (requestCancellation False False False) False) = Destroyed"
proof -
  let ?env = "\<lparr>getResult = Inr None, duringGet = [], acquireResult = Inr (), duringAcquire = [],
         chatResult = Inr \<lparr>answer = js ''hi''\<rparr>, duringChat = [ClientAborted], putResult = Inr (), duringPut = []\<rparr>"
  let ?c = "requestCancellation False False False"
  have "ProviderCalled \<in> set (effects (snd (chat_handler ?env ?c False)))"
    by (simp add: chat_handler_def chat_body_def chat_finally_def requestCancellation_def model_simps)
  moreover have "list_ex aborts (duringChat ?env)" "subscribed ?c"
    by (simp_all add: aborts_def requestCancellation_def)
  ultimately show ?thesis
    using chat_cancelled_destroyed [of ?env ?c False "fst (chat_handler ?env ?c False)" "snd (chat_handler ?env ?c False)"]
    unfolding Let_def by simp
qed

text \<open>
  C6: What a streaming client receives is truthful: the frames are deltas, in order a prefix of
  the provider's non-empty deltas, and then at most one terminal event; \<open>done\<close> is written only
  when the provider's stream succeeded and every delta is on the wire, \<open>error\<close> only when it failed
  with that error; a stream is counted completed exactly when it ended after \<open>done\<close>; an error is
  thrown to the HTTP error handler only while nothing has been written; and a permit that was
  acquired is released exactly once.
\<close>

theorem stream_truthful:
  assumes "stream_handler rid env c = (reply, metric, s, released)"
  shows "(\<exists>ws final. wire s = delta_frames rid ws @ final \<and> prefix ws (contents (deltas env)) \<and>
      (final = [] \<or>
       final = [(DoneEvent, done_json rid)] \<and> streamResult env = Inr () \<and> ws = contents (deltas env) \<or>
       (\<exists>e. final = [(ErrorEvent, error_json rid e)] \<and> streamResult env = Inl e \<and> ws = contents (deltas env)
         \<and> metric = StreamEnd StreamFailed)) \<and>
      (metric = StreamEnd StreamCompleted \<longrightarrow> final = [(DoneEvent, done_json rid)] \<and> reply = StreamEnded)) \<and>
    (\<forall>e. reply = StreamThrew e \<longrightarrow> wire s = [] \<and> metric = StreamEnd StreamFailed) \<and>
    released = (if permitResult env = Inr () then 1 else 0) \<and> \<not> streamPermit s"
proof -
  let ?s0 = "\<lparr>streamCancel = c, streamPermit = False, started = False, wire = []\<rparr>"
  define s1 where "s1 = (stream_awaiting (duringPermit env) ?s0)\<lparr>streamPermit := True\<rparr>"
  define s2 where "s2 = stream_awaiting (beforeEnd env) (foldl (on_delta rid) s1 (deltas env))"
  have "on_wire rid [] s1" by (simp add: on_wire_def s1_def stream_awaiting_def)
  from deltas_wire [OF this, of "deltas env"] have s2: "on_wire rid (contents (deltas env)) s2"
    by (simp add: s2_def on_wire_await)
  have permit: "streamPermit s2" by (simp add: s2_def stream_awaiting_def deltas_permit s1_def)
  obtain outcome t where t:
    "stream_catch rid env (stream_body rid env ?s0) = ((reply, outcome), t)"
    "metric = StreamEnd outcome" "wire s = wire t" "\<not> streamPermit s" "released = (if streamPermit t then 1 else 0)"
    using assms by (auto simp: stream_handler_def Let_def split: prod.splits)
  have "truthful rid env reply outcome (wire t) \<and> (streamPermit t \<longleftrightarrow> permitResult env = Inr ())"
  proof (cases "permitResult env")
    case (Inl e)
    with t(1) catch_before_stream [of "stream_awaiting (duringPermit env) ?s0" rid env e reply outcome t]
    show ?thesis by (simp add: stream_body_def and_then_def stream_awaiting_def)
  next
    case (Inr u)
    have s1: "wire s1 = []" "\<not> started s1" "streamPermit s1" by (simp_all add: s1_def stream_awaiting_def)
    have body: "stream_body rid env ?s0 =
        (if sigAborted (streamCancel s1) then (Inl RequestAbortedError, s1)
         else if \<not> providerStreams env then (Inl (App ProviderStreamingUnsupportedError), s1)
         else and_then (streamResult env, s2) (\<lambda>_ s. and_then (start s) (\<lambda>_ s.
           write_frame DoneEvent (done_json rid) (doneFate env) s)))"
      using Inr by (simp add: stream_body_def and_then_def stream_check_def throwIfCancelled_def s1_def s2_def)
    show ?thesis
    proof (cases "sigAborted (streamCancel s1) \<or> \<not> providerStreams env")
      case True
      with body t(1) s1 Inr catch_before_stream [OF s1(1,2)] show ?thesis by (auto split: if_splits)
    next
      case False
      with body t(1) permit Inr show ?thesis
        by (cases "streamResult env")
          (auto simp: and_then_def dest!: catch_failed_stream [OF s2] catch_ended_stream [OF s2, unfolded and_then_def])
    qed
  qed
  with t(2-5) show ?thesis unfolding truthful_def by simp
qed

theorem stream_truthful_witness:
  "let env = \<lparr>permitResult = Inr (), duringPermit = [], providerStreams = True,
         deltas = [\<lparr>deltaContent = js ''hi'', beforeDelta = [], deltaFate = Flushed\<rparr>],
         streamResult = Inl (App (ProviderResponseError (js ''Ollama''))), beforeEnd = [], doneFate = Flushed,
         needsDrain = False, errorFate = Flushed\<rparr>;
       (reply, metric, s, released) = stream_handler (js ''r'') env (requestCancellation False False False)
   in released = 1 \<and> \<not> streamPermit s \<and> metric = StreamEnd StreamFailed \<and>
      map fst (wire s) = [DeltaEvent, ErrorEvent]"
proof -
  let ?env = "\<lparr>permitResult = Inr (), duringPermit = [], providerStreams = True,
         deltas = [\<lparr>deltaContent = js ''hi'', beforeDelta = [], deltaFate = Flushed\<rparr>],
         streamResult = Inl (App (ProviderResponseError (js ''Ollama''))), beforeEnd = [], doneFate = Flushed,
         needsDrain = False, errorFate = Flushed\<rparr>"
  obtain reply metric s released where h:
    "stream_handler (js ''r'') ?env (requestCancellation False False False) = (reply, metric, s, released)"
    by (metis prod_cases4)
  from stream_truthful [OF h] have "released = 1" "\<not> streamPermit s" by simp_all
  moreover from h have "metric = StreamEnd StreamFailed" "map fst (wire s) = [DeltaEvent, ErrorEvent]"
    by (auto simp: stream_handler_def stream_body_def stream_catch_def on_delta_def start_def write_frame_def
        and_then_def stream_check_def stream_awaiting_def throwIfCancelled_def requestCancellation_def Let_def)
  ultimately show ?thesis using h by (simp add: Let_def)
qed

end
