(* ===== verification/Provider_Adapters.thy ===== *)
theory Provider_Adapters
  imports Stream_Parser Canonical_Hash
begin

text \<open>
  The provider adapters of \<open>src/providers/ollama.ts\<close> and \<open>src/providers/openai.ts\<close> with the
  deadline every call runs under (\<open>src/providers/http-request.ts\<close> and \<open>abortable\<close> of
  \<open>src/cancellation.ts\<close>). \<open>fetch\<close> and the body of a response are the environment: a call takes
  the exchange it has with the server, the abort reasons \<open>throwIfAborted\<close> sees at each of its
  checks, and what the delta consumer does. A streaming call is the list of the deltas it hands
  to the consumer with the way it ends, as the generators of the stream parser are.
\<close>

section \<open>Definitions\<close>

subsection \<open>The deadline of a call\<close>

text \<open>
  \<open>controller\<close> is the reason of the call's abort controller, \<open>race\<close> the promise of \<open>abortable\<close>;
  \<open>cancelled\<close> records the final \<open>controller.abort()\<close> that terminates unread bodies.
\<close>

record 'a deadline =
  controller :: "error option"
  race :: "(error + 'a) option"
  timer :: bool
  parentListening :: bool
  cancelled :: bool
  callResult :: "(error + 'a) option"

datatype 'a deadline_event =
    OperationSettles "error + 'a"
  | ParentAborts
  | TimerFires
  | Continue \<comment> \<open>the microtask that resumes after the awaited race\<close>

text \<open>\<open>controller.abort(reason)\<close>: the first abort sets the reason and, by \<open>onAbort\<close>, loses the race.\<close>

definition abort_with :: "error \<Rightarrow> 'a deadline \<Rightarrow> 'a deadline" where
  "abort_with e s =
     (if controller s \<noteq> None \<or> cancelled s then s
      else s\<lparr>controller := Some e, race := (if race s = None then Some (Inl e) else race s)\<rparr>)"

definition deadline_begin :: "bool \<Rightarrow> error + 'a deadline" where
  "deadline_begin parentAborted =
     (case throwIfCancelled parentAborted of
        Inl e \<Rightarrow> Inl e
      | Inr _ \<Rightarrow> Inr \<lparr>controller = None, race = None, timer = True, parentListening = True,
                       cancelled = False, callResult = None\<rparr>)"

definition deadline_finish :: "error + 'a \<Rightarrow> 'a deadline \<Rightarrow> 'a deadline" where
  "deadline_finish r s =
     s\<lparr>callResult := Some r, timer := False, parentListening := False, cancelled := True\<rparr>"

fun deadline_step :: "jstring \<Rightarrow> time \<Rightarrow> 'a deadline \<Rightarrow> 'a deadline_event \<Rightarrow> 'a deadline" where
  "deadline_step prov ms s (OperationSettles r) = (if race s = None then s\<lparr>race := Some r\<rparr> else s)"
| "deadline_step prov ms s ParentAborts =
     (if parentListening s then abort_with RequestAbortedError (s\<lparr>parentListening := False\<rparr>) else s)"
| "deadline_step prov ms s TimerFires =
     (if timer s then abort_with (App (ProviderTimeoutError prov ms)) (s\<lparr>timer := False\<rparr>) else s)"
| "deadline_step prov ms s Continue =
     (case (callResult s, race s) of
        (None, Some (Inl e)) \<Rightarrow> deadline_finish (Inl e) s
      | (None, Some (Inr v)) \<Rightarrow>
          deadline_finish (case controller s of Some e \<Rightarrow> Inl e | None \<Rightarrow> Inr v) s
      | _ \<Rightarrow> s)"

subsection \<open>The exchange with a server\<close>

text \<open>
  \<open>jsonBody\<close> is the outcome of \<open>response.json()\<close> (\<open>None\<close> when it rejects), \<open>bodyReads\<close> the
  outcomes of reading the body part by part.
\<close>

record http_response =
  status :: int
  hasBody :: bool
  jsonBody :: "json option"
  bodyReads :: "read_event list"

definition ok :: "http_response \<Rightarrow> bool" where
  "ok r \<longleftrightarrow> 200 \<le> status r \<and> status r \<le> 299"

text \<open>
  The abort reasons seen on entry, after the fetch or its error body, and after the JSON body;
  \<open>fetched\<close> is \<open>None\<close> when the fetch rejects.
\<close>

record exchange =
  abortedBefore :: "error option"
  fetched :: "http_response option"
  abortedAfterFetch :: "error option"
  abortedAfterBody :: "error option"

definition throwIfAborted :: "error option \<Rightarrow> error + unit" where
  "throwIfAborted sig = (case sig of Some e \<Rightarrow> Inl e | None \<Rightarrow> Inr ())"

record http_request =
  reqUrl :: jstring
  reqHeaders :: "(string \<times> jstring) list"
  reqBody :: json

subsection \<open>Ollama\<close>

abbreviation Ollama :: jstring where
  "Ollama \<equiv> js ''Ollama''"

record OllamaProvider =
  chatUrl :: jstring
  ollamaTimeoutMs :: int

definition valid_timeout :: "number \<Rightarrow> bool" where
  "valid_timeout n \<longleftrightarrow>
     \<not> (\<not> number_isInteger n \<or> number_less n (Num 1) \<or> number_less (Num 2147483647) n)"

text \<open>\<open>resolve\<close> is \<open>new URL(path, base)\<close>, \<open>None\<close> when it throws.\<close>

definition newOllamaProvider ::
  "(string \<Rightarrow> jstring \<Rightarrow> jstring option) \<Rightarrow> jstring \<Rightarrow> number \<Rightarrow> error + OllamaProvider" where
  "newOllamaProvider resolve baseUrl requestTimeoutMs =
     (if \<not> valid_timeout requestTimeoutMs
      then Inl (OtherError (js ''Ollama request timeout must be a positive integer''))
      else
        (let normalizedBaseUrl = (if baseUrl \<noteq> [] \<and> last baseUrl = 47 then baseUrl else baseUrl @ js ''/'') in
         case resolve ''api/chat'' normalizedBaseUrl of
           None \<Rightarrow> Inl (OtherError (js ''Invalid Ollama base URL: '' @ baseUrl))
         | Some url \<Rightarrow> Inr \<lparr>chatUrl = url, ollamaTimeoutMs = int_of_number requestTimeoutMs\<rparr>))"

text \<open>The properties of the request body: the chat request and the stream flag.\<close>

definition body_of :: "ChatRequest \<Rightarrow> bool \<Rightarrow> (jstring \<times> json) list" where
  "body_of request stream =
     [(js ''model'', JStr (model request)), (js ''messages'', JArr (map json_of_message (messages request))),
      (js ''stream'', JBool stream)]"

definition ollama_request :: "OllamaProvider \<Rightarrow> ChatRequest \<Rightarrow> bool \<Rightarrow> http_request" where
  "ollama_request p request stream =
     \<lparr>reqUrl = chatUrl p, reqHeaders = [(''content-type'', js ''application/json'')],
      reqBody = JObj (body_of request stream)\<rparr>"

definition readErrorDetail :: "http_response \<Rightarrow> jstring option" where
  "readErrorDetail r =
     (case jsonBody r of
        None \<Rightarrow> None
      | Some body \<Rightarrow> (case jprop body ''error'' of Some (JStr s) \<Rightarrow> Some (take 300 s) | _ \<Rightarrow> None))"

definition ollama_send :: "exchange \<Rightarrow> error + http_response" where
  "ollama_send x =
     (case throwIfAborted (abortedBefore x) of
        Inl e \<Rightarrow> Inl e
      | Inr _ \<Rightarrow>
          (case fetched x of
             None \<Rightarrow>
               (case throwIfAborted (abortedAfterFetch x) of
                  Inl e \<Rightarrow> Inl e | Inr _ \<Rightarrow> Inl (App (ProviderConnectionError Ollama)))
           | Some r \<Rightarrow>
               if \<not> ok r then
                 (case throwIfAborted (abortedAfterFetch x) of
                    Inl e \<Rightarrow> Inl e
                  | Inr _ \<Rightarrow> Inl (App (ProviderHttpError Ollama (status r) (readErrorDetail r))))
               else Inr r))"

definition ollama_chat :: "exchange \<Rightarrow> error + ChatResponse" where
  "ollama_chat x =
     (case ollama_send x of
        Inl e \<Rightarrow> Inl e
      | Inr r \<Rightarrow>
          (case jsonBody r of
             None \<Rightarrow>
               (case throwIfAborted (abortedAfterBody x) of
                  Inl e \<Rightarrow> Inl e | Inr _ \<Rightarrow> Inl (bad_response Ollama))
           | Some data \<Rightarrow>
               (case jprop data ''message'' of
                  Some msg \<Rightarrow>
                    (case jprop msg ''content'' of
                       Some (JStr c) \<Rightarrow> Inr \<lparr>answer = c\<rparr>
                     | _ \<Rightarrow> Inl (bad_response Ollama))
                | None \<Rightarrow> Inl (bad_response Ollama))))"

text \<open>
  One frame of the stream: the content to hand on, if any, and whether it is the last.
\<close>

definition ollama_message :: "json \<Rightarrow> error + jstring" where
  "ollama_message msg =
     (case jprop msg ''content'' of
        Some (JStr c) \<Rightarrow>
          if (jprop msg ''role'' \<noteq> None \<and> jprop msg ''role'' \<noteq> Some (JStr (js ''assistant'')))
            \<or> (case jprop msg ''tool_calls'' of Some (JArr calls) \<Rightarrow> length calls > 0 | _ \<Rightarrow> False)
          then Inl (bad_response Ollama) else Inr c
      | _ \<Rightarrow> Inl (bad_response Ollama))"

definition ollama_frame :: "json \<Rightarrow> error + jstring \<times> bool" where
  "ollama_frame data =
     (case (jprop data ''error'', jprop data ''done'') of
        (None, Some (JBool isDone)) \<Rightarrow>
          (case jprop data ''message'' of
             Some msg \<Rightarrow> map_sum id (\<lambda>c. (c, isDone)) (ollama_message msg)
           | None \<Rightarrow> if \<not> isDone then Inl (bad_response Ollama) else Inr ([], isDone))
      | _ \<Rightarrow> Inl (bad_response Ollama))"

text \<open>
  The abort reason seen at the i-th check of a stream, and what the consumer does with the i-th
  delta.
\<close>

record stream_env =
  abortedAt :: "nat \<Rightarrow> error option"
  rejects :: "nat \<Rightarrow> error option"

definition hand_on :: "stream_env \<Rightarrow> nat \<Rightarrow> jstring \<Rightarrow> generated \<Rightarrow> generated" where
  "hand_on env i c rest =
     (if c = [] then rest
      else case rejects env i of Some e \<Rightarrow> ([c], GenThrew e) | None \<Rightarrow> after [c] rest)"

fun ollama_loop :: "stream_env \<Rightarrow> nat \<Rightarrow> jstring list \<Rightarrow> gen_end \<Rightarrow> generated" where
  "ollama_loop env i [] e = ([], if e = GenDone then GenThrew (bad_response Ollama) else e)"
| "ollama_loop env i (line # ls) e =
     (if js_trim line = [] then ollama_loop env (Suc i) ls e
      else case throwIfAborted (abortedAt env i) of
        Inl err \<Rightarrow> ([], GenThrew err)
      | Inr _ \<Rightarrow>
          (case parseStreamJson line Ollama of
             Inl err \<Rightarrow> ([], GenThrew err)
           | Inr data \<Rightarrow>
               (case ollama_frame data of
                  Inl err \<Rightarrow> ([], GenThrew err)
                | Inr (c, isDone) \<Rightarrow>
                    hand_on env i c (if isDone then ([], GenDone) else ollama_loop env (Suc i) ls e))))"

definition ollama_stream :: "stream_env \<Rightarrow> exchange \<Rightarrow> generated" where
  "ollama_stream env x =
     (case ollama_send x of
        Inl e \<Rightarrow> ([], GenThrew e)
      | Inr r \<Rightarrow> (case readLines Ollama (hasBody r) (bodyReads r) of (ls, e) \<Rightarrow> ollama_loop env 0 ls e))"

subsection \<open>OpenAI\<close>

abbreviation OpenAI :: jstring where
  "OpenAI \<equiv> js ''OpenAI''"

record OpenAIProvider =
  apiKey :: jstring
  openaiTimeoutMs :: int

definition newOpenAIProvider :: "jstring \<Rightarrow> number \<Rightarrow> error + OpenAIProvider" where
  "newOpenAIProvider key requestTimeoutMs =
     (if \<not> (key \<noteq> [] \<and> list_all (\<lambda>u. 0x21 \<le> u \<and> u \<le> 0x7E) key)
      then Inl (OtherError (js ''OpenAI API key must be a non-empty token without whitespace''))
      else if \<not> valid_timeout requestTimeoutMs
      then Inl (OtherError (js ''OpenAI request timeout must be a positive integer''))
      else Inr \<lparr>apiKey = key, openaiTimeoutMs = int_of_number requestTimeoutMs\<rparr>)"

definition openai_request :: "OpenAIProvider \<Rightarrow> ChatRequest \<Rightarrow> bool \<Rightarrow> http_request" where
  "openai_request p request stream =
     \<lparr>reqUrl = js ''https://api.openai.com/v1/chat/completions'',
      reqHeaders = [(''authorization'', js ''Bearer '' @ apiKey p), (''content-type'', js ''application/json'')],
      reqBody = JObj (body_of request stream @ [(js ''store'', JBool False)])\<rparr>"

definition openai_send :: "exchange \<Rightarrow> error + http_response" where
  "openai_send x =
     (case throwIfAborted (abortedBefore x) of
        Inl e \<Rightarrow> Inl e
      | Inr _ \<Rightarrow>
          (case fetched x of
             None \<Rightarrow>
               (case throwIfAborted (abortedAfterFetch x) of
                  Inl e \<Rightarrow> Inl e | Inr _ \<Rightarrow> Inl (App (ProviderConnectionError OpenAI)))
           | Some r \<Rightarrow>
               if \<not> ok r then Inl (App (ProviderHttpError OpenAI (status r) None)) else Inr r))"

text \<open>\<open>value == null\<close>: undefined or null.\<close>

definition nullish :: "json option \<Rightarrow> bool" where
  "nullish v \<longleftrightarrow> v = None \<or> v = Some JNull"

definition textContent :: "json \<Rightarrow> error + jstring" where
  "textContent msg =
     (case jprop msg ''content'' of
        Some (JStr c) \<Rightarrow> Inr c
      | c \<Rightarrow> if nullish c
             then (case jprop msg ''refusal'' of Some (JStr s) \<Rightarrow> Inr s | _ \<Rightarrow> Inl (bad_response OpenAI))
             else Inl (bad_response OpenAI))"

definition openai_chat :: "exchange \<Rightarrow> error + ChatResponse" where
  "openai_chat x =
     (case openai_send x of
        Inl e \<Rightarrow> Inl e
      | Inr r \<Rightarrow>
          (case jsonBody r of
             None \<Rightarrow>
               (case throwIfAborted (abortedAfterBody x) of
                  Inl e \<Rightarrow> Inl e | Inr _ \<Rightarrow> Inl (bad_response OpenAI))
           | Some data \<Rightarrow>
               (case jprop data ''choices'' of
                  Some (JArr (choice # _)) \<Rightarrow>
                    (case jprop choice ''message'' of
                       Some msg \<Rightarrow>
                         if jprop msg ''role'' \<noteq> Some (JStr (js ''assistant'')) then Inl (bad_response OpenAI)
                         else map_sum id (\<lambda>c. \<lparr>answer = c\<rparr>) (textContent msg)
                     | None \<Rightarrow> Inl (bad_response OpenAI))
                | _ \<Rightarrow> Inl (bad_response OpenAI))))"

text \<open>
  \<open>String(value)\<close> where it can be one of the finish reasons: a string, or an array whose only
  element prints as one. Every other value prints as a number, a literal, an object or a text
  with a comma.
\<close>

fun reason_string :: "json \<Rightarrow> jstring" where
  "reason_string (JStr s) = s"
| "reason_string (JArr [v]) = reason_string v"
| "reason_string _ = []"

definition finish_reasons :: "jstring list" where
  "finish_reasons = [js ''stop'', js ''length'', js ''content_filter'']"

text \<open>The checks on the choice of a frame: its content, and whether it carries a finish reason.\<close>

definition openai_delta :: "json \<Rightarrow> error + jstring" where
  "openai_delta choice =
     (case jprop choice ''delta'' of
        Some delta \<Rightarrow>
          if \<not> isObject delta
            \<or> (jprop choice ''index'' \<noteq> None \<and> jprop choice ''index'' \<noteq> Some (JNum 0))
            \<or> (jprop delta ''role'' \<noteq> None \<and> jprop delta ''role'' \<noteq> Some (JStr (js ''assistant'')))
            \<or> jprop delta ''tool_calls'' \<noteq> None \<or> jprop delta ''function_call'' \<noteq> None
          then Inl (bad_response OpenAI)
          else if nullish (jprop delta ''content'') \<and> nullish (jprop delta ''refusal'') then Inr []
          else textContent delta
      | None \<Rightarrow> Inl (bad_response OpenAI))"

definition openai_finish :: "json \<Rightarrow> error + bool" where
  "openai_finish choice =
     (case jprop choice ''finish_reason'' of
        None \<Rightarrow> Inr False
      | Some JNull \<Rightarrow> Inr False
      | Some v \<Rightarrow> if reason_string v \<in> set finish_reasons then Inr True else Inl (bad_response OpenAI))"

text \<open>The first choice of a frame, \<open>None\<close> for a usage-only frame.\<close>

definition openai_choice :: "json \<Rightarrow> error + json option" where
  "openai_choice data =
     (case (jprop data ''error'', jprop data ''choices'') of
        (None, Some (JArr [])) \<Rightarrow> Inr None
      | (None, Some (JArr (choice # _))) \<Rightarrow> Inr (Some choice)
      | _ \<Rightarrow> Inl (bad_response OpenAI))"

fun openai_loop :: "stream_env \<Rightarrow> nat \<Rightarrow> bool \<Rightarrow> jstring list \<Rightarrow> gen_end \<Rightarrow> generated" where
  "openai_loop env i finished [] e = ([], if e = GenDone then GenThrew (bad_response OpenAI) else e)"
| "openai_loop env i finished (event # evs) e =
     (case throwIfAborted (abortedAt env i) of
        Inl err \<Rightarrow> ([], GenThrew err)
      | Inr _ \<Rightarrow>
          if event = js ''[DONE]'' then
            ([], if \<not> finished then GenThrew (bad_response OpenAI) else GenDone)
          else
            (case parseStreamJson event OpenAI of
               Inl err \<Rightarrow> ([], GenThrew err)
             | Inr data \<Rightarrow>
                 (case openai_choice data of
                    Inl err \<Rightarrow> ([], GenThrew err)
                  | Inr None \<Rightarrow> openai_loop env (Suc i) finished evs e
                  | Inr (Some choice) \<Rightarrow>
                      if finished then ([], GenThrew (bad_response OpenAI))
                      else case openai_delta choice of
                        Inl err \<Rightarrow> ([], GenThrew err)
                      | Inr c \<Rightarrow>
                          hand_on env i c
                            (case openai_finish choice of
                               Inl err \<Rightarrow> ([], GenThrew err)
                             | Inr fin \<Rightarrow> openai_loop env (Suc i) (finished \<or> fin) evs e))))"

definition openai_stream :: "stream_env \<Rightarrow> exchange \<Rightarrow> generated" where
  "openai_stream env x =
     (case openai_send x of
        Inl e \<Rightarrow> ([], GenThrew e)
      | Inr r \<Rightarrow>
          (case readSseData OpenAI (hasBody r) (bodyReads r) of (es, e) \<Rightarrow> openai_loop env 0 False es e))"

subsection \<open>Reference: what a sequence of frames says\<close>

definition pieces :: "jstring \<Rightarrow> jstring list" where
  "pieces c = (if c = [] then [] else [c])"

text \<open>The contents up to the first final or malformed frame, and whether that frame is final.\<close>

fun ollama_answer :: "jstring list \<Rightarrow> jstring list \<times> bool" where
  "ollama_answer [] = ([], False)"
| "ollama_answer (line # ls) =
     (if js_trim line = [] then ollama_answer ls
      else case parseStreamJson line Ollama of
        Inl _ \<Rightarrow> ([], False)
      | Inr data \<Rightarrow>
          (case ollama_frame data of
             Inl _ \<Rightarrow> ([], False)
           | Inr (c, True) \<Rightarrow> (pieces c, True)
           | Inr (c, False) \<Rightarrow> (pieces c @ fst (ollama_answer ls), snd (ollama_answer ls))))"

fun openai_answer :: "bool \<Rightarrow> jstring list \<Rightarrow> jstring list \<times> bool" where
  "openai_answer finished [] = ([], False)"
| "openai_answer finished (event # evs) =
     (if event = js ''[DONE]'' then ([], finished)
      else case parseStreamJson event OpenAI of
        Inl _ \<Rightarrow> ([], False)
      | Inr data \<Rightarrow>
          (case openai_choice data of
             Inl _ \<Rightarrow> ([], False)
           | Inr None \<Rightarrow> openai_answer finished evs
           | Inr (Some choice) \<Rightarrow>
               (case (finished, openai_delta choice, openai_finish choice) of
                  (False, Inr c, Inr fin) \<Rightarrow>
                    (pieces c @ fst (openai_answer fin evs), snd (openai_answer fin evs))
                | (False, Inr c, Inl _) \<Rightarrow> (pieces c, False)
                | _ \<Rightarrow> ([], False))))"

definition quiet :: "stream_env \<Rightarrow> bool" where
  "quiet env \<longleftrightarrow> (\<forall>i. abortedAt env i = None \<and> rejects env i = None)"

text \<open>A run of a protocol against the answer it should give.\<close>

definition follows :: "stream_env \<Rightarrow> generated \<Rightarrow> jstring list \<times> bool \<Rightarrow> bool" where
  "follows env g ans \<longleftrightarrow>
     prefix (fst g) (fst ans) \<and>
     (snd g = GenDone \<longrightarrow> g = (fst ans, GenDone) \<and> snd ans) \<and>
     (quiet env \<longrightarrow> fst g = fst ans \<and> (snd g = GenDone \<longleftrightarrow> snd ans))"

section \<open>Lemmas\<close>

subsection \<open>Streams\<close>

lemma throwIfAborted_simps [simp]:
  "throwIfAborted None = Inr ()" "throwIfAborted (Some e) = Inl e"
  by (simp_all add: throwIfAborted_def)

lemma follows_stop [simp]:
  "follows env ([], GenThrew e) ([], False)" "follows env ([], GenWaiting) ([], False)"
  "follows env ([], GenDone) ([], True)"
  by (auto simp: follows_def)

lemma follows_abort: "abortedAt env i = Some e \<Longrightarrow> follows env ([], GenThrew e') ans"
  by (auto simp: follows_def quiet_def)

lemma follows_hand_on:
  assumes "follows env g ans"
  shows "follows env (hand_on env i c g) (pieces c @ fst ans, snd ans)"
  using assms
  by (cases g) (auto simp: follows_def hand_on_def pieces_def after_def quiet_def split: option.splits)

lemma ollama_loop_follows: "follows env (ollama_loop env i ls e) (ollama_answer ls)"
proof (induction ls arbitrary: i)
  case Nil
  then show ?case by (cases e) auto
next
  case (Cons line ls)
  note step = follows_hand_on [OF Cons.IH] follows_hand_on [OF follows_stop(3)]
  show ?case
    using Cons.IH
    by (cases "abortedAt env i")
      (auto simp: follows_abort step [simplified] split: sum.split prod.split bool.split)
qed

lemma openai_loop_follows: "follows env (openai_loop env i fin es e) (openai_answer fin es)"
proof (induction es arbitrary: i fin)
  case Nil
  then show ?case by (cases e) auto
next
  case (Cons event es)
  note step = follows_hand_on [OF Cons.IH] follows_hand_on [OF follows_stop(1)]
  show ?case
  proof (cases "abortedAt env i")
    case (Some err)
    then show ?thesis by (simp add: follows_abort)
  next
    case None
    then show ?thesis
      using Cons.IH
      by (auto simp: step [simplified] split: sum.split option.split bool.split)
  qed
qed

subsection \<open>Errors of a call\<close>

text \<open>The errors a call raises by itself.\<close>

definition own_error :: "jstring \<Rightarrow> error \<Rightarrow> bool" where
  "own_error prov err \<longleftrightarrow>
     err = App (ProviderConnectionError prov) \<or> err = bad_response prov \<or>
     (\<exists>st d. err = App (ProviderHttpError prov st d) \<and> \<not> (200 \<le> st \<and> st \<le> 299))"

text \<open>The reasons the environment has to make it fail: an abort or the consumer's error.\<close>

definition exchange_reason :: "exchange \<Rightarrow> error \<Rightarrow> bool" where
  "exchange_reason x err \<longleftrightarrow>
     Some err \<in> {abortedBefore x, abortedAfterFetch x, abortedAfterBody x} \<or>
     (\<exists>r. fetched x = Some r \<and> SignalAborted err \<in> set (bodyReads r))"

definition env_reason :: "stream_env \<Rightarrow> error \<Rightarrow> bool" where
  "env_reason env err \<longleftrightarrow> (\<exists>i. abortedAt env i = Some err \<or> rejects env i = Some err)"

lemma own_error_simps [simp]:
  "own_error prov (App (ProviderConnectionError prov))" "own_error prov (bad_response prov)"
  by (simp_all add: own_error_def)

lemma read_loop_errors:
  "snd (read_loop prov d p evs) = GenThrew err \<Longrightarrow> own_error prov err \<or> SignalAborted err \<in> set evs"
  by (induction prov d p evs rule: read_loop.induct)
    (auto simp: Let_def split: option.splits prod.splits if_splits)

lemma readLines_errors:
  "snd (readLines prov b evs) = GenThrew err \<Longrightarrow> own_error prov err \<or> SignalAborted err \<in> set evs"
  by (auto simp: readLines_def dest: read_loop_errors split: if_splits)

lemma sse_loop_errors:
  "snd (sse_loop prov data sz ls e) = GenThrew err \<Longrightarrow> own_error prov err \<or> e = GenThrew err"
  by (induction prov data sz ls e rule: sse_loop.induct) (auto simp: Let_def split: if_splits)

lemma readSseData_errors:
  "snd (readSseData prov b evs) = GenThrew err \<Longrightarrow> own_error prov err \<or> SignalAborted err \<in> set evs"
  by (auto simp: readSseData_def split_beta dest!: sse_loop_errors readLines_errors)

lemma parseStreamJson_error: "parseStreamJson s prov = Inl err \<Longrightarrow> err = bad_response prov"
  by (auto simp: parseStreamJson_def split: option.splits if_splits)

lemma ollama_message_error: "ollama_message m = Inl err \<Longrightarrow> err = bad_response Ollama"
  by (auto simp: ollama_message_def split: option.splits json.splits if_splits)

lemma ollama_frame_error: "ollama_frame d = Inl err \<Longrightarrow> err = bad_response Ollama"
  by (cases "ollama_message (the (jprop d ''message''))")
    (auto simp: ollama_frame_def dest: ollama_message_error split: option.splits json.splits if_splits)

lemma textContent_error: "textContent m = Inl err \<Longrightarrow> err = bad_response OpenAI"
  by (auto simp: textContent_def Let_def split: option.splits json.splits if_splits)

lemma openai_choice_error: "openai_choice d = Inl err \<Longrightarrow> err = bad_response OpenAI"
  by (auto simp: openai_choice_def split: option.splits json.splits list.splits)

lemma openai_delta_error: "openai_delta c = Inl err \<Longrightarrow> err = bad_response OpenAI"
  by (auto simp: openai_delta_def dest: textContent_error split: option.splits if_splits)

lemma openai_finish_error: "openai_finish c = Inl err \<Longrightarrow> err = bad_response OpenAI"
  by (auto simp: openai_finish_def split: option.splits json.splits if_splits)

lemmas protocol_errors = parseStreamJson_error ollama_frame_error openai_choice_error
  openai_delta_error openai_finish_error

lemma hand_on_errors:
  "snd (hand_on env i c g) = GenThrew err \<Longrightarrow> env_reason env err \<or> snd g = GenThrew err"
  by (auto simp: hand_on_def env_reason_def split: if_splits option.splits)

lemma ollama_loop_errors:
  "snd (ollama_loop env i ls e) = GenThrew err \<Longrightarrow> own_error Ollama err \<or> env_reason env err \<or> e = GenThrew err"
proof (induction ls arbitrary: i)
  case (Cons line ls)
  then show ?case
    by (cases "abortedAt env i")
      (auto simp: env_reason_def [of env err] dest!: protocol_errors hand_on_errors
        split: if_splits sum.splits)
qed (auto split: if_splits)

lemma openai_loop_errors:
  "snd (openai_loop env i fin es e) = GenThrew err \<Longrightarrow> own_error OpenAI err \<or> env_reason env err \<or> e = GenThrew err"
proof (induction es arbitrary: i fin)
  case (Cons event es)
  then show ?case
    by (cases "abortedAt env i")
      (auto simp: env_reason_def [of env err] dest!: protocol_errors hand_on_errors
        split: if_splits sum.splits option.splits)
qed (auto split: if_splits)

lemma ollama_send_errors:
  "ollama_send x = Inl err \<Longrightarrow> own_error Ollama err \<or> exchange_reason x err"
  by (auto simp: ollama_send_def exchange_reason_def own_error_def ok_def throwIfAborted_def
      split: option.splits if_splits)

lemma openai_send_errors:
  "openai_send x = Inl err \<Longrightarrow> own_error OpenAI err \<or> exchange_reason x err"
  by (auto simp: openai_send_def exchange_reason_def own_error_def ok_def throwIfAborted_def
      split: option.splits if_splits)

lemma ollama_chat_errors:
  assumes "ollama_chat x = Inl err"
  shows "own_error Ollama err \<or> exchange_reason x err"
proof (cases "ollama_send x")
  case (Inl e)
  with assms show ?thesis by (auto simp: ollama_chat_def dest: ollama_send_errors)
next
  case (Inr r)
  with assms show ?thesis
    by (auto simp: ollama_chat_def exchange_reason_def throwIfAborted_def
        split: option.splits json.splits)
qed

lemma openai_chat_errors:
  assumes "openai_chat x = Inl err"
  shows "own_error OpenAI err \<or> exchange_reason x err"
proof (cases "openai_send x")
  case (Inl e)
  with assms show ?thesis by (auto simp: openai_chat_def dest: openai_send_errors)
next
  case (Inr r)
  with assms show ?thesis
    by (cases "textContent (the (jprop (hd (case jprop (the (jsonBody r)) ''choices'' of Some (JArr cs) \<Rightarrow> cs)) ''message''))")
      (auto simp: openai_chat_def exchange_reason_def throwIfAborted_def dest: textContent_error
        split: option.splits json.splits list.splits if_splits)
qed

lemma sent_response:
  "ollama_send x = Inr r \<Longrightarrow> fetched x = Some r" "openai_send x = Inr r \<Longrightarrow> fetched x = Some r"
  by (auto simp: ollama_send_def openai_send_def throwIfAborted_def split: option.splits if_splits)

lemma read_reason: "fetched x = Some r \<Longrightarrow> SignalAborted err \<in> set (bodyReads r) \<Longrightarrow> exchange_reason x err"
  by (auto simp: exchange_reason_def)

subsection \<open>The deadline\<close>

definition deadline_inv :: "'a deadline \<Rightarrow> bool" where
  "deadline_inv s \<longleftrightarrow>
     (controller s \<noteq> None \<longrightarrow> race s \<noteq> None) \<and>
     (case callResult s of
        None \<Rightarrow> \<not> cancelled s \<and> (controller s = None \<longrightarrow> timer s \<and> parentListening s)
      | Some _ \<Rightarrow> cancelled s \<and> \<not> timer s \<and> \<not> parentListening s)"

interpretation deadlines: stepwise_invariant "deadline_step prov ms" deadline_inv "\<lambda>_ _. True"
proof
  fix s :: "'a deadline" and e
  assume "deadline_inv s"
  then show "deadline_inv (deadline_step prov ms s e)"
    by (cases e; cases "callResult s"; cases "race s"; cases "the (race s)")
      (auto simp: deadline_inv_def abort_with_def deadline_finish_def split: option.splits)
qed

lemma deadline_begin_inv: "deadline_begin a = Inr s \<Longrightarrow> deadline_inv s"
  by (auto simp: deadline_begin_def deadline_inv_def throwIfCancelled_def split: if_splits)

lemma finished_step:
  "callResult s = Some r \<Longrightarrow> callResult (deadline_step prov ms s e) = Some r"
  by (cases e) (auto simp: abort_with_def)

lemma finished_run:
  "callResult s = Some r \<Longrightarrow> callResult (run (deadline_step prov ms) s evs) = Some r"
  by (induction evs arbitrary: s) (auto simp: finished_step)

text \<open>After an abort the outcome of the race is fixed and the call cannot succeed any more.\<close>

definition doomed :: "error + 'a \<Rightarrow> 'a deadline \<Rightarrow> bool" where
  "doomed r s \<longleftrightarrow> controller s \<noteq> None \<and> race s = Some r \<and> (\<forall>v. callResult s \<noteq> Some (Inr v)) \<and>
     (\<forall>e. r = Inl e \<longrightarrow> callResult s = None \<or> callResult s = Some (Inl e))"

lemma doomed_step: "doomed r s \<Longrightarrow> doomed r (deadline_step prov ms s e)"
  by (cases e; cases r; cases "callResult s")
    (auto simp: doomed_def abort_with_def deadline_finish_def split: option.splits)

lemma doomed_run: "doomed r s \<Longrightarrow> doomed r (run (deadline_step prov ms) s evs)"
  by (induction evs arbitrary: s) (auto simp: doomed_step)

lemma doomed_continue:
  assumes "doomed r s"
  obtains e where "callResult (deadline_step prov ms s Continue) = Some (Inl e)" "r = Inl e' \<longrightarrow> e = e'"
  using assms
  by (cases r; cases "callResult s"; cases "controller s"; cases "the (callResult s)")
    (auto simp: doomed_def deadline_finish_def)

lemma success_raced:
  assumes "deadline_begin a = Inr s0" "s = run (deadline_step prov ms) s0 evs" "callResult s = Some (Inr v)"
  shows "race s = Some (Inr v)"
proof -
  have step: "callResult (deadline_step prov ms t e) = Some (Inr v) \<longrightarrow> race (deadline_step prov ms t e) = Some (Inr v)"
    if "callResult t = Some (Inr v) \<longrightarrow> race t = Some (Inr v)" for t :: "'a deadline" and e
    using that
    by (cases e) (auto simp: abort_with_def deadline_finish_def split: option.splits sum.splits)
  have "callResult (run (deadline_step prov ms) t evs) = Some (Inr v) \<longrightarrow>
      race (run (deadline_step prov ms) t evs) = Some (Inr v)"
    if "callResult t = Some (Inr v) \<longrightarrow> race t = Some (Inr v)" for t :: "'a deadline"
    using that
  proof (induction evs arbitrary: t)
    case (Cons e evs)
    show ?case using Cons.IH [OF step [OF Cons.prems]] by simp
  qed simp
  moreover have "callResult s0 = None"
    using assms(1) by (auto simp: deadline_begin_def throwIfCancelled_def split: if_splits)
  ultimately show ?thesis using assms(2,3) by simp
qed

definition abort_reason :: "jstring \<Rightarrow> time \<Rightarrow> 'a deadline_event \<Rightarrow> error option" where
  "abort_reason prov ms e =
     (case e of ParentAborts \<Rightarrow> Some RequestAbortedError
      | TimerFires \<Rightarrow> Some (App (ProviderTimeoutError prov ms)) | _ \<Rightarrow> None)"

lemma abort_dooms:
  assumes "deadline_inv s" "callResult s = None" "abort_reason prov ms a = Some err"
  shows "doomed (case race s of None \<Rightarrow> Inl err | Some r \<Rightarrow> r) (deadline_step prov ms s a)"
  using assms
  by (cases a; cases "controller s"; cases "race s")
    (auto simp: deadline_inv_def abort_with_def doomed_def abort_reason_def)

lemma success_settled:
  assumes "race (run (deadline_step prov ms) s evs) = Some (Inr v)" "race s = None"
  shows "OperationSettles (Inr v) \<in> set evs"
  using assms
proof (induction evs arbitrary: s)
  case (Cons e evs)
  have keep: "race (run (deadline_step prov ms) t evs) = Some r" if "race t = Some r" for t r
    using that
  proof (induction evs arbitrary: t)
    case (Cons f fs)
    have "race (deadline_step prov ms t f) = Some r"
      using Cons.prems by (cases f) (auto simp: abort_with_def deadline_finish_def split: option.splits sum.splits)
    with Cons.IH show ?case by simp
  qed simp
  show ?case
  proof (cases "race (deadline_step prov ms s e)")
    case None
    with Cons show ?thesis by auto
  next
    case (Some r)
    with Cons.prems keep [OF Some] have "r = Inr v" by simp
    with Some Cons.prems(2) show ?thesis
      by (cases e) (auto simp: abort_with_def split: if_splits option.splits)
  qed
qed simp

section \<open>Properties\<close>

text \<open>
  C32: An Ollama stream succeeds only on a complete answer: for the lines the body yields, the
  deltas handed to the consumer are always a prefix, in order, of the contents up to the first
  final or malformed frame; the call succeeds only when that frame says \<open>done\<close> and every content
  before it was handed on; and it does succeed then, unless an abort or the consumer stops it.
  A body that ends or breaks without \<open>done\<close> is never a success.
\<close>

theorem ollama_stream_complete:
  assumes "ollama_send x = Inr r" and "readLines Ollama (hasBody r) (bodyReads r) = (ls, e)"
  shows "prefix (fst (ollama_stream env x)) (fst (ollama_answer ls)) \<and>
    (snd (ollama_stream env x) = GenDone \<longrightarrow> ollama_answer ls = (fst (ollama_stream env x), True)) \<and>
    (quiet env \<longrightarrow> fst (ollama_stream env x) = fst (ollama_answer ls) \<and>
      (snd (ollama_stream env x) = GenDone \<longleftrightarrow> snd (ollama_answer ls)))"
  using ollama_loop_follows [of env 0 ls e] assms
  by (cases "ollama_answer ls") (auto simp: ollama_stream_def follows_def)

theorem ollama_stream_complete_witness:
  "let v = JObj [(js ''message'', JObj [(js ''content'', JStr (js ''hi''))]), (js ''done'', JBool True)];
       r = \<lparr>status = 200, hasBody = True, jsonBody = None,
             bodyReads = [ReadPart (encode (stringify v)), ReadEnd]\<rparr>;
       x = \<lparr>abortedBefore = None, fetched = Some r, abortedAfterFetch = None, abortedAfterBody = None\<rparr>
   in ollama_stream \<lparr>abortedAt = (\<lambda>_. None), rejects = (\<lambda>_. None)\<rparr> x = ([js ''hi''], GenDone)"
proof -
  let ?v = "JObj [(js ''message'', JObj [(js ''content'', JStr (js ''hi''))]), (js ''done'', JBool True)]"
  let ?r = "\<lparr>status = 200, hasBody = True, jsonBody = None,
    bodyReads = [ReadPart (encode (stringify ?v)), ReadEnd]\<rparr>"
  let ?x = "\<lparr>abortedBefore = None, fetched = Some ?r, abortedAfterFetch = None, abortedAfterBody = None\<rparr>"
  let ?env = "\<lparr>abortedAt = (\<lambda>_. None), rejects = (\<lambda>_. None)\<rparr>"
  have printed: "stringify ?v = js ''{\"message\":{\"content\":\"hi\"},\"done\":true}''"
    by (simp add: quote_def js_def escape_unit_def is_high_def is_low_def unit_of_char_def)
  have "decode_all (encode (stringify ?v)) = Some (stringify ?v)"
    unfolding printed by (rule decode_all_encode [OF well_formed_js]) (simp add: js_def unit_of_char_def)
  then have lines: "readLines Ollama True [ReadPart (encode (stringify ?v)), ReadEnd] = ([stringify ?v], GenDone)"
    using readLines_parts [of "[encode (stringify ?v)]" "stringify ?v" Ollama] unfolding printed
    by (simp add: lines_of_def js_def unit_of_char_def fits_def MAX_FRAME_SIZE_def drop_last_empty_def
        strip_cr_def)
  have "json_parse (stringify ?v) = Some ?v" by (rule json_parse_stringify) simp
  moreover have "js_trim (stringify ?v) \<noteq> []"
    unfolding printed by (simp add: js_def unit_of_char_def js_trim_def is_js_space_def)
  ultimately have answer: "ollama_answer [stringify ?v] = ([js ''hi''], True)"
    by (simp add: parseStreamJson_def ollama_frame_def ollama_message_def pieces_def)
  define r x env where "r = ?r" and "x = ?x" and "env = ?env"
  have "ollama_send x = Inr r" by (simp add: ollama_send_def ok_def x_def r_def)
  moreover have "readLines Ollama (hasBody r) (bodyReads r) = ([stringify ?v], GenDone)"
    unfolding r_def http_response.simps by (rule lines)
  moreover have "quiet env" by (simp add: quiet_def env_def)
  ultimately have "fst (ollama_stream env x) = [js ''hi'']" "snd (ollama_stream env x) = GenDone"
    using ollama_stream_complete [of x r "[stringify ?v]" GenDone env] unfolding answer fst_conv snd_conv by blast+
  then have "ollama_stream env x = ([js ''hi''], GenDone)" by (cases "ollama_stream env x") simp
  then show ?thesis unfolding Let_def x_def env_def .
qed

text \<open>
  C33: An OpenAI stream succeeds only on a complete answer: the deltas handed on are always a
  prefix of the contents up to the first final or malformed event; the call succeeds only on the
  explicit \<open>[DONE]\<close> after exactly one accepted finish reason, with every content handed on, and
  it does succeed then, unless an abort or the consumer stops it.
\<close>

theorem openai_stream_complete:
  assumes "openai_send x = Inr r" and "readSseData OpenAI (hasBody r) (bodyReads r) = (es, e)"
  shows "prefix (fst (openai_stream env x)) (fst (openai_answer False es)) \<and>
    (snd (openai_stream env x) = GenDone \<longrightarrow> openai_answer False es = (fst (openai_stream env x), True)) \<and>
    (quiet env \<longrightarrow> fst (openai_stream env x) = fst (openai_answer False es) \<and>
      (snd (openai_stream env x) = GenDone \<longleftrightarrow> snd (openai_answer False es)))"
  using openai_loop_follows [of env 0 False es e] assms
  by (cases "openai_answer False es") (auto simp: openai_stream_def follows_def)

theorem openai_stream_complete_witness:
  "let r = \<lparr>status = 200, hasBody = True, jsonBody = None, bodyReads = [ReadFailed]\<rparr>;
       x = \<lparr>abortedBefore = None, fetched = Some r, abortedAfterFetch = None, abortedAfterBody = None\<rparr>;
       env = \<lparr>abortedAt = (\<lambda>_. None), rejects = (\<lambda>_. None)\<rparr>
   in fst (openai_stream env x) = [] \<and> snd (openai_stream env x) \<noteq> GenDone"
proof -
  let ?r = "\<lparr>status = 200, hasBody = True, jsonBody = None, bodyReads = [ReadFailed]\<rparr>"
  let ?x = "\<lparr>abortedBefore = None, fetched = Some ?r, abortedAfterFetch = None, abortedAfterBody = None\<rparr>"
  let ?env = "\<lparr>abortedAt = (\<lambda>_. None), rejects = (\<lambda>_. None)\<rparr>"
  have "openai_send ?x = Inr ?r" by (simp add: openai_send_def ok_def)
  moreover have "readSseData OpenAI (hasBody ?r) (bodyReads ?r) =
      ([], GenThrew (App (ProviderConnectionError OpenAI)))"
    by (simp add: readSseData_def readLines_def)
  ultimately show ?thesis
    using openai_stream_complete [of ?x ?r "[]" _ ?env] by (simp add: quiet_def Let_def)
qed

text \<open>
  A call of an adapter fails only with a connection, response or unsuccessful-status error of
  its own provider, with the reason of an abort, or with the error of the delta consumer.
\<close>

theorem adapter_errors:
  "(snd (ollama_stream env x) = GenThrew err \<longrightarrow>
     own_error Ollama err \<or> env_reason env err \<or> exchange_reason x err) \<and>
   (snd (openai_stream env x) = GenThrew err \<longrightarrow>
     own_error OpenAI err \<or> env_reason env err \<or> exchange_reason x err) \<and>
   (ollama_chat x = Inl err \<longrightarrow> own_error Ollama err \<or> exchange_reason x err) \<and>
   (openai_chat x = Inl err \<longrightarrow> own_error OpenAI err \<or> exchange_reason x err)"
proof (intro conjI impI)
  assume *: "snd (ollama_stream env x) = GenThrew err"
  show "own_error Ollama err \<or> env_reason env err \<or> exchange_reason x err"
  proof (cases "ollama_send x")
    case (Inl e)
    with * show ?thesis by (auto simp: ollama_stream_def dest: ollama_send_errors)
  next
    case (Inr r)
    with * show ?thesis
      by (auto simp: ollama_stream_def split_beta dest!: ollama_loop_errors readLines_errors
          intro: read_reason [OF sent_response(1)])
  qed
next
  assume *: "snd (openai_stream env x) = GenThrew err"
  show "own_error OpenAI err \<or> env_reason env err \<or> exchange_reason x err"
  proof (cases "openai_send x")
    case (Inl e)
    with * show ?thesis by (auto simp: openai_stream_def dest: openai_send_errors)
  next
    case (Inr r)
    with * show ?thesis
      by (auto simp: openai_stream_def split_beta dest!: openai_loop_errors readSseData_errors
          intro: read_reason [OF sent_response(2)])
  qed
next
  assume "ollama_chat x = Inl err"
  then show "own_error Ollama err \<or> exchange_reason x err" by (rule ollama_chat_errors)
next
  assume "openai_chat x = Inl err"
  then show "own_error OpenAI err \<or> exchange_reason x err" by (rule openai_chat_errors)
qed

theorem adapter_errors_witness:
  "let x = \<lparr>abortedBefore = None, fetched = None, abortedAfterFetch = None, abortedAfterBody = None\<rparr>
   in ollama_chat x = Inl (App (ProviderConnectionError Ollama)) \<and>
      (own_error Ollama (App (ProviderConnectionError Ollama)) \<or>
       exchange_reason x (App (ProviderConnectionError Ollama)))"
  using adapter_errors [of _ "\<lparr>abortedBefore = None, fetched = None, abortedAfterFetch = None,
      abortedAfterBody = None\<rparr>" "App (ProviderConnectionError Ollama)"]
  by (simp add: ollama_chat_def ollama_send_def Let_def)

text \<open>
  C34: A provider call runs under its deadline: when its timer fires, or the caller's signal
  aborts, while it is awaited, its next continuation ends it with an error and never with a
  result, the timeout or cancellation error itself when nothing had settled before; a call
  returns only a result its operation produced; and a call that has ended has cleared its timer,
  removed its listener, cancelled what it left unread and keeps its result.
\<close>

theorem provider_deadline:
  assumes "deadline_begin False = Inr s0" and "s = run (deadline_step prov ms) s0 evs"
  shows "(callResult s = None \<and> abort_reason prov ms a = Some err \<longrightarrow>
      (\<exists>e. callResult (run (deadline_step prov ms) s (a # later @ [Continue])) = Some (Inl e) \<and>
        (race s = None \<longrightarrow> e = err))) \<and>
    (callResult s = Some (Inr v) \<longrightarrow> OperationSettles (Inr v) \<in> set evs) \<and>
    (callResult s = Some res \<longrightarrow> \<not> timer s \<and> \<not> parentListening s \<and> cancelled s \<and>
      callResult (run (deadline_step prov ms) s later) = Some res)"
proof (intro conjI impI)
  have inv: "deadline_inv s"
    using deadlines.run_inv [OF deadline_begin_inv [OF assms(1)]] assms(2) by simp
  {
    assume a: "callResult s = None \<and> abort_reason prov ms a = Some err"
    let ?r = "case race s of None \<Rightarrow> Inl err | Some r \<Rightarrow> r"
    have "doomed ?r (run (deadline_step prov ms) (deadline_step prov ms s a) later)"
      using a inv by (intro doomed_run abort_dooms) auto
    then obtain e where "callResult (deadline_step prov ms
        (run (deadline_step prov ms) (deadline_step prov ms s a) later) Continue) = Some (Inl e)"
      "?r = Inl err \<longrightarrow> e = err"
      by (rule doomed_continue [where prov = prov and ms = ms and e' = err])
    then show "\<exists>e. callResult (run (deadline_step prov ms) s (a # later @ [Continue])) = Some (Inl e) \<and>
        (race s = None \<longrightarrow> e = err)"
      by (auto simp: run_append)
  }
  {
    assume "callResult s = Some (Inr v)"
    with success_raced [OF assms] have "race s = Some (Inr v)" by simp
    moreover have "race s0 = None"
      using assms(1) by (auto simp: deadline_begin_def throwIfCancelled_def)
    ultimately show "OperationSettles (Inr v) \<in> set evs"
      using success_settled [of prov ms s0 evs v] assms(2) by simp
  }
  assume "callResult s = Some res"
  with inv show "\<not> timer s" "\<not> parentListening s" "cancelled s"
    "callResult (run (deadline_step prov ms) s later) = Some res"
    by (auto simp: deadline_inv_def finished_run)
qed

theorem provider_deadline_witness:
  "\<exists>e. callResult (run (deadline_step Ollama 30000)
      \<lparr>controller = None, race = None, timer = True, parentListening = True, cancelled = False,
       callResult = None :: (error + ChatResponse) option\<rparr>
      [TimerFires, OperationSettles (Inr \<lparr>answer = js ''late''\<rparr>), Continue]) = Some (Inl e) \<and>
    e = App (ProviderTimeoutError Ollama 30000)"
  using provider_deadline [of _ _ Ollama 30000 "[]" TimerFires "App (ProviderTimeoutError Ollama 30000)"
      "[OperationSettles (Inr \<lparr>answer = js ''late''\<rparr>)]" undefined undefined]
  by (simp add: deadline_begin_def throwIfCancelled_def abort_reason_def abort_with_def deadline_finish_def)

end
