(* ===== verification/Create_Api_Key.thy ===== *)
theory Create_Api_Key
  imports Api_Keys Gateway
begin

text \<open>
  The command line tool of \<open>src/scripts/create-api-key.ts\<close>, which inserts a key into the table the
  gateway authenticates against. The random bytes and the random identifier are arguments; the
  constraints of the table are those of the migration that creates it. The property joins the
  two programs: the key the tool prints is accepted by the guard, with the limits it was given.
\<close>

section \<open>Definitions\<close>

text \<open>\<open>Buffer.toString("base64url")\<close>: four characters for three bytes, no padding.\<close>

definition base64url_alphabet :: jstring where
  "base64url_alphabet = js ''ABCDEFGHIJKLMNOPQRSTUVWXYZabcdefghijklmnopqrstuvwxyz0123456789-_''"

definition sextet :: "nat \<Rightarrow> code_unit" where
  "sextet n = base64url_alphabet ! (n mod 64)"

fun base64url :: "byte list \<Rightarrow> jstring" where
  "base64url [] = []"
| "base64url [a] = (let n = unat a in [sextet (n div 4), sextet (n * 16)])"
| "base64url [a, b] =
     (let n = unat a * 256 + unat b in [sextet (n div 1024), sextet (n div 16), sextet (n * 4)])"
| "base64url (a # b # c # bs) =
     (let n = (unat a * 256 + unat b) * 256 + unat c
      in [sextet (n div 262144), sextet (n div 4096), sextet (n div 64), sextet n] @ base64url bs)"

definition parseCapacity :: "jstring \<Rightarrow> error + number" where
  "parseCapacity v =
     (let parsed = js_Number v in
      if \<not> number_isInteger parsed \<or> number_less parsed (Num 1)
      then Inl (OtherError (js ''Capacity must be a positive integer; received '' @ v))
      else Inr parsed)"

definition parseRefillRate :: "jstring \<Rightarrow> error + number" where
  "parseRefillRate v =
     (let parsed = js_Number v in
      if \<not> number_isFinite parsed \<or> number_le parsed (Num 0)
      then Inl (OtherError (js ''Refill rate must be positive; received '' @ v))
      else Inr parsed)"

definition rawApiKeyOf :: "byte list \<Rightarrow> jstring" where
  "rawApiKeyOf bytes = js ''mm_'' @ base64url bytes"

text \<open>
  The \<open>INSERT\<close>, with the primary key, the unique digest and the range of the columns; \<open>dbFails\<close>
  says whether the statement is rejected for any other reason.
\<close>

definition insertApiKey :: "bool \<Rightarrow> ApiKeyRow \<Rightarrow> ApiKeyRow list \<Rightarrow> error + ApiKeyRow list" where
  "insertApiKey dbFails r rows =
     (if dbFails then Inl (OtherError (js ''query failed''))
      else if list_ex (\<lambda>x. row_id x = row_id r \<or> key_hash x = key_hash r) rows then
        Inl (OtherError (js ''violates unique constraint''))
      else if \<not> number_le (rate_limit_capacity r) (Num 2147483647) then
        Inl (OtherError (js ''integer out of range''))
      else Inr (rows @ [r]))"

datatype create_outcome =
    UsageShown
  | ConfigRejected error
  | CreateFailed error
  | KeyCreated (createdName: jstring) (createdPrefix: jstring) (createdKey: jstring)

definition new_key_row ::
  "(jstring \<Rightarrow> jstring) \<Rightarrow> jstring \<Rightarrow> jstring \<Rightarrow> byte list \<Rightarrow> number \<Rightarrow> number \<Rightarrow> ApiKeyRow" where
  "new_key_row sha256 newId nm bytes cap refill =
     \<lparr>row_id = newId, row_name = js_trim nm, key_prefix = take 12 (rawApiKeyOf bytes),
      key_hash = hashApiKey sha256 (rawApiKeyOf bytes), rate_limit_capacity = cap,
      rate_limit_refill_per_second = refill, enabled = True\<rparr>"

definition nth_or :: "jstring list \<Rightarrow> nat \<Rightarrow> string \<Rightarrow> jstring" where
  "nth_or args i d = (if i < length args then args ! i else js d)"

text \<open>\<open>main\<close>, over the arguments after the script's name.\<close>

definition createApiKey ::
  "(jstring \<Rightarrow> jstring) \<Rightarrow> (jstring \<Rightarrow> jstring option) \<Rightarrow> process_env \<Rightarrow> jstring list \<Rightarrow> byte list \<Rightarrow> jstring \<Rightarrow>
   bool \<Rightarrow> ApiKeyRow list \<Rightarrow> ApiKeyRow list \<times> create_outcome" where
  "createApiKey sha256 parseUrl penv args bytes newId dbFails rows =
     (if args = [] \<or> js_trim (hd args) = [] then (rows, UsageShown)
      else case loadConfig parseUrl penv of
        Inl e \<Rightarrow> (rows, ConfigRejected e)
      | Inr _ \<Rightarrow>
          (case bind_sum (parseCapacity (nth_or args 1 ''10'')) (\<lambda>cap.
                bind_sum (parseRefillRate (nth_or args 2 ''1'')) (\<lambda>refill.
                  insertApiKey dbFails (new_key_row sha256 newId (hd args) bytes cap refill) rows)) of
             Inl e \<Rightarrow> (rows, CreateFailed e)
           | Inr rows' \<Rightarrow>
               (rows', KeyCreated (js_trim (hd args)) (take 12 (rawApiKeyOf bytes)) (rawApiKeyOf bytes))))"

section \<open>Lemmas\<close>

lemma space_bounds: "is_js_space u \<Longrightarrow> u \<le> 0x20 \<or> 0xA0 \<le> u"
  by (auto simp: is_js_space_def)

lemma alphabet_bounds: "list_all (\<lambda>u. 0x20 < u \<and> u < 0xA0) base64url_alphabet"
  by (simp add: base64url_alphabet_def js_def unit_of_char_def)

lemma alphabet_not_space: "u \<in> set base64url_alphabet \<Longrightarrow> \<not> is_js_space u"
  using alphabet_bounds space_bounds [of u] unfolding list_all_iff by fastforce

lemma sextet_alphabet: "sextet n \<in> set base64url_alphabet"
proof -
  have "length base64url_alphabet = 64" by (simp add: base64url_alphabet_def)
  then show ?thesis by (simp add: sextet_def)
qed

lemma base64url_alphabet_set: "set (base64url bs) \<subseteq> set base64url_alphabet"
  by (induction bs rule: base64url.induct) (auto simp: sextet_alphabet Let_def)

lemma length_base64url: "length (base64url bs) = (4 * length bs + 2) div 3"
  by (induction bs rule: base64url.induct) (auto simp: Let_def)

lemma raw_key_not_space: "list_all (\<lambda>u. \<not> is_js_space u) (rawApiKeyOf bytes)"
proof -
  have "list_all (\<lambda>u. \<not> is_js_space u) (js ''mm_'')"
    by (simp add: js_def unit_of_char_def is_js_space_def)
  then show ?thesis
    using base64url_alphabet_set [of bytes] alphabet_not_space by (auto simp: rawApiKeyOf_def list_all_iff)
qed

lemma parse_created_key: "parseBearerToken (Some (js ''Bearer '' @ rawApiKeyOf bytes)) = Inr (rawApiKeyOf bytes)"
proof -
  have split: "js ''Bearer '' @ rawApiKeyOf bytes = js ''Bearer'' @ js '' '' @ rawApiKeyOf bytes"
    by (simp add: js_def)
  have b: "map ascii_lower (js ''Bearer'') = js ''bearer''" "list_all is_js_space (js '' '')"
    by (simp_all add: js_def unit_of_char_def ascii_lower_def is_js_space_def)
  show ?thesis unfolding split
    by (rule parseBearerToken_match) (use b raw_key_not_space in \<open>simp_all add: rawApiKeyOf_def\<close>)
qed

lemma createApiKey_cases:
  assumes "createApiKey sha256 parseUrl penv args bytes newId dbFails rows = (rows', out)"
  obtains (refused) "rows' = rows" "\<And>n p k. out \<noteq> KeyCreated n p k"
  | (created) cap refill where "number_isInteger cap" "\<not> number_less cap (Num 1)" "number_isFinite refill"
      "\<not> number_le refill (Num 0)" "rows' = rows @ [new_key_row sha256 newId (hd args) bytes cap refill]"
      "\<forall>r \<in> set rows. row_id r \<noteq> newId \<and> key_hash r \<noteq> sha256 (rawApiKeyOf bytes)"
      "out = KeyCreated (js_trim (hd args)) (take 12 (rawApiKeyOf bytes)) (rawApiKeyOf bytes)"
      "parseCapacity (nth_or args 1 ''10'') = Inr cap" "parseRefillRate (nth_or args 2 ''1'') = Inr refill"
proof (cases "\<exists>n p k. out = KeyCreated n p k")
  case False
  moreover have "rows' = rows"
    using assms False by (auto simp: createApiKey_def split: if_splits sum.splits)
  ultimately show ?thesis using refused by blast
next
  case True
  with assms obtain cap refill where "parseCapacity (nth_or args 1 ''10'') = Inr cap"
    "parseRefillRate (nth_or args 2 ''1'') = Inr refill"
    "insertApiKey dbFails (new_key_row sha256 newId (hd args) bytes cap refill) rows = Inr rows'"
    "out = KeyCreated (js_trim (hd args)) (take 12 (rawApiKeyOf bytes)) (rawApiKeyOf bytes)"
    by (auto simp: createApiKey_def bind_sum_Inr split: if_splits sum.splits)
  then show ?thesis using created [of cap refill]
    by (auto simp: parseCapacity_def parseRefillRate_def insertApiKey_def new_key_row_def hashApiKey_def
        Let_def list_ex_iff split: if_splits)
qed

lemma created_authenticate:
  assumes "createApiKey sha256 parseUrl penv args bytes newId dbFails rows = (rows', KeyCreated nm pfx key)"
  obtains p where "authenticate sha256 (findEnabledByHash False rows') (Some (js ''Bearer '' @ key)) = Inr p"
    "principalId p = newId" "principalName p = js_trim (hd args)" "keyPrefix p = pfx"
    "Inr (capacity (rateLimit p)) = parseCapacity (nth_or args 1 ''10'')"
    "Inr (refillPerSecond (rateLimit p)) = parseRefillRate (nth_or args 2 ''1'')" "validatePolicy (rateLimit p) = Inr ()"
  using assms
proof (cases rule: createApiKey_cases)
  case (created cap refill)
  let ?key = "rawApiKeyOf bytes"
  let ?row = "new_key_row sha256 newId (hd args) bytes cap refill"
  have "find (\<lambda>r. key_hash r = sha256 ?key \<and> enabled r) rows = None"
    using created(6) by (auto simp: find_None_iff)
  then have "find (\<lambda>r. key_hash r = sha256 ?key \<and> enabled r) rows' = Some ?row"
    unfolding created(5) by (induction rows) (auto simp: new_key_row_def hashApiKey_def split: if_splits)
  then have "authenticate sha256 (findEnabledByHash False rows') (Some (js ''Bearer '' @ key)) =
      Inr \<lparr>principalId = newId, principalName = js_trim (hd args), keyPrefix = take 12 ?key,
           rateLimit = \<lparr>capacity = cap, refillPerSecond = refill\<rparr>\<rparr>"
    using created(1-4,7) by (simp add: authenticate_def parse_created_key hashApiKey_def findEnabledByHash_def)
      (simp add: new_key_row_def)
  then show ?thesis using that created(1-4,7-9) by (simp add: validatePolicy_def)
qed blast

section \<open>Properties\<close>


lemma demo_key_created:
  "\<exists>rows'. createApiKey id demo_protocol (\<lambda>_. None) [js ''demo''] [] (js ''id1'') False [] =
     (rows', KeyCreated (js_trim (js ''demo'')) (take 12 (rawApiKeyOf [])) (rawApiKeyOf []))"
proof -
  obtain cfg where cfg: "loadConfig demo_protocol (\<lambda>_. None) = Inr cfg" using default_config by blast
  have "js_Number (js ''10'') = Num 10" "js_Number (js ''1'') = Num 1" "js_trim (js ''demo'') \<noteq> []"
    by code_simp+
  then show ?thesis
    by (simp add: createApiKey_def cfg nth_or_def parseCapacity_def parseRefillRate_def insertApiKey_def new_key_row_def)
qed


end
