(* ===== verification/Job_System.thy ===== *)
theory Job_System
  imports Job_Worker
begin

text \<open>
  The job pipeline as a whole: the gateway submitting jobs, any number of dispatchers and
  workers, the message broker and the maintenance loop, interleaved in any order with crashes,
  lost replies and late writes. Each step applies the store's own operations to the table. Of
  RabbitMQ the model keeps what the code relies on: a confirmed message is in the queue, a
  message in the queue stays there until it is delivered, an unacknowledged delivery may be
  requeued at any time, and messages may be duplicated. Of Postgres: a row locked by a
  dispatcher is not updated by others until the dispatcher ends its transaction. The clock
  never runs backwards, and identifiers drawn at random are fresh.
\<close>

section \<open>Definitions\<close>

datatype delivery = Delivered JobEnvelope | Running JobEnvelope | Settled JobEnvelope

fun delivery_env :: "delivery \<Rightarrow> JobEnvelope" where
  "delivery_env (Delivered env) = env"
| "delivery_env (Running env) = env"
| "delivery_env (Settled env) = env"

text \<open>
  The state: the table and the clock; the messages ready in the queue and the deliveries not
  yet acknowledged; the open dispatch transactions with the envelope they publish and whether
  the broker has confirmed it; every envelope ever handed to \<open>publish\<close>; the identifiers drawn so
  far; and the attempts claimed so far, in order.
\<close>

record job_system =
  sysTable :: job_table
  sysClock :: time
  ready :: "JobEnvelope multiset"
  deliveries :: "nat \<rightharpoonup> delivery"
  dispatchers :: "nat \<rightharpoonup> JobEnvelope \<times> bool"
  sent :: "JobEnvelope set"
  usedIds :: "jstring set"
  claims :: "JobEnvelope list"

definition locked :: "job_system \<Rightarrow> jstring set" where
  "locked s = {envId env |d env c. dispatchers s d = Some (env, c)}"

text \<open>What the end of an attempt writes, as in \<open>execute\<close>.\<close>

definition write_outcome ::
  "JobStoreOptions \<Rightarrow> time \<Rightarrow> JobEnvelope \<Rightarrow> error + json \<Rightarrow> job_table \<Rightarrow> job_table" where
  "write_outcome opts now env out t =
     (case out of
        Inr v \<Rightarrow> complete opts now env v t
      | Inl e \<Rightarrow> (case failure_of e of (ec, retry, ms) \<Rightarrow> fst (fail opts now env ec retry ms t)))"

inductive sys_step ::
  "(jstring \<Rightarrow> jstring) \<Rightarrow> (jstring \<Rightarrow> nat) \<Rightarrow> JobStoreOptions \<Rightarrow> job_system \<Rightarrow> job_system \<Rightarrow> bool"
  for sha256 idRank opts where
  tick: "sysClock s \<le> now \<Longrightarrow> sys_step sha256 idRank opts s (s\<lparr>sysClock := now\<rparr>)"
| submit: "newId \<notin> usedIds s \<Longrightarrow>
    enqueue sha256 opts (sysClock s) newId (\<lambda>t. t) sub (sysTable s) = (t', res) \<Longrightarrow>
    sys_step sha256 idRank opts s (s\<lparr>sysTable := t', usedIds := insert newId (usedIds s)\<rparr>)"
| select: "dispatchers s d = None \<Longrightarrow>
    selectPending idRank opts (sysClock s) (locked s) (sysTable s) = Some r \<Longrightarrow>
    sys_step sha256 idRank opts s
      (s\<lparr>dispatchers := (dispatchers s)(d \<mapsto> (envelope_of r, False)),
         sent := insert (envelope_of r) (sent s)\<rparr>)"
| accept: "dispatchers s d = Some (env, c) \<Longrightarrow>
    sys_step sha256 idRank opts s
      (s\<lparr>ready := add_mset env (ready s), dispatchers := (dispatchers s)(d \<mapsto> (env, True))\<rparr>)"
| late_accept: "env \<in> sent s \<Longrightarrow>
    sys_step sha256 idRank opts s (s\<lparr>ready := add_mset env (ready s)\<rparr>)"
| commit: "dispatchers s d = Some (env, True) \<Longrightarrow>
    sys_step sha256 idRank opts s
      (s\<lparr>sysTable := markDispatched (envId env) (sysTable s), dispatchers := (dispatchers s)(d := None)\<rparr>)"
| rollback: "sys_step sha256 idRank opts s (s\<lparr>dispatchers := (dispatchers s)(d := None)\<rparr>)"
| deliver: "env \<in># ready s \<Longrightarrow> deliveries s k = None \<Longrightarrow>
    sys_step sha256 idRank opts s
      (s\<lparr>ready := ready s - {#env#}, deliveries := (deliveries s)(k \<mapsto> Delivered env)\<rparr>)"
| claimed: "deliveries s k = Some (Delivered env) \<Longrightarrow>
    (\<forall>r \<in> set (sysTable s). claimable opts (sysClock s) env r \<longrightarrow> job_id r \<notin> locked s) \<Longrightarrow>
    claim opts (sysClock s) env (sysTable s) = (t', Some job) \<Longrightarrow>
    next_state = Some (Running env) \<or> next_state = None \<Longrightarrow>
    sys_step sha256 idRank opts s
      (s\<lparr>sysTable := t', deliveries := (deliveries s)(k := next_state),
         ready := ready s + (if next_state = None then {#env#} else {#}),
         claims := claims s @ [env]\<rparr>)"
| obsolete: "deliveries s k = Some (Delivered env) \<Longrightarrow>
    (\<forall>r \<in> set (sysTable s). claimable opts (sysClock s) env r \<longrightarrow> job_id r \<notin> locked s) \<Longrightarrow>
    claim opts (sysClock s) env (sysTable s) = (t', None) \<Longrightarrow>
    sys_step sha256 idRank opts s (s\<lparr>sysTable := t', deliveries := (deliveries s)(k \<mapsto> Settled env)\<rparr>)"
| finish: "deliveries s k = Some (Running env) \<Longrightarrow>
    sys_step sha256 idRank opts s
      (s\<lparr>sysTable := write_outcome opts (sysClock s) env out (sysTable s),
         deliveries := (deliveries s)(k \<mapsto> Settled env)\<rparr>)"
| late_write: "env \<in> set (claims s) \<Longrightarrow>
    sys_step sha256 idRank opts s
      (s\<lparr>sysTable := write_outcome opts (sysClock s) env out (sysTable s)\<rparr>)"
| acknowledge: "deliveries s k = Some (Settled env) \<Longrightarrow>
    sys_step sha256 idRank opts s (s\<lparr>deliveries := (deliveries s)(k := None)\<rparr>)"
| requeue: "deliveries s k = Some dl \<Longrightarrow>
    sys_step sha256 idRank opts s
      (s\<lparr>deliveries := (deliveries s)(k := None), ready := add_mset (delivery_env dl) (ready s)\<rparr>)"
| expire: "sys_step sha256 idRank opts s
    (s\<lparr>sysTable := update_where (expired opts (sysClock s)) (expire_row (sysClock s)) (sysTable s)\<rparr>)"
| purge: "sys_step sha256 idRank opts s
    (s\<lparr>sysTable := filter (\<lambda>r. \<not> stale opts (sysClock s) r) (sysTable s)\<rparr>)"

text \<open>The pipeline starts empty.\<close>

definition sys_init :: "job_system \<Rightarrow> bool" where
  "sys_init s \<longleftrightarrow>
     sysTable s = [] \<and> ready s = {#} \<and> deliveries s = Map.empty \<and> dispatchers s = Map.empty \<and>
     sent s = {} \<and> usedIds s = {} \<and> claims s = []"

text \<open>A message the broker still has to hand to a worker.\<close>

definition in_broker :: "job_system \<Rightarrow> JobEnvelope \<Rightarrow> bool" where
  "in_broker s env \<longleftrightarrow> env \<in># ready s \<or> (\<exists>k. deliveries s k = Some (Delivered env))"

subsection \<open>Invariants\<close>

text \<open>
  Of one row: no message is ahead of it, and one for its next attempt exists only when that
  attempt is due; the claimed attempts are behind it; and if it waits without being pending, the
  broker has the message for its next attempt.
\<close>

definition messages_due :: "job_system \<Rightarrow> JobRow \<Rightarrow> bool" where
  "messages_due s r \<longleftrightarrow>
     (\<forall>env \<in> sent s. envId env = job_id r \<longrightarrow>
        envAttempt env \<le> attempts_made r + (if waiting r then 1 else 0) \<and>
        (waiting r \<and> envAttempt env = attempts_made r + 1 \<longrightarrow> available_at r \<le> sysClock s))"

definition claims_behind :: "job_system \<Rightarrow> JobRow \<Rightarrow> bool" where
  "claims_behind s r \<longleftrightarrow>
     (\<forall>env \<in> set (claims s). envId env = job_id r \<longrightarrow> 1 \<le> envAttempt env \<and> envAttempt env \<le> attempts_made r)"

definition not_stranded :: "JobStoreOptions \<Rightarrow> job_system \<Rightarrow> JobRow \<Rightarrow> bool" where
  "not_stranded opts s r \<longleftrightarrow>
     (queue_name r = optName opts \<and> waiting r \<longrightarrow> dispatch_pending r \<or> in_broker s (envelope_of r))"

definition row_inv :: "JobStoreOptions \<Rightarrow> job_system \<Rightarrow> JobRow \<Rightarrow> bool" where
  "row_inv opts s r \<longleftrightarrow> messages_due s r \<and> claims_behind s r \<and> not_stranded opts s r"

definition ids_inv :: "job_system \<Rightarrow> bool" where
  "ids_inv s \<longleftrightarrow>
     job_id ` set (sysTable s) \<subseteq> usedIds s \<and> envId ` sent s \<subseteq> usedIds s \<and>
     envId ` set (claims s) \<subseteq> usedIds s \<and> distinct (claims s)"

definition messages_inv :: "job_system \<Rightarrow> bool" where
  "messages_inv s \<longleftrightarrow>
     set_mset (ready s) \<subseteq> sent s \<and> (\<forall>k dl. deliveries s k = Some dl \<longrightarrow> delivery_env dl \<in> sent s) \<and>
     (\<forall>d env c. dispatchers s d = Some (env, c) \<longrightarrow> env \<in> sent s) \<and>
     (\<forall>k env. deliveries s k = Some (Running env) \<longrightarrow> env \<in> set (claims s))"

definition locks_inv :: "JobStoreOptions \<Rightarrow> job_system \<Rightarrow> bool" where
  "locks_inv opts s \<longleftrightarrow>
     (\<forall>d env c. dispatchers s d = Some (env, c) \<longrightarrow>
        (\<exists>r \<in> set (sysTable s). env = envelope_of r \<and> waiting r \<and> dispatch_pending r \<and>
           queue_name r = optName opts) \<and> (c \<longrightarrow> in_broker s env)) \<and>
     (\<forall>d d' env env' c c'. dispatchers s d = Some (env, c) \<and> dispatchers s d' = Some (env', c') \<and>
        envId env = envId env' \<longrightarrow> d = d')"

definition sys_inv :: "JobStoreOptions \<Rightarrow> job_system \<Rightarrow> bool" where
  "sys_inv opts s \<longleftrightarrow>
     table_ok (sysTable s) \<and> ids_inv s \<and> messages_inv s \<and> locks_inv opts s \<and>
     (\<forall>r \<in> set (sysTable s). row_inv opts s r)"

section \<open>Lemmas\<close>

lemma sys_invD:
  assumes "sys_inv opts s"
  shows "table_ok (sysTable s)" "ids_inv s" "messages_inv s" "locks_inv opts s"
    and "r \<in> set (sysTable s) \<Longrightarrow> row_inv opts s r"
  using assms by (simp_all add: sys_inv_def)

lemma row_invD:
  assumes "row_inv opts s r"
  shows "messages_due s r" "claims_behind s r" "not_stranded opts s r"
  using assms by (simp_all add: row_inv_def)

lemma envelope_of_simps [simp]:
  "envId (envelope_of r) = job_id r" "envAttempt (envelope_of r) = attempts_made r + 1"
  by (simp_all add: envelope_of_def)

lemma messages_invI:
  assumes "\<And>env. env \<in># ready s \<Longrightarrow> env \<in> sent s"
    and "\<And>k dl. deliveries s k = Some dl \<Longrightarrow> delivery_env dl \<in> sent s"
    and "\<And>d env c. dispatchers s d = Some (env, c) \<Longrightarrow> env \<in> sent s"
    and "\<And>k env. deliveries s k = Some (Running env) \<Longrightarrow> env \<in> set (claims s)"
  shows "messages_inv s"
  using assms by (auto simp: messages_inv_def)

lemma messages_invD:
  assumes "sys_inv opts s"
  shows "env \<in># ready s \<Longrightarrow> env \<in> sent s"
    and "deliveries s k = Some dl \<Longrightarrow> delivery_env dl \<in> sent s"
    and "dispatchers s d = Some (env, c) \<Longrightarrow> env \<in> sent s"
    and "deliveries s k = Some (Running env) \<Longrightarrow> env \<in> set (claims s)"
  using sys_invD(3) [OF assms] unfolding messages_inv_def by blast+

lemma locks_invD:
  assumes "locks_inv opts s" and "dispatchers s d = Some (env, c)"
  shows "\<exists>r \<in> set (sysTable s). env = envelope_of r \<and> waiting r \<and> dispatch_pending r \<and>
      queue_name r = optName opts"
    and "c \<Longrightarrow> in_broker s env"
    and "dispatchers s d' = Some (env', c') \<Longrightarrow> envId env = envId env' \<Longrightarrow> d = d'"
  using assms unfolding locks_inv_def by blast+

lemma in_broker_frame [simp]:
  "in_broker (s\<lparr>sysTable := t\<rparr>) = in_broker s"
  "in_broker (s\<lparr>sysClock := now\<rparr>) = in_broker s"
  "in_broker (s\<lparr>dispatchers := ds\<rparr>) = in_broker s"
  "in_broker (s\<lparr>sent := es\<rparr>) = in_broker s"
  "in_broker (s\<lparr>usedIds := ids\<rparr>) = in_broker s"
  "in_broker (s\<lparr>claims := cs\<rparr>) = in_broker s"
  by (simp_all add: in_broker_def fun_eq_iff)

lemma envelope_of_pending [simp]: "envelope_of (r\<lparr>dispatch_pending := b\<rparr>) = envelope_of r"
  by (simp add: envelope_of_def)

lemma in_broker_upd:
  assumes "in_broker s env" and "deliveries s' = (deliveries s)(k := x)"
    and "\<And>e. e \<in># ready s \<Longrightarrow> e \<noteq> env \<or> in_broker s' env"
    and "deliveries s k = Some (Delivered env) \<Longrightarrow> in_broker s' env"
  shows "in_broker s' env"
proof (cases "env \<in># ready s \<or> deliveries s k = Some (Delivered env)")
  case False
  then obtain l where "deliveries s l = Some (Delivered env)" "l \<noteq> k"
    using assms(1) by (auto simp: in_broker_def)
  then show ?thesis using assms(2) by (auto simp: in_broker_def)
qed (use assms(3,4) in blast)

lemma lockedI: "dispatchers s d = Some (env, c) \<Longrightarrow> envId env \<in> locked s"
  by (auto simp: locked_def)

subsection \<open>Steps that leave the table alone\<close>

lemma same_table_inv:
  assumes inv: "sys_inv opts s"
    and same: "sysTable s' = sysTable s" "sysClock s \<le> sysClock s'" "sent s' = sent s"
      "usedIds s' = usedIds s" "claims s' = claims s"
    and kept: "\<And>env. in_broker s env \<Longrightarrow> in_broker s' env"
    and msgs: "messages_inv s'"
    and disp: "\<And>d env c. dispatchers s' d = Some (env, c) \<Longrightarrow>
      \<exists>c0. dispatchers s d = Some (env, c0) \<and> (c \<longrightarrow> c0 \<or> in_broker s' env)"
  shows "sys_inv opts s'"
proof -
  have "row_inv opts s' r" if "r \<in> set (sysTable s)" for r
    using sys_invD(5) [OF inv that] same kept
    by (fastforce simp: row_inv_def messages_due_def claims_behind_def not_stranded_def)
  moreover have "locks_inv opts s'"
    unfolding locks_inv_def
  proof (intro conjI allI impI)
    fix d env c
    assume "dispatchers s' d = Some (env, c)"
    from disp [OF this] obtain c0 where c0: "dispatchers s d = Some (env, c0)" "c \<longrightarrow> c0 \<or> in_broker s' env" by blast
    note * = locks_invD [OF sys_invD(4) [OF inv] c0(1)]
    from *(1) show "\<exists>r \<in> set (sysTable s'). env = envelope_of r \<and> waiting r \<and>
        dispatch_pending r \<and> queue_name r = optName opts" using same(1) by simp
    show "in_broker s' env" if c using that *(2) c0 kept by blast
  next
    fix d d' env env' c c'
    assume "dispatchers s' d = Some (env, c) \<and> dispatchers s' d' = Some (env', c') \<and> envId env = envId env'"
    with disp obtain c0 c1 where "dispatchers s d = Some (env, c0)" "dispatchers s d' = Some (env', c1)"
      "envId env = envId env'" by blast
    with sys_invD(4) [OF inv] show "d = d'" by (auto simp: locks_inv_def)
  qed
  moreover have "ids_inv s'" using sys_invD(2) [OF inv] same by (simp add: ids_inv_def)
  ultimately show ?thesis using sys_invD(1) [OF inv] same(1) msgs by (simp add: sys_inv_def)
qed

lemma tick_inv:
  assumes "sys_inv opts s" and "sysClock s \<le> now"
  shows "sys_inv opts (s\<lparr>sysClock := now\<rparr>)"
  using assms(1)
  by (rule same_table_inv)
    (use assms(2) messages_invD [OF assms(1)] in \<open>auto simp: in_broker_def intro!: messages_invI\<close>)

lemma accept_inv:
  assumes "sys_inv opts s" and "dispatchers s d = Some (env, c)"
  shows "sys_inv opts (s\<lparr>ready := add_mset env (ready s), dispatchers := (dispatchers s)(d \<mapsto> (env, True))\<rparr>)"
  using assms(1)
  by (rule same_table_inv)
    (use assms(2) messages_invD [OF assms(1)] in
      \<open>auto simp: in_broker_def intro!: messages_invI split: if_splits\<close>)

lemma late_accept_inv:
  assumes "sys_inv opts s" and "env \<in> sent s"
  shows "sys_inv opts (s\<lparr>ready := add_mset env (ready s)\<rparr>)"
  using assms(1)
  by (rule same_table_inv)
    (use assms(2) messages_invD [OF assms(1)] in \<open>auto simp: in_broker_def intro!: messages_invI\<close>)

lemma rollback_inv:
  assumes "sys_inv opts s"
  shows "sys_inv opts (s\<lparr>dispatchers := (dispatchers s)(d := None)\<rparr>)"
  using assms
  by (rule same_table_inv)
    (use messages_invD [OF assms] in \<open>auto simp: in_broker_def intro!: messages_invI split: if_splits\<close>)

lemma deliver_inv:
  assumes "sys_inv opts s" and "env \<in># ready s" and "deliveries s k = None"
  shows "sys_inv opts (s\<lparr>ready := ready s - {#env#}, deliveries := (deliveries s)(k \<mapsto> Delivered env)\<rparr>)"
    (is "sys_inv opts ?s'")
  using assms(1)
proof (rule same_table_inv)
  show "in_broker ?s' e" if "in_broker s e" for e
  proof (cases "e = env")
    case False
    from that show ?thesis
      by (rule in_broker_upd [where k = k and x = "Some (Delivered env)"])
        (use False assms(3) in \<open>auto simp: in_broker_def in_diff_count\<close>)
  qed (auto simp: in_broker_def)
  show "messages_inv ?s'"
    using messages_invD [OF assms(1)] assms(2) in_diffD [of _ "ready s" "{#env#}"]
    by (auto intro!: messages_invI split: if_splits)
qed simp_all

lemma acknowledge_inv:
  assumes "sys_inv opts s" and "deliveries s k = Some (Settled env)"
  shows "sys_inv opts (s\<lparr>deliveries := (deliveries s)(k := None)\<rparr>)" (is "sys_inv opts ?s'")
  using assms(1)
proof (rule same_table_inv)
  show "in_broker ?s' e" if "in_broker s e" for e
    using that by (rule in_broker_upd [where k = k and x = None]) (use assms(2) in \<open>auto simp: in_broker_def\<close>)
  show "messages_inv ?s'"
    using messages_invD [OF assms(1)] by (auto intro!: messages_invI split: if_splits)
qed simp_all

lemma requeue_inv:
  assumes "sys_inv opts s" and "deliveries s k = Some dl"
  shows "sys_inv opts (s\<lparr>deliveries := (deliveries s)(k := None), ready := add_mset (delivery_env dl) (ready s)\<rparr>)"
    (is "sys_inv opts ?s'")
  using assms(1)
proof (rule same_table_inv)
  show "in_broker ?s' e" if "in_broker s e" for e
    using that by (rule in_broker_upd [where k = k and x = None]) (use assms(2) in \<open>auto simp: in_broker_def\<close>)
  show "messages_inv ?s'"
    using messages_invD [OF assms(1)] assms(2) by (auto intro!: messages_invI split: if_splits)
qed simp_all

subsection \<open>Steps that update rows\<close>

text \<open>
  The end of an attempt and the expiry of a lease touch active rows only, and leave a row that
  waits again pending.
\<close>

definition settles :: "(JobRow \<Rightarrow> bool) \<Rightarrow> (JobRow \<Rightarrow> JobRow) \<Rightarrow> bool" where
  "settles P f \<longleftrightarrow>
     (\<forall>r. P r \<longrightarrow> status r = JActive) \<and>
     (\<forall>r. job_id (f r) = job_id r \<and> attempts_made (f r) = attempts_made r \<and>
          (waiting (f r) \<longrightarrow> dispatch_pending (f r)))"

lemma settles_row_inv:
  assumes "settles P f" and "row_inv opts s r" and "P r"
    and "sent s' = sent s" "claims s' = claims s"
  shows "row_inv opts s' (f r)"
proof -
  have f: "job_id (f r) = job_id r" "attempts_made (f r) = attempts_made r" "waiting (f r) \<Longrightarrow> dispatch_pending (f r)"
    and "\<not> waiting r" using assms(1,3) by (auto simp: settles_def waiting_def)
  then show ?thesis using row_invD [OF assms(2)] assms(4,5)
    by (fastforce simp: row_inv_def messages_due_def claims_behind_def not_stranded_def)
qed

lemma row_inv_mono:
  assumes "row_inv opts s r" and "sysClock s' = sysClock s" "sent s' = sent s" "claims s' = claims s"
    and "\<And>env. in_broker s env \<Longrightarrow> in_broker s' env"
  shows "row_inv opts s' r"
  using assms by (auto simp: row_inv_def messages_due_def claims_behind_def not_stranded_def)

lemma locks_inv_update:
  assumes "locks_inv opts s" and "dispatchers s' = dispatchers s"
    and "\<And>d env c. dispatchers s d = Some (env, c) \<Longrightarrow> c \<Longrightarrow> in_broker s env \<Longrightarrow> in_broker s' env"
    and "\<And>r. \<lbrakk>r \<in> set (sysTable s); waiting r; job_id r \<in> locked s\<rbrakk> \<Longrightarrow> r \<in> set (sysTable s')"
  shows "locks_inv opts s'"
  unfolding locks_inv_def assms(2)
proof (intro conjI allI impI)
  fix d env c
  assume d: "dispatchers s d = Some (env, c)"
  note locks = locks_invD [OF assms(1) d]
  from locks(1) obtain r where r: "r \<in> set (sysTable s)" "env = envelope_of r" "waiting r" "dispatch_pending r"
    "queue_name r = optName opts" by blast
  have "job_id r \<in> locked s" using lockedI [OF d] r(2) by simp
  with r assms(4) show "\<exists>r \<in> set (sysTable s'). env = envelope_of r \<and> waiting r \<and> dispatch_pending r \<and>
      queue_name r = optName opts" by blast
  show "in_broker s' env" if c using assms(3) [OF d that] locks(2) [OF that] by blast
qed (use assms(1) in \<open>auto simp: locks_inv_def\<close>)

lemma settle_inv:
  assumes inv: "sys_inv opts s" and set: "settles P f" and upd: "row_update P f"
    and s': "sysTable s' = update_where P f (sysTable s)" "sysClock s' = sysClock s" "sent s' = sent s"
      "usedIds s' = usedIds s" "claims s' = claims s" "dispatchers s' = dispatchers s"
    and kept: "\<And>env. in_broker s env \<Longrightarrow> in_broker s' env" and msgs: "messages_inv s'"
  shows "sys_inv opts s'"
proof -
  have "row_inv opts s' r'" if "r' \<in> set (sysTable s')" for r'
  proof -
    from that obtain r where r: "r \<in> set (sysTable s)" "r' = (if P r then f r else r)"
      by (auto simp: s'(1) set_update_where)
    note row = sys_invD(5) [OF inv r(1)]
    show ?thesis
      using r(2) settles_row_inv [OF set row, of s'] row_inv_mono [OF row, of s'] s' kept by auto
  qed
  moreover have "locks_inv opts s'"
    using sys_invD(4) [OF inv]
  proof (rule locks_inv_update)
    show "r \<in> set (sysTable s')" if "r \<in> set (sysTable s)" "waiting r" for r
      using set that by (force simp: s'(1) set_update_where settles_def waiting_def)
  qed (use s'(6) kept in auto)
  moreover have "table_ok (sysTable s')"
    using row_update.table_ok_update [OF upd sys_invD(1) [OF inv]] s'(1) by simp
  moreover have "map job_id (sysTable s') = map job_id (sysTable s)"
    using set by (simp add: s'(1) update_where_def settles_def)
  then have "job_id ` set (sysTable s') = job_id ` set (sysTable s)" by (metis set_map)
  then have "ids_inv s'" using sys_invD(2) [OF inv] s'(4,3,5) by (simp add: ids_inv_def)
  ultimately show ?thesis using msgs by (simp add: sys_inv_def)
qed

lemma write_outcome_update:
  "\<exists>f. write_outcome opts now env out t = update_where (owned_attempt opts env) f t \<and>
     settles (owned_attempt opts env) f \<and> row_update (owned_attempt opts env) f"
proof (cases out)
  case (Inr v)
  have "settles (owned_attempt opts env) (complete_effect now v)"
    by (simp add: settles_def owned_attempt_def waiting_def)
  then show ?thesis
    using Inr complete_update.row_update_axioms by (auto simp: write_outcome_def complete_def)
next
  case (Inl e)
  obtain ec retry ms where "failure_of e = (ec, retry, ms)" using prod_cases3 by blast
  moreover have "settles (owned_attempt opts env) (fail_row now ec retry ms)"
    by (simp add: settles_def owned_attempt_def waiting_def fail_row_def Let_def)
  ultimately show ?thesis
    using Inl fail_update.row_update_axioms by (auto simp: write_outcome_def fail_def)
qed

lemma write_inv:
  assumes "sys_inv opts s" and "sysTable s' = write_outcome opts now env out (sysTable s)"
    and "sysClock s' = sysClock s" "sent s' = sent s" "usedIds s' = usedIds s" "claims s' = claims s"
      "dispatchers s' = dispatchers s"
    and "\<And>env. in_broker s env \<Longrightarrow> in_broker s' env" and "messages_inv s'"
  shows "sys_inv opts s'"
proof -
  obtain f where f: "write_outcome opts now env out (sysTable s) = update_where (owned_attempt opts env) f (sysTable s)"
    "settles (owned_attempt opts env) f" "row_update (owned_attempt opts env) f"
    using write_outcome_update by blast
  show ?thesis using assms(2-) f(1) by (intro settle_inv [OF assms(1) f(2,3)]) auto
qed

lemma finish_inv:
  assumes "sys_inv opts s" and "deliveries s k = Some (Running env)"
  shows "sys_inv opts (s\<lparr>sysTable := write_outcome opts (sysClock s) env out (sysTable s),
         deliveries := (deliveries s)(k \<mapsto> Settled env)\<rparr>)" (is "sys_inv opts ?s'")
  using assms(1)
proof (rule write_inv)
  show "in_broker ?s' e" if "in_broker s e" for e
    using that by (rule in_broker_upd [where k = k and x = "Some (Settled env)"])
      (use assms(2) in \<open>auto simp: in_broker_def\<close>)
  show "messages_inv ?s'"
    using messages_invD [OF assms(1)] messages_invD(2) [OF assms] by (auto intro!: messages_invI split: if_splits)
qed simp_all

lemma late_write_inv:
  assumes "sys_inv opts s"
  shows "sys_inv opts (s\<lparr>sysTable := write_outcome opts (sysClock s) env out (sysTable s)\<rparr>)"
  using assms
  by (rule write_inv) (use messages_invD [OF assms] in \<open>auto simp: in_broker_def intro!: messages_invI\<close>)

lemma expire_inv:
  assumes "sys_inv opts s"
  shows "sys_inv opts (s\<lparr>sysTable := update_where (expired opts (sysClock s)) (expire_row (sysClock s)) (sysTable s)\<rparr>)"
proof (rule settle_inv [OF assms])
  show "settles (expired opts (sysClock s)) (expire_row (sysClock s))"
    by (simp add: settles_def expired_def expire_row_def waiting_def Let_def)
qed (use messages_invD [OF assms] expire_update.row_update_axioms in
      \<open>auto simp: in_broker_def intro!: messages_invI\<close>)

subsection \<open>Submission, dispatch, claims and retention\<close>

lemma enqueue_table:
  assumes "table_ok t" and "enqueue sha256 opts now newId (\<lambda>t. t) sub t = (t', res)"
  shows "table_ok t' \<and> (t' = t \<or> t' = t @ [new_row sha256 opts now newId sub])"
proof -
  let ?row = "new_row sha256 opts now newId sub"
  consider e where "insertJob now ?row t = Inl e" "t' = t"
    | "insertJob now ?row t = Inr (t, None)" "t' = t"
    | "insertJob now ?row t = Inr (t @ [?row], Some ?row)" "t' = t @ [?row]"
    using assms(2) by (auto simp: enqueue_def Let_def insertJob_def split: if_splits option.splits)
  then show ?thesis
  proof cases
    case 3
    then have "row_ok ?row"
      by (intro new_row_ok) (auto simp: insertJob_def new_row_def split: if_splits)
    with 3 insertJob_ok [OF assms(1)] show ?thesis by blast
  qed (use assms(1) in auto)
qed

lemma submit_inv:
  assumes inv: "sys_inv opts s" and fresh: "newId \<notin> usedIds s"
    and enq: "enqueue sha256 opts (sysClock s) newId (\<lambda>t. t) sub (sysTable s) = (t', res)"
  shows "sys_inv opts (s\<lparr>sysTable := t', usedIds := insert newId (usedIds s)\<rparr>)" (is "sys_inv opts ?s'")
proof -
  let ?row = "new_row sha256 opts (sysClock s) newId sub"
  note t' = enqueue_table [OF sys_invD(1) [OF inv] enq]
  note ids = sys_invD(2) [OF inv, unfolded ids_inv_def]
  have "row_inv opts ?s' r" if "r \<in> set (sysTable s)" for r
    using sys_invD(5) [OF inv that] by (rule row_inv_mono) simp_all
  moreover have "row_inv opts ?s' ?row"
    using ids fresh
    by (auto simp: row_inv_def messages_due_def claims_behind_def not_stranded_def new_row_def)
  ultimately have "\<forall>r \<in> set t'. row_inv opts ?s' r" using t' by auto
  moreover have "ids_inv ?s'" using ids t' by (auto simp: ids_inv_def new_row_def image_subset_iff)
  moreover have "locks_inv opts ?s'"
    using sys_invD(4) [OF inv] by (rule locks_inv_update) (use t' in auto)
  moreover have "messages_inv ?s'" using messages_invD [OF inv] by (intro messages_invI) auto
  ultimately show ?thesis using t' by (simp add: sys_inv_def)
qed

lemma select_inv:
  assumes inv: "sys_inv opts s"
    and sel: "selectPending idRank opts (sysClock s) (locked s) (sysTable s) = Some r"
  shows "sys_inv opts (s\<lparr>dispatchers := (dispatchers s)(d \<mapsto> (envelope_of r, False)),
         sent := insert (envelope_of r) (sent s)\<rparr>)" (is "sys_inv opts ?s'")
proof -
  note sp = selectPending_Some [OF sel]
  have "row_inv opts ?s' x" if x: "x \<in> set (sysTable s)" for x
  proof -
    have "x = r" if "job_id x = job_id r"
      using job_id_unique [OF sys_invD(1) [OF inv] x sp(1) that] .
    with row_invD [OF sys_invD(5) [OF inv x]] sp(4,5) show ?thesis
      by (auto simp: row_inv_def messages_due_def claims_behind_def not_stranded_def)
  qed
  moreover have "locks_inv opts ?s'"
    unfolding locks_inv_def
  proof (intro conjI allI impI)
    fix d' env c
    assume a: "dispatchers ?s' d' = Some (env, c)"
    show "\<exists>x \<in> set (sysTable ?s'). env = envelope_of x \<and> waiting x \<and> dispatch_pending x \<and> queue_name x = optName opts"
      using a sp locks_invD(1) [OF sys_invD(4) [OF inv], of d' env c] by (auto split: if_splits)
    show "in_broker ?s' env" if c
      using a that locks_invD(2) [OF sys_invD(4) [OF inv], of d' env c] by (auto split: if_splits)
  next
    fix d1 d2 e1 e2 c1 c2
    assume a: "dispatchers ?s' d1 = Some (e1, c1) \<and> dispatchers ?s' d2 = Some (e2, c2) \<and> envId e1 = envId e2"
    show "d1 = d2"
    proof (cases "d1 = d \<or> d2 = d")
      case True
      then show ?thesis
        using a sp(6) lockedI [of s d1 e1 c1] lockedI [of s d2 e2 c2] by (auto split: if_splits)
    next
      case False
      then show ?thesis using a locks_invD(3) [OF sys_invD(4) [OF inv], of d1 e1 c1 d2 e2 c2] by auto
    qed
  qed
  moreover have "messages_inv ?s'"
    using messages_invD [OF inv] by (intro messages_invI) (auto split: if_splits)
  moreover have "ids_inv ?s'" using sys_invD(2) [OF inv] sp(1) by (auto simp: ids_inv_def)
  ultimately show ?thesis using sys_invD(1) [OF inv] by (simp add: sys_inv_def)
qed

lemma commit_inv:
  assumes inv: "sys_inv opts s" and d: "dispatchers s d = Some (env, True)"
  shows "sys_inv opts (s\<lparr>sysTable := markDispatched (envId env) (sysTable s),
           dispatchers := (dispatchers s)(d := None)\<rparr>)" (is "sys_inv opts ?s'")
proof -
  note locks = locks_invD [OF sys_invD(4) [OF inv] d]
  from locks(1) obtain r where r: "r \<in> set (sysTable s)" "env = envelope_of r" by blast
  have "row_inv opts ?s' (if job_id x = envId env then x\<lparr>dispatch_pending := False\<rparr> else x)"
    if x: "x \<in> set (sysTable s)" for x
  proof (cases "job_id x = envId env")
    case True
    then have "x = r" using job_id_unique [OF sys_invD(1) [OF inv] x r(1)] r(2) by simp
    then show ?thesis
      using row_invD [OF sys_invD(5) [OF inv x]] locks(2) r(2) True
      by (auto simp: row_inv_def messages_due_def claims_behind_def not_stranded_def waiting_def)
  next
    case False
    then show ?thesis using row_inv_mono [OF sys_invD(5) [OF inv x], of ?s'] by simp
  qed
  moreover have rows: "set (sysTable ?s') =
      (\<lambda>x. if job_id x = envId env then x\<lparr>dispatch_pending := False\<rparr> else x) ` set (sysTable s)"
    by (simp add: markDispatched_def set_update_where)
  ultimately have "\<forall>x \<in> set (sysTable ?s'). row_inv opts ?s' x" unfolding rows by blast
  moreover have "x \<in> set (sysTable ?s')" if "x \<in> set (sysTable s)" "job_id x \<noteq> envId env" for x
    using that by (force simp: markDispatched_def set_update_where)
  then have "locks_inv opts ?s'"
    unfolding locks_inv_def using locks_invD [OF sys_invD(4) [OF inv]] locks(3)
    by (auto split: if_splits) (metis envelope_of_simps(1))+
  moreover have "ids_inv ?s'"
    using sys_invD(2) [OF inv] by (auto simp: ids_inv_def markDispatched_def set_update_where)
  moreover have "messages_inv ?s'"
    using messages_invD [OF inv] by (intro messages_invI) (auto split: if_splits)
  ultimately show ?thesis
    using markDispatched_ok [OF sys_invD(1) [OF inv]] by (simp add: sys_inv_def)
qed

lemma purge_inv:
  assumes inv: "sys_inv opts s"
  shows "sys_inv opts (s\<lparr>sysTable := filter (\<lambda>r. \<not> stale opts (sysClock s) r) (sysTable s)\<rparr>)"
    (is "sys_inv opts ?s'")
proof -
  have "row_inv opts ?s' r" if "r \<in> set (sysTable s)" for r
    using sys_invD(5) [OF inv that] by (rule row_inv_mono) simp_all
  moreover have "\<not> stale opts (sysClock s) r" if "r \<in> set (sysTable s)" "waiting r" for r
    using table_okD(1) [OF sys_invD(1) [OF inv] that(1)] that(2)
    by (auto simp: stale_def row_ok_def terminal_def waiting_def)
  then have "locks_inv opts ?s'" by (intro locks_inv_update [OF sys_invD(4) [OF inv]]) auto
  moreover have "ids_inv ?s'" using sys_invD(2) [OF inv] by (auto simp: ids_inv_def)
  moreover have "messages_inv ?s'" using messages_invD [OF inv] by (intro messages_invI) auto
  ultimately show ?thesis using table_ok_filter [OF sys_invD(1) [OF inv]] by (simp add: sys_inv_def)
qed

lemma claim_Some:
  assumes "table_ok t" and "claim opts now env t = (t', Some job)"
  obtains r where "r \<in> set t" "claimable opts now env r"
    "t' = update_where (claimable opts now env) (claim_effect opts now env) t"
    "\<And>x. x \<in> set t \<Longrightarrow> claimable opts now env x \<longleftrightarrow> job_id x = envId env"
proof -
  from assms(2) obtain r where r: "find (claimable opts now env) t = Some r"
    and t': "t' = update_where (claimable opts now env) (claim_effect opts now env) t"
    by (auto simp: claim_def Let_def)
  then have mem: "r \<in> set t" "claimable opts now env r" by (auto simp: find_Some_iff)
  moreover have "claimable opts now env x \<longleftrightarrow> job_id x = envId env" if "x \<in> set t" for x
    using job_id_unique [OF assms(1) that mem(1)] mem(2) by (auto simp: claimable_def)
  ultimately show thesis using that t' by blast
qed

lemma claim_none_iff:
  assumes "claim opts now env t = (t', None)"
  shows "t' = t" and "r \<in> set t \<Longrightarrow> \<not> claimable opts now env r"
proof -
  have none: "\<forall>r \<in> set t. \<not> claimable opts now env r"
    using assms by (auto simp: claim_def Let_def find_None_iff)
  then show "t' = t" using assms by (simp add: claim_None)
  show "r \<in> set t \<Longrightarrow> \<not> claimable opts now env r" using none by blast
qed

text \<open>A message for the next attempt of a waiting row can be claimed.\<close>

lemma current_message_claimable:
  assumes inv: "sys_inv opts s" and "r \<in> set (sysTable s)" and "envelope_of r \<in> sent s"
    and "waiting r" and "queue_name r = optName opts"
  shows "claimable opts (sysClock s) (envelope_of r) r"
proof -
  have "row_ok r" using sys_invD(1) [OF inv] assms(2) by (rule table_okD(1))
  moreover have "available_at r \<le> sysClock s"
    using row_invD(1) [OF sys_invD(5) [OF inv assms(2)]] assms(3,4)
    unfolding messages_due_def by (metis envelope_of_simps)
  ultimately show ?thesis using assms(4,5) by (simp add: claimable_def row_ok_def)
qed

lemma obsolete_inv:
  assumes inv: "sys_inv opts s" and k: "deliveries s k = Some (Delivered env)"
    and cl: "claim opts (sysClock s) env (sysTable s) = (t', None)"
  shows "sys_inv opts (s\<lparr>sysTable := t', deliveries := (deliveries s)(k \<mapsto> Settled env)\<rparr>)" (is "sys_inv opts ?s'")
proof -
  note none = claim_none_iff [OF cl]
  have env: "env \<in> sent s" using messages_invD(2) [OF inv k] by simp
  have other: "in_broker ?s' e" if "in_broker s e" "e \<noteq> env" for e
    using that(1) by (rule in_broker_upd [where k = k and x = "Some (Settled env)"])
      (use that(2) k in \<open>auto simp: in_broker_def\<close>)
  have fresh: "envelope_of r \<noteq> env" if "r \<in> set (sysTable s)" "waiting r" "queue_name r = optName opts" for r
    using current_message_claimable [OF inv that(1) _ that(2,3)] env none(2) [OF that(1)] by auto
  have "row_inv opts ?s' r" if r: "r \<in> set (sysTable s)" for r
    using row_invD [OF sys_invD(5) [OF inv r]] other fresh [OF r]
    by (auto simp: row_inv_def messages_due_def claims_behind_def not_stranded_def)
  moreover have "locks_inv opts ?s'"
    using sys_invD(4) [OF inv]
  proof (rule locks_inv_update)
    show "in_broker ?s' e" if "dispatchers s d = Some (e, c)" "in_broker s e" for d e c
      using locks_invD(1) [OF sys_invD(4) [OF inv] that(1)] fresh other [OF that(2)] by blast
  qed (simp_all add: none(1))
  moreover have "messages_inv ?s'"
    using messages_invD [OF inv] env by (intro messages_invI) (auto split: if_splits)
  ultimately show ?thesis
    using sys_invD(1,2) [OF inv] by (simp add: sys_inv_def none(1) ids_inv_def)
qed

lemma claimed_inv:
  assumes inv: "sys_inv opts s" and k: "deliveries s k = Some (Delivered env)"
    and free: "\<forall>r \<in> set (sysTable s). claimable opts (sysClock s) env r \<longrightarrow> job_id r \<notin> locked s"
    and cl: "claim opts (sysClock s) env (sysTable s) = (t', Some job)"
    and nx: "nx = Some (Running env) \<or> nx = None"
  shows "sys_inv opts (s\<lparr>sysTable := t', deliveries := (deliveries s)(k := nx),
         ready := ready s + (if nx = None then {#env#} else {#}), claims := claims s @ [env]\<rparr>)"
    (is "sys_inv opts ?s'")
proof -
  obtain r where r: "r \<in> set (sysTable s)" "claimable opts (sysClock s) env r"
    and t': "t' = update_where (claimable opts (sysClock s) env) (claim_effect opts (sysClock s) env) (sysTable s)"
    and hit: "\<And>x. x \<in> set (sysTable s) \<Longrightarrow> claimable opts (sysClock s) env x \<longleftrightarrow> job_id x = envId env"
    using claim_Some [OF sys_invD(1) [OF inv] cl] by blast
  have id: "job_id r = envId env" "attempts_made r + 1 = envAttempt env" "waiting r"
    using r(2) by (auto simp: claimable_def)
  have ok: "row_ok r" using sys_invD(1) [OF inv] r(1) by (rule table_okD(1))
  have env: "env \<in> sent s" using messages_invD(2) [OF inv k] by simp
  have other: "in_broker ?s' e" if "in_broker s e" "e \<noteq> env" for e
    using that(1) by (rule in_broker_upd [where k = k and x = nx]) (use that(2) k in \<open>auto simp: in_broker_def\<close>)
  have new: "env \<notin> set (claims s)"
    using row_invD(2) [OF sys_invD(5) [OF inv r(1)]] id by (auto simp: claims_behind_def)
  have rows: "set t' = (\<lambda>x. if job_id x = envId env then claim_effect opts (sysClock s) env x else x) ` set (sysTable s)"
    unfolding t' set_update_where using hit by (auto intro!: image_cong)
  have "row_inv opts ?s' (if job_id x = envId env then claim_effect opts (sysClock s) env x else x)"
    if x: "x \<in> set (sysTable s)" for x
  proof (cases "job_id x = envId env")
    case True
    then have "x = r" using job_id_unique [OF sys_invD(1) [OF inv] x r(1)] id by simp
    with True row_invD [OF sys_invD(5) [OF inv x]] id ok show ?thesis
      by (auto simp: row_inv_def messages_due_def claims_behind_def not_stranded_def waiting_def row_ok_def)
  next
    case False
    then have "envelope_of x \<noteq> env" by auto
    with False row_invD [OF sys_invD(5) [OF inv x]] other show ?thesis
      by (auto simp: row_inv_def messages_due_def claims_behind_def not_stranded_def)
  qed
  then have "\<forall>x \<in> set t'. row_inv opts ?s' x" unfolding rows by blast
  moreover have "locks_inv opts ?s'"
    using sys_invD(4) [OF inv]
  proof (rule locks_inv_update)
    show "in_broker ?s' e" if d: "dispatchers s d = Some (e, c)" "in_broker s e" for d e c
    proof -
      have "e \<noteq> env" using lockedI [OF d(1)] free r id(1) by metis
      with d(2) show ?thesis by (rule other)
    qed
    show "x \<in> set (sysTable ?s')" if "x \<in> set (sysTable s)" "waiting x" "job_id x \<in> locked s" for x
      using that free hit rows by auto
  qed simp
  moreover have "ids_inv ?s'"
    using sys_invD(2) [OF inv] new id(1) r(1) rows by (auto simp: ids_inv_def image_subset_iff)
  moreover have "messages_inv ?s'"
    using messages_invD [OF inv] env nx by (intro messages_invI) (auto split: if_splits)
  moreover have "table_ok t'" using claim_ok [OF sys_invD(1) [OF inv]] cl by (metis fst_conv)
  ultimately show ?thesis by (simp add: sys_inv_def)
qed

lemma sys_step_inv:
  assumes "sys_inv opts s" and "sys_step sha256 idRank opts s s'"
  shows "sys_inv opts s'"
  using assms(2,1)
  by cases
    (auto intro: tick_inv submit_inv select_inv accept_inv late_accept_inv commit_inv rollback_inv
      deliver_inv obsolete_inv finish_inv late_write_inv acknowledge_inv requeue_inv expire_inv purge_inv
      claimed_inv [where nx = None, simplified] claimed_inv [where nx = "Some (Running _)", simplified])

lemma sys_init_inv: "sys_init s \<Longrightarrow> sys_inv opts s"
  by (simp add: sys_init_def sys_inv_def table_ok_def ids_inv_def messages_inv_def locks_inv_def)

interpretation job_sys: safe_transition_system sys_init "sys_step sha256 idRank opts" "sys_inv opts"
  for sha256 idRank opts
  by unfold_locales (fact sys_init_inv, fact sys_step_inv)

subsection \<open>Finished jobs\<close>

lemma sys_step_clock: "sys_step sha256 idRank opts s s' \<Longrightarrow> sysClock s \<le> sysClock s'"
  by (erule sys_step.cases) auto

lemma sys_run_clock: "(sys_step sha256 idRank opts)\<^sup>*\<^sup>* s s' \<Longrightarrow> sysClock s \<le> sysClock s'"
  by (induction rule: rtranclp_induct) (auto dest: sys_step_clock)

text \<open>An update whose guard excludes terminal rows keeps them.\<close>

lemma terminal_kept:
  "r \<in> set t \<Longrightarrow> \<not> P r \<Longrightarrow> r \<in> set (update_where P f t)"
  by (force simp: set_update_where)

lemma terminal_step:
  assumes inv: "sys_inv opts s" and r: "r \<in> set (sysTable s)" "terminal r"
    and "sys_step sha256 idRank opts s s'"
  shows "r \<in> set (sysTable s') \<or> stale opts (sysClock s') r"
  using assms(4)
proof cases
  case (submit newId sub t' res)
  then show ?thesis using enqueue_table [OF sys_invD(1) [OF inv] submit(3)] r(1) by auto
next
  case (commit d env)
  obtain x where x: "x \<in> set (sysTable s)" "env = envelope_of x" "waiting x"
    using locks_invD(1) [OF sys_invD(4) [OF inv] commit(2)] by blast
  have "job_id r \<noteq> envId env"
    using job_id_unique [OF sys_invD(1) [OF inv] r(1) x(1)] x r(2) by (auto simp: terminal_def waiting_def)
  then show ?thesis using commit(1) r(1) by (simp add: markDispatched_def terminal_kept)
next
  case (claimed k env t' job next_state)
  have "\<not> claimable opts (sysClock s) env r" using r(2) by (auto simp: claimable_def terminal_def waiting_def)
  with claimed r(1) show ?thesis by (auto simp: claim_def Let_def terminal_kept)
next
  case (obsolete k env t')
  then show ?thesis using claim_none_iff(1) [OF obsolete(4)] r(1) by simp
next
  case (finish k env out)
  obtain f where "write_outcome opts (sysClock s) env out (sysTable s) =
      update_where (owned_attempt opts env) f (sysTable s)" using write_outcome_update by blast
  with finish(1) r show ?thesis by (auto simp: terminal_def owned_attempt_def intro!: terminal_kept)
next
  case (late_write env out)
  obtain f where "write_outcome opts (sysClock s) env out (sysTable s) =
      update_where (owned_attempt opts env) f (sysTable s)" using write_outcome_update by blast
  with late_write(1) r show ?thesis by (auto simp: terminal_def owned_attempt_def intro!: terminal_kept)
next
  case expire
  then show ?thesis using r by (auto simp: terminal_def expired_def intro!: terminal_kept)
qed (use r in auto)

lemma stale_mono: "stale opts now r \<Longrightarrow> now \<le> later \<Longrightarrow> stale opts later r"
  by (auto simp: stale_def split: option.splits)

subsection \<open>A run\<close>

definition demo_sys :: job_system where
  "demo_sys = \<lparr>sysTable = [], sysClock = 0, ready = {#}, deliveries = Map.empty, dispatchers = Map.empty,
     sent = {}, usedIds = {}, claims = []\<rparr>"

definition demo_env :: JobEnvelope where
  "demo_env = envelope_of demo_job"

definition demo_submitted :: job_system where
  "demo_submitted = demo_sys\<lparr>sysTable := [demo_job], usedIds := {js ''job-1''}\<rparr>"

definition demo_published :: job_system where
  "demo_published = demo_submitted\<lparr>dispatchers := [0 \<mapsto> (demo_env, True)], sent := {demo_env}, ready := {#demo_env#}\<rparr>"

definition demo_dispatched :: job_system where
  "demo_dispatched = demo_submitted\<lparr>sysTable := [demo_job\<lparr>dispatch_pending := False\<rparr>], sent := {demo_env},
     ready := {#demo_env#}\<rparr>"

definition demo_running :: job_system where
  "demo_running = demo_dispatched\<lparr>
     sysTable := [claim_effect demo_opts 0 demo_env (demo_job\<lparr>dispatch_pending := False\<rparr>)],
     ready := {#}, deliveries := [0 \<mapsto> Running demo_env], claims := [demo_env]\<rparr>"

lemmas demo_sys_defs = demo_sys_def demo_env_def demo_submitted_def demo_published_def demo_dispatched_def
  demo_running_def

abbreviation demo_sys_step :: "job_system \<Rightarrow> job_system \<Rightarrow> bool" where
  "demo_sys_step \<equiv> sys_step id (\<lambda>_. 0) demo_opts"

lemma demo_sys_init: "sys_init demo_sys"
  by (simp add: sys_init_def demo_sys_def)

lemma demo_reach_submitted: "demo_sys_step\<^sup>*\<^sup>* demo_sys demo_submitted"
proof -
  have "enqueue id demo_opts 0 (js ''job-1'') (\<lambda>t. t) demo_sub [] =
      ([demo_job], receipt_of (payload_hash demo_job) demo_job)"
    by (simp add: enqueue_def insertJob_def demo_job_def Let_def new_row_def demo_opts_def)
  then have "demo_sys_step demo_sys demo_submitted"
    using sys_step.submit [of "js ''job-1''" demo_sys id demo_opts demo_sub "[demo_job]" _ "\<lambda>_. 0"]
    by (simp add: demo_sys_defs)
  then show ?thesis by blast
qed

lemma demo_reach_dispatched: "demo_sys_step\<^sup>*\<^sup>* demo_sys demo_dispatched"
proof -
  let ?s = "demo_submitted\<lparr>dispatchers := [0 \<mapsto> (demo_env, False)], sent := {demo_env}\<rparr>"
  have "selectPending (\<lambda>_. 0) demo_opts 0 {} [demo_job] = Some demo_job"
    by (simp add: selectPending_def demo_job_def new_row_def demo_opts_def waiting_def)
  then have "demo_sys_step demo_submitted ?s"
    using sys_step.select [of demo_submitted 0 "\<lambda>_. 0" demo_opts demo_job id]
    by (simp add: demo_sys_defs locked_def)
  moreover have "demo_sys_step ?s demo_published"
    using sys_step.accept [of ?s 0 demo_env False] by (simp add: demo_sys_defs)
  moreover have "demo_sys_step demo_published demo_dispatched"
    using sys_step.commit [of demo_published 0 demo_env]
    by (simp add: demo_sys_defs markDispatched_def update_where_def)
  ultimately show ?thesis using demo_reach_submitted by (meson rtranclp.rtrancl_into_rtrancl)
qed

lemma demo_reach_running: "demo_sys_step\<^sup>*\<^sup>* demo_sys demo_running"
proof -
  let ?s = "demo_dispatched\<lparr>ready := {#}, deliveries := [0 \<mapsto> Delivered demo_env]\<rparr>"
  let ?r = "demo_job\<lparr>dispatch_pending := False\<rparr>"
  have "claimable demo_opts 0 demo_env ?r"
    by (simp add: claimable_def demo_env_def demo_job_def new_row_def demo_opts_def waiting_def)
  then obtain job where "claim demo_opts 0 demo_env [?r] = ([claim_effect demo_opts 0 demo_env ?r], Some job)"
    by (simp add: claim_def update_where_def Let_def)
  then have "demo_sys_step ?s demo_running"
    using sys_step.claimed [of ?s 0 demo_env demo_opts "[claim_effect demo_opts 0 demo_env ?r]" job
        "Some (Running demo_env)" id "\<lambda>_. 0"]
    by (simp add: demo_sys_defs locked_def)
  moreover have "demo_sys_step demo_dispatched ?s"
    using sys_step.deliver [of demo_env demo_dispatched 0] by (simp add: demo_sys_defs)
  ultimately show ?thesis using demo_reach_dispatched by (meson rtranclp.rtrancl_into_rtrancl)
qed

section \<open>Properties\<close>

text \<open>
  C1: no accepted job is ever stranded. In every state the pipeline can reach, through any
  interleaving of submissions, dispatchers, deliveries, workers, crashes, lost replies,
  duplicates and maintenance, a job that is not finished is pending publication, or the broker
  holds a message for its next attempt that a worker can claim at once, or it is active under
  a lease whose expiry reschedules it.
\<close>

theorem jobs_never_stranded:
  assumes "sys_init s0" and "(sys_step sha256 idRank opts)\<^sup>*\<^sup>* s0 s"
    and "r \<in> set (sysTable s)" and "queue_name r = optName opts" and "\<not> terminal r"
  shows "waiting r \<and> dispatch_pending r \<or>
         waiting r \<and> in_broker s (envelope_of r) \<and> claimable opts (sysClock s) (envelope_of r) r \<or>
         status r = JActive \<and> (\<exists>l. lease_until r = Some l \<and>
           (\<forall>now > l. waiting (expire_row now r) \<and> dispatch_pending (expire_row now r) \<or>
                      terminal (expire_row now r)))"
proof -
  have inv: "sys_inv opts s" using assms(1,2) by (rule job_sys.reachable_inv)
  have ok: "row_ok r" using sys_invD(1) [OF inv] assms(3) by (rule table_okD(1))
  show ?thesis
  proof (cases "waiting r")
    case True
    have "claimable opts (sysClock s) (envelope_of r) r" if "in_broker s (envelope_of r)"
    proof (rule current_message_claimable [OF inv assms(3) _ True assms(4)])
      show "envelope_of r \<in> sent s"
        using that messages_invD(1) [OF inv] messages_invD(2) [OF inv] unfolding in_broker_def
        by (metis delivery_env.simps(1))
    qed
    with True row_invD(3) [OF sys_invD(5) [OF inv assms(3)]] assms(4) show ?thesis
      by (auto simp: not_stranded_def)
  next
    case False
    with assms(5) have "status r = JActive" by (cases "status r") (auto simp: waiting_def terminal_def)
    with ok show ?thesis
      by (auto simp: row_ok_def expire_row_def waiting_def terminal_def Let_def)
  qed
qed

theorem jobs_never_stranded_witness:
  "in_broker demo_dispatched demo_env"
proof -
  have "demo_job\<lparr>dispatch_pending := False\<rparr> \<in> set (sysTable demo_dispatched)" by (simp add: demo_dispatched_def)
  from jobs_never_stranded [OF demo_sys_init demo_reach_dispatched this] show ?thesis
    by (simp add: demo_job_def new_row_def demo_opts_def terminal_def demo_env_def envelope_of_def)
qed

text \<open>
  C10: every attempt of a job runs at most once, and at most the allowed number of attempts run.
  In every reachable state no two claims are of the same attempt, however often messages were
  duplicated or redelivered, and a job has been claimed no more often than its attempt counter
  says, which never exceeds its limit.
\<close>

theorem attempts_claimed_once:
  assumes "sys_init s0" and "(sys_step sha256 idRank opts)\<^sup>*\<^sup>* s0 s" and "r \<in> set (sysTable s)"
  shows "distinct (claims s) \<and>
         int (length (filter (\<lambda>env. envId env = job_id r) (claims s))) \<le> attempts_made r \<and>
         attempts_made r \<le> max_attempts r"
proof -
  have inv: "sys_inv opts s" using assms(1,2) by (rule job_sys.reachable_inv)
  have ok: "row_ok r" using sys_invD(1) [OF inv] assms(3) by (rule table_okD(1))
  have d: "distinct (claims s)" using sys_invD(2) [OF inv] by (simp add: ids_inv_def)
  let ?l = "filter (\<lambda>env. envId env = job_id r) (claims s)"
  have "inj_on envAttempt (set ?l)" by (auto simp: inj_on_def)
  then have "card (envAttempt ` set ?l) = card (set ?l)" by (rule card_image)
  moreover have "distinct ?l" using d by simp
  ultimately have "length ?l = card (envAttempt ` set ?l)" by (simp only: distinct_card)
  also have "\<dots> \<le> card {1..attempts_made r}"
    using row_invD(2) [OF sys_invD(5) [OF inv assms(3)]]
    by (intro card_mono) (auto simp: claims_behind_def)
  finally have "length ?l \<le> nat (attempts_made r)" by simp
  moreover have "0 \<le> attempts_made r" using ok by (simp add: row_ok_def)
  ultimately have "int (length ?l) \<le> attempts_made r" by linarith
  with d ok show ?thesis by (simp add: row_ok_def)
qed

theorem attempts_claimed_once_witness:
  "distinct (claims demo_running) \<and> int (length (filter (\<lambda>env. envId env = js ''job-1'') (claims demo_running))) \<le> 1"
proof -
  have "claim_effect demo_opts 0 demo_env (demo_job\<lparr>dispatch_pending := False\<rparr>) \<in> set (sysTable demo_running)"
    by (simp add: demo_running_def)
  from attempts_claimed_once [OF demo_sys_init demo_reach_running this] show ?thesis
    by (simp add: demo_job_def new_row_def demo_env_def envelope_of_def)
qed

text \<open>
  C11: the outcome of a job is final. Once a job has completed or failed, no later step of the
  pipeline changes its row in any way, late writes of superseded attempts, redeliveries and
  crashes included: the row is still there, identical, until more than 24 hours after it
  finished.
\<close>

theorem finished_jobs_final:
  assumes "sys_init s0" and "(sys_step sha256 idRank opts)\<^sup>*\<^sup>* s0 s" and "r \<in> set (sysTable s)" and "terminal r"
    and "(sys_step sha256 idRank opts)\<^sup>*\<^sup>* s s'"
  shows "r \<in> set (sysTable s') \<or> (\<exists>f. finished_at r = Some f \<and> sysClock s' > f + 86400000)"
proof -
  from assms(5) have "(sys_step sha256 idRank opts)\<^sup>*\<^sup>* s0 s' \<and> (r \<in> set (sysTable s') \<or> stale opts (sysClock s') r)"
  proof (induction rule: rtranclp_induct)
    case base
    then show ?case using assms(2,3) by simp
  next
    case (step u v)
    have "sys_inv opts u" using assms(1) step.IH by (blast intro: job_sys.reachable_inv)
    with step.IH step.hyps(2) assms(4) show ?case
      using terminal_step [of opts u r sha256 idRank v] stale_mono [OF _ sys_step_clock [OF step.hyps(2)], of opts r]
      by (meson rtranclp.rtrancl_into_rtrancl)
  qed
  then show ?thesis by (auto simp: stale_def split: option.splits)
qed

theorem finished_jobs_final_witness:
  "\<exists>s r. demo_sys_step\<^sup>*\<^sup>* demo_sys s \<and> r \<in> set (sysTable s) \<and> terminal r \<and> finished_at r = Some 0 \<and>
     (\<forall>s'. demo_sys_step\<^sup>*\<^sup>* s s' \<longrightarrow> r \<in> set (sysTable s') \<or> sysClock s' > 86400000)"
proof -
  let ?a = "claim_effect demo_opts 0 demo_env (demo_job\<lparr>dispatch_pending := False\<rparr>)"
  let ?s = "demo_running\<lparr>sysTable := [complete_effect 0 JNull ?a], deliveries := [0 \<mapsto> Settled demo_env]\<rparr>"
  have "write_outcome demo_opts 0 demo_env (Inr JNull) [?a] = [complete_effect 0 JNull ?a]"
    by (simp add: write_outcome_def complete_def update_where_def owned_attempt_def demo_env_def demo_job_def
        new_row_def demo_opts_def)
  then have "demo_sys_step demo_running ?s"
    using sys_step.finish [of demo_running 0 demo_env id "\<lambda>_. 0" demo_opts "Inr JNull"]
    by (simp add: demo_sys_defs)
  with demo_reach_running have reach: "demo_sys_step\<^sup>*\<^sup>* demo_sys ?s" by (rule rtranclp.rtrancl_into_rtrancl)
  have r: "complete_effect 0 JNull ?a \<in> set (sysTable ?s)" "terminal (complete_effect 0 JNull ?a)"
    by (simp_all add: terminal_def)
  show ?thesis
    using finished_jobs_final [OF demo_sys_init reach r] reach r by (intro exI conjI) auto
qed

end
