(* ===== verification/Spec2Isabelle.thy ===== *)
theory Spec2Isabelle
  imports Metrics Http_Api Worker_Process Create_Api_Key Job_System
begin

text \<open>
  ModelMux is an inference gateway: an HTTP server that authenticates clients, limits their rate
  and the concurrency of provider calls, routes a chat to a local provider (Ollama) with a hosted
  fallback (OpenAI) behind circuit breakers, answers whole or as a stream of server-sent events,
  caches answers, and accepts durable inference jobs that a worker process takes from RabbitMQ with
  Postgres as the source of truth. This library models the program as executable functions and
  step relations and proves the properties that make each part, and the parts together, correct.
  File names below are relative to \<open>src/src\<close> of the repository.

  \<^bold>\<open>How the code is read.\<close> A synchronous segment of the program, the code between two
  awaits, is one function of the state; a promise, a timer, a socket, Redis, Postgres, RabbitMQ and
  the providers are the environment, and what they do is an argument of the segment or an event of
  a step. Components with interleaving operations are machines whose runs are arbitrary lists of
  events (\<open>run\<close> of \<open>Prelude\<close>) or reachable states of an inductive step relation; their invariants
  are proved once in the locales \<open>stepwise_invariant\<close> and \<open>safe_transition_system\<close> and interpreted
  on the model. Thrown errors are the \<open>Inl\<close> side of a sum. Strings are lists of UTF-16 code units;
  numbers are exact (rationals, or integers where the code counts): rounding of doubles is not
  modelled. SHA-256 and the platform's URL parser are parameters, with what the code relies on
  (no collision on the texts compared, a path resolves against an http URL) as hypotheses.

  \<^bold>\<open>The theories.\<close>

  \<^item> \<open>Prelude\<close>: strings, numbers, fallible steps, runs and the locales of invariants.
  \<^item> \<open>Telemetry\<close> (\<open>observability/telemetry.ts\<close>), \<open>App_Errors\<close> (\<open>errors.ts\<close>, \<open>cancellation.ts\<close>,
    \<open>providers/failure-policy.ts\<close>, the error handler of \<open>app.ts\<close>), \<open>Chat_Types\<close>
    (\<open>types/chat.ts\<close>): the vocabulary of the program.
  \<^item> \<open>Circuit_Breaker\<close> (\<open>providers/circuit-breaker.ts\<close>): the breaker with its generations refines a
    specification without them under any interleaving of calls; one probe at a time.
  \<^item> \<open>Concurrency_Limiter\<close> (\<open>concurrency/*.ts\<close>): capacity, first-in-first-out admission and
    accounting after any sequence of acquisitions, aborts, timeouts and releases.
  \<^item> \<open>Token_Bucket\<close> (\<open>rate-limit/*.ts\<close>, the Lua script included): the rate bound, that expiry of
    keys is invisible, exact retry times, failing closed.
  \<^item> \<open>Api_Keys\<close> (\<open>auth/*.ts\<close>): the guard admits only enabled keys that the limiter granted; the
    limiter is the locale \<open>rate_limiter\<close>, interpreted on the token bucket.
  \<^item> \<open>Provider_Router\<close> (\<open>providers/router.ts\<close>): fallback policy, no mixed output, at most one call
    per target, and that the router's circuits are reachable states of the breaker's relation.
  \<^item> \<open>Json\<close>, \<open>Utf8\<close>, \<open>Wire_Text\<close>: \<open>JSON.stringify\<close>, \<open>JSON.parse\<close>, the streaming UTF-8 decoder and
    encoder of the platform, with their round trips. The parser has fuel; every recursive call has
    consumed a character, so the length of the text plus one is enough (\<open>parse_fuel\<close>,
    \<open>json_parse_complete\<close>).
  \<^item> \<open>Stream_Parser\<close> (\<open>providers/stream-parser.ts\<close>): line and event reading is independent of the
    network's chunks. \<open>Provider_Adapters\<close> (\<open>providers/ollama.ts\<close>, \<open>providers/openai.ts\<close>,
    \<open>providers/http-request.ts\<close>): streams succeed exactly on complete answers, the deadline of a call.
  \<^item> \<open>Sse\<close> (\<open>routes/sse.ts\<close>), \<open>Chat_Cache\<close> (\<open>cache/redis-chat-cache.ts\<close>), \<open>Chat_Routes\<close>
    (\<open>routes/chat.ts\<close>, \<open>routes/request-cancellation.ts\<close>): bounded writes, round trips of events and
    cached answers, permits released exactly once, cancelled requests never answered, truthful
    streams.
  \<^item> \<open>Canonical_Hash\<close> (\<open>cache/cache-key.ts\<close>): hashes identify values up to property order.
  \<^item> \<open>Job_Store\<close> (\<open>queue/postgres-job-store.ts\<close>), \<open>Job_Worker\<close> (\<open>queue/rabbitmq.ts\<close>,
    \<open>queue/rabbitmq-broker.ts\<close>, \<open>jobs/inference-processor.ts\<close>) and \<open>Job_System\<close>, the pipeline of
    all of them as one step relation: no job is stranded, no attempt is claimed twice, finished
    jobs stay finished. The statements of the store are the locale \<open>row_update\<close> on the table.
  \<^item> \<open>Config\<close> (\<open>config.ts\<close>) and \<open>Gateway\<close> (\<open>server.ts\<close>, \<open>worker.ts\<close>,
    \<open>providers/create-provider.ts\<close>): a configuration that loads builds both processes; start and
    shutdown.
  \<^item> \<open>Schemas\<close> (\<open>routes/chat-schema.ts\<close> and the schemas of the other routes) and \<open>Http_Api\<close>
    (\<open>app.ts\<close>, \<open>routes/jobs.ts\<close>, \<open>routes/providers.ts\<close>): a conforming body is a complete chat
    request, replies conform to what the routes publish, nobody is served without the guard, and
    the submission and polling of a job fit together. The framework's validator is a parameter: its
    result conforms to the schema, and it leaves a conforming value alone.
  \<^item> \<open>Worker_Process\<close> (\<open>queue/rabbitmq.ts\<close>, \<open>queue/rabbitmq-broker.ts\<close>): starting, consuming, draining
    and closing as one machine: the order of the AMQP commands, and that closing completes after at
    most the running tasks plus twelve settled events, the bound of its measure.
  \<^item> \<open>Metrics\<close> (\<open>observability/metrics.ts\<close>, \<open>observability/http.ts\<close>, \<open>observability/server.ts\<close>): gauges
    equal the work in flight, the number of series is bounded, scrapes show what was collected. The
    package that keeps the values is the locale \<open>prom_client\<close>, whose laws are its documented
    behaviour, interpreted on a registry of two maps.
  \<^item> \<open>Create_Api_Key\<close> (\<open>scripts/create-api-key.ts\<close>): a reported key is accepted by the guard.
  \<^item> \<open>Spec2Isabelle\<close>: the property that spans the tool, the guard, the limiter, the HTTP application
    and the job store.

  \<^bold>\<open>Not modelled.\<close> Logging; the frameworks (Fastify's route matching, parsing and
  serialisation, prom-client, ioredis, pg, amqplib, pino, dotenv), which are not part of the sources; the text of SQL
  statements, whose effect on the table is modelled; \<open>scripts/migrate.ts\<close>, which runs SQL files;
  the rounding and overflow of IEEE doubles; the loss of \<open>cause\<close> chains of errors. The \<open>finally\<close>
  parts that only release platform objects (reader locks) are left out where noted.
\<close>

section \<open>Properties that span components\<close>

text \<open>The first request of a key whose bucket does not exist yet is allowed.\<close>

lemma first_request_allowed:
  assumes "validatePolicy policy = Inr ()" and "store (bucket_key subject) = None"
  obtains store' d where "consume (\<lambda>_. True) eval_outcome.Replied secs usecs subject policy store = (store', Inr d)" "allowed d"
proof -
  from assms(1) obtain c where c: "capacity policy = Num c" "1 \<le> c" "is_int_rat c"
    by (cases "capacity policy") (auto simp: validatePolicy_def not_less split: if_splits)
  then have "1 \<le> \<lfloor>c\<rfloor>" by linarith
  with c assms that show ?thesis
    by (auto simp: consume_def evalScript_def tokenBucketScript_def live_bucket_def refilled_def
        isTokenBucketResult_def int_of_number_def Let_def)
qed


text \<open>An application over the table of a created key, and the request that bears it.\<close>

definition fresh_app :: "ApiKeyRow list \<Rightarrow> redis_store app" where
  "fresh_app rows =
     \<lparr>appAuthenticator = authenticate id (findEnabledByHash False rows),
      appLimiter = consume (\<lambda>_. True) eval_outcome.Replied 7 0,
      appValidate = (\<lambda>sc v. if conforms sc v then Inr v else Inl []),
      appJobs = \<lparr>envSha256 = (\<lambda>x. x), envOptions = demo_opts, envNow = 5, envNewId = js ''job-2'', envBetween = (\<lambda>t. t)\<rparr>,
      appHealth = None\<rparr>"

definition fresh_state :: "redis_store app_state" where
  "fresh_state = \<lparr>limiterState = Map.empty, jobTable = []\<rparr>"


end
